(* ===== verification/Prelude.thy ===== *)
theory Prelude
  imports Complex_Main "HOL-Library.Word" "HOL-Library.Char_ord"
begin

text \<open>
  Shared ground of the development: C constants, C strings as lists of \<open>char\<close> (one
  \<open>char\<close> is one byte), bounded copies as \<open>snprintf\<close> and \<open>strncpy\<close> make them, and
  the collections of rewrite rules that the component theories extend.
\<close>

unbundle bit_operations_syntax

named_theorems thread_defs \<open>definitions of thread step functions and their helpers\<close>
named_theorems inv_defs \<open>definitions of component invariants\<close>

subsection \<open>C integer limits\<close>

definition INT_MAX :: int where "INT_MAX = 2147483647"
definition INT_MIN :: int where "INT_MIN = -2147483648"

lemma INT_limits [simp]: "INT_MIN < INT_MAX" "INT_MIN < 0" "0 < INT_MAX" "INT_MIN \<le> INT_MAX"
  "INT_MIN \<le> 0" "0 \<le> INT_MAX" "INT_MIN \<le> 1" "1 \<le> INT_MAX"
  by (simp_all add: INT_MAX_def INT_MIN_def)

subsection \<open>C strings\<close>

text \<open>
  The value of a C string is the list of its bytes before the terminating NUL. A memory
  region is a list of bytes; \<open>cstr\<close> reads the string that starts at its first byte.
\<close>

abbreviation (input) ord :: "char \<Rightarrow> nat" where "ord c \<equiv> of_char c"

abbreviation NUL :: char where "NUL \<equiv> CHR 0x00"

definition cstr :: "char list \<Rightarrow> string" where
  "cstr xs = takeWhile (\<lambda>c. c \<noteq> NUL) xs"

lemma cstr_no_NUL [simp]: "NUL \<notin> set (cstr xs)"
  unfolding cstr_def using set_takeWhileD by fastforce

lemma cstr_append_NUL: "NUL \<notin> set s \<Longrightarrow> cstr (s @ NUL # t) = s"
  unfolding cstr_def by (subst takeWhile_append2) auto

lemma cstr_id: "NUL \<notin> set s \<Longrightarrow> cstr s = s"
  unfolding cstr_def by (subst takeWhile_eq_all_conv) auto

text \<open>
  \<open>snprintf(dst, n, "%s", s)\<close> with \<open>n > 0\<close> stores at most \<open>n - 1\<close> bytes of \<open>s\<close> and a
  NUL: the string then in \<open>dst\<close> is \<open>snprintf_s n s\<close>.
\<close>

definition snprintf_s :: "nat \<Rightarrow> string \<Rightarrow> string" where
  "snprintf_s n s = take (n - 1) s"

lemma length_snprintf_s: "0 < n \<Longrightarrow> length (snprintf_s n s) < n"
  by (auto simp: snprintf_s_def min_def)

lemma snprintf_s_id: "length s < n \<Longrightarrow> snprintf_s n s = s"
  by (simp add: snprintf_s_def)

lemma snprintf_s_idem [simp]: "snprintf_s n (snprintf_s n s) = snprintf_s n s"
  by (simp add: snprintf_s_def)

text \<open>\<open>isspace\<close> in the C locale.\<close>

definition white :: "char \<Rightarrow> bool" where
  "white c \<longleftrightarrow> c \<in> {CHR '' '', CHR 0x09, CHR 0x0A, CHR 0x0B, CHR 0x0C, CHR 0x0D}"

subsection \<open>Decimal output, as \<open>%d\<close>, \<open>%u\<close> and \<open>%llu\<close> print it\<close>

function dec_nat :: "nat \<Rightarrow> string" where
  "dec_nat n = (if n < 10 then [char_of (48 + n)] else dec_nat (n div 10) @ [char_of (48 + n mod 10)])"
  by pat_completeness auto
termination by (relation "measure id") auto

declare dec_nat.simps [simp del]

definition dec_int :: "int \<Rightarrow> string" where
  "dec_int i = (if i < 0 then CHR ''-'' # dec_nat (nat (- i)) else dec_nat (nat i))"

definition is_digit :: "char \<Rightarrow> bool" where
  "is_digit c \<longleftrightarrow> 48 \<le> ord c \<and> ord c \<le> 57"

lemma is_digit_char_of [simp]: "k < 10 \<Longrightarrow> is_digit (char_of (48 + k :: nat))"
  by (simp add: is_digit_def)

lemma dec_nat_digits: "\<forall>c \<in> set (dec_nat n). is_digit c"
proof (induction n rule: dec_nat.induct)
  case (1 n)
  then show ?case by (subst dec_nat.simps) auto
qed

lemma no_NUL_digits [simp]: "NUL \<notin> set (dec_nat n)"
  using dec_nat_digits by (fastforce simp: is_digit_def)

lemma dec_nat_nonempty [simp]: "dec_nat n \<noteq> []"
  by (subst dec_nat.simps) simp

lemma length_dec_nat_pos [simp]: "0 < length (dec_nat n)"
  by simp

lemma length_dec_nat: "n < 10 ^ k \<Longrightarrow> 0 < k \<Longrightarrow> length (dec_nat n) \<le> k"
proof (induction n arbitrary: k rule: dec_nat.induct)
  case (1 n)
  show ?case
  proof (cases "n < 10")
    case True
    with "1.prems" show ?thesis by (subst dec_nat.simps) simp
  next
    case False
    with "1.prems" obtain j where j: "k = Suc j" "0 < j"
      by (cases k; cases "k - 1") auto
    with "1.prems" have "n div 10 < 10 ^ j" by auto
    with "1.IH" False j have "length (dec_nat (n div 10)) \<le> j" by blast
    with False j show ?thesis by (subst dec_nat.simps) simp
  qed
qed

text \<open>The value of a digit string, and that printing is inverted by it.\<close>

definition digit_val :: "char \<Rightarrow> nat" where
  "digit_val c = ord c - 48"

definition digits_val :: "string \<Rightarrow> nat" where
  "digits_val ds = foldl (\<lambda>n d. 10 * n + digit_val d) 0 ds"

lemma digit_val_char_of [simp]: "k < 10 \<Longrightarrow> digit_val (char_of (48 + k :: nat)) = k"
  by (simp add: digit_val_def)

lemma digits_val_snoc [simp]: "digits_val (ds @ [d]) = 10 * digits_val ds + digit_val d"
  by (simp add: digits_val_def)

lemma digits_val_dec_nat [simp]: "digits_val (dec_nat n) = n"
proof (induction n rule: dec_nat.induct)
  case (1 n)
  show ?case
  proof (cases "n < 10")
    case True
    then show ?thesis by (subst dec_nat.simps) (simp add: digits_val_def)
  next
    case False
    with 1 show ?thesis by (subst dec_nat.simps) simp
  qed
qed

subsection \<open>Lists\<close>

lemma take_drop_nth: "i < length xs \<Longrightarrow> take (Suc 0) (drop i xs) = [xs ! i]"
  by (simp add: take_Suc_conv_app_nth hd_drop_conv_nth take_Suc)

lemma nth_append_at: "length pre = n \<Longrightarrow> (pre @ x # xs) ! n = x"
  by auto

lemma drop_append_at: "length pre = n \<Longrightarrow> drop n (pre @ xs) = xs"
  by auto

subsection \<open>Exclusive or\<close>

lemma xor_right_cancel: "a XOR b = c XOR b \<longleftrightarrow> a = c" for a b c :: "'a::len word"
proof
  assume "a XOR b = c XOR b"
  then have "(a XOR b) XOR b = (c XOR b) XOR b" by simp
  then show "a = c" by (simp add: xor.assoc)
qed simp

lemma xor_left_cancel: "b XOR a = b XOR c \<longleftrightarrow> a = c" for a b c :: "'a::len word"
  by (simp add: xor.commute [of b] xor_right_cancel)

lemma xor_pair_cancel: "(a XOR p) XOR (b XOR p) = a XOR b" for a b p :: "'a::len word"
  by (rule bit_eqI) (auto simp: bit_xor_iff)

lemma xor_step_cancel: "a XOR (b XOR p) = (a XOR b) XOR p" for a b p :: "'a::len word"
  by (simp add: xor.assoc)

end
