(* ===== verification/Crc_Lib.thy ===== *)
theory Crc_Lib
  imports Prelude
begin

text \<open>
  The library of labs 4 to 7 (\<open>lab4_toolchain/lib.c\<close>, \<open>lab5_Makefile/lib/lib.c\<close>,
  \<open>lab6_static_lib/lib/lib.c\<close>, \<open>lab7_shared_lib/lib/lib.c\<close>, whose code is the same text):
  \<open>compute_crc32\<close>, a bitwise reflected CRC with polynomial \<open>0xEDB88320\<close>, and
  \<open>getMaxValue\<close>. Reading past the caller's buffer is \<open>None\<close>.
\<close>

type_synonym u8 = "8 word"
type_synonym u32 = "32 word"

subsection \<open>compute_crc32\<close>

text \<open>One turn of the inner \<open>for\<close> loop.\<close>

definition crc_bit :: "u32 \<Rightarrow> u32" where
  "crc_bit crc = (if crc AND 1 \<noteq> 0 then drop_bit 1 crc XOR 0xEDB88320 else drop_bit 1 crc)"

text \<open>The body of the \<open>while\<close> loop for one byte: XOR it in, then eight turns.\<close>

definition crc_byte :: "u32 \<Rightarrow> u8 \<Rightarrow> u32" where
  "crc_byte crc p = (crc_bit ^^ 8) (crc XOR ucast p)"

fun crc_loop :: "u32 \<Rightarrow> u8 list \<Rightarrow> nat \<Rightarrow> u32 option" where
  "crc_loop crc buf 0 = Some crc"
| "crc_loop crc [] (Suc sz) = None"
| "crc_loop crc (p # buf) (Suc sz) = crc_loop (crc_byte crc p) buf sz"

definition compute_crc32 :: "u8 list \<Rightarrow> nat \<Rightarrow> u32 option" where
  "compute_crc32 buf sz = map_option (\<lambda>crc. crc XOR NOT 0) (crc_loop 0 buf sz)"

subsection \<open>getMaxValue\<close>

fun getMaxValue_loop :: "u32 list \<Rightarrow> nat \<Rightarrow> u32 \<Rightarrow> u32 option" where
  "getMaxValue_loop table 0 mx = Some mx"
| "getMaxValue_loop [] (Suc n) mx = None"
| "getMaxValue_loop (t # table) (Suc n) mx =
     getMaxValue_loop table n (if mx < t then t else mx)"

definition getMaxValue :: "u32 list \<Rightarrow> nat \<Rightarrow> u32 option" where
  "getMaxValue table sz = getMaxValue_loop table sz 0"

subsection \<open>The bit step is linear and injective\<close>

lemma crc_bit_zero [simp]: "crc_bit 0 = 0"
  by (simp add: crc_bit_def)

lemma and_one_iff: "(w AND 1 \<noteq> 0) = bit w 0" for w :: "'a::len word"
  by (simp add: and_one_eq bit_0 mod2_eq_if)

lemma crc_bit_xor: "crc_bit (a XOR b) = crc_bit a XOR crc_bit b"
proof -
  have "(if x \<noteq> y then drop_bit 1 (a XOR b) XOR P else drop_bit 1 (a XOR b))
      = (if x then drop_bit 1 a XOR P else drop_bit 1 a) XOR
        (if y then drop_bit 1 b XOR P else drop_bit 1 b)" for x y P
    by (rule bit_eqI) (auto simp: bit_xor_iff drop_bit_xor)
  from this [of "bit a 0" "bit b 0"] show ?thesis
    unfolding crc_bit_def and_one_iff by (simp only: bit_xor_iff)
qed

lemma crc_bit_top: "bit (crc_bit a) 31 = bit a 0"
proof -
  have "bit (0xEDB88320 :: u32) 31" by (simp add: bit_iff_odd_drop_bit drop_bit_eq_div)
  moreover have "\<not> bit (drop_bit 1 a) 31"
    using bit_imp_le_length [of a 32] by (auto simp: bit_drop_bit_eq)
  ultimately show ?thesis
    unfolding crc_bit_def and_one_iff by (simp add: bit_xor_iff)
qed

lemma crc_bit_eq_0: "crc_bit a = 0 \<Longrightarrow> a = 0"
proof -
  assume h: "crc_bit a = 0"
  then have b0: "\<not> bit a 0" using crc_bit_top [of a] by simp
  with h have d: "drop_bit 1 a = 0" unfolding crc_bit_def and_one_iff by simp
  show "a = 0"
  proof (rule bit_eqI)
    fix n
    show "bit a n = bit (0 :: u32) n"
    proof (cases n)
      case 0
      with b0 show ?thesis by simp
    next
      case (Suc m)
      have "bit (drop_bit 1 a) m = bit a n" using Suc by (simp add: bit_drop_bit_eq)
      with d show ?thesis by simp
    qed
  qed
qed

lemma crc_bit_inj: "crc_bit a = crc_bit b \<longleftrightarrow> a = b"
proof
  assume "crc_bit a = crc_bit b"
  then have "crc_bit (a XOR b) = 0" by (simp add: crc_bit_xor)
  then have "a XOR b = 0" by (rule crc_bit_eq_0)
  then have "a XOR b = b XOR b" by simp
  then show "a = b" by (simp only: xor_right_cancel)
qed simp

lemma crc_bits_xor: "(crc_bit ^^ n) (a XOR b) = (crc_bit ^^ n) a XOR (crc_bit ^^ n) b"
  by (induction n) (simp_all add: crc_bit_xor)

lemma crc_bits_inj: "(crc_bit ^^ n) a = (crc_bit ^^ n) b \<longleftrightarrow> a = b"
  by (induction n) (simp_all add: crc_bit_inj)

lemma crc_bits_zero [simp]: "(crc_bit ^^ n) 0 = 0"
  by (induction n) simp_all


lemma crc_byte_xor: "crc_byte (a XOR b) (p XOR q) = crc_byte a p XOR crc_byte b q"
proof -
  have "(a XOR b) XOR ucast (p XOR q) = (a XOR ucast p) XOR (b XOR ucast q)"
    by (rule bit_eqI) (auto simp: bit_xor_iff bit_unsigned_iff)
  then show ?thesis by (simp only: crc_byte_def crc_bits_xor)
qed

lemma crc_byte_inj: "crc_byte a p = crc_byte b p \<longleftrightarrow> a = b"
  by (simp only: crc_byte_def crc_bits_inj xor_right_cancel)

subsection \<open>The byte loop as a fold\<close>

lemma crc_loop_fold:
  "sz \<le> length buf \<Longrightarrow> crc_loop crc buf sz = Some (foldl crc_byte crc (take sz buf))"
  by (induction crc buf sz rule: crc_loop.induct) simp_all

lemma crc_loop_overrun: "length buf < sz \<Longrightarrow> crc_loop crc buf sz = None"
  by (induction crc buf sz rule: crc_loop.induct) simp_all

lemma compute_crc32_fold:
  "sz \<le> length buf \<Longrightarrow> compute_crc32 buf sz = Some (foldl crc_byte 0 (take sz buf) XOR NOT 0)"
  by (simp add: compute_crc32_def crc_loop_fold)

lemma crc_fold_inj: "foldl crc_byte a bs = foldl crc_byte b bs \<longleftrightarrow> a = b"
  by (induction bs arbitrary: a b) (simp_all add: crc_byte_inj)

lemma crc_fold_xor:
  "length ps = length qs \<Longrightarrow>
   foldl crc_byte (a XOR b) (map2 (XOR) ps qs) = foldl crc_byte a ps XOR foldl crc_byte b qs"
  by (induction ps qs arbitrary: a b rule: list_induct2) (simp_all add: crc_byte_xor)

subsection \<open>Windows of at most four bytes\<close>

text \<open>
  Up to four bytes act on the register as one word: the bytes packed little-endian.
\<close>

fun crc_window :: "u8 list \<Rightarrow> u32" where
  "crc_window [] = 0"
| "crc_window (b # bs) = ucast b XOR push_bit 8 (crc_window bs)"

lemma crc_bit_even: "\<not> bit a 0 \<Longrightarrow> crc_bit a = drop_bit 1 a"
  by (simp add: crc_bit_def and_one_iff)

lemma crc_bits_drop: "(\<And>i. i < n \<Longrightarrow> \<not> bit a i) \<Longrightarrow> (crc_bit ^^ n) a = drop_bit n a"
proof (induction n)
  case (Suc n)
  then have "(crc_bit ^^ n) a = drop_bit n a" by simp
  moreover have "\<not> bit (drop_bit n a) 0" using Suc.prems [of n] by (simp add: bit_drop_bit_eq)
  ultimately show ?case by (simp add: crc_bit_even drop_bit_drop_bit add.commute)
qed simp

lemma crc_window_bits: "length bs \<le> 3 \<Longrightarrow> 8 * length bs \<le> i \<Longrightarrow> \<not> bit (crc_window bs) i"
proof (induction bs arbitrary: i)
  case (Cons b bs)
  then have "\<not> bit (crc_window bs) (i - 8)" by auto
  with Cons.prems show ?case
    by (auto simp: bit_xor_iff bit_push_bit_iff bit_unsigned_iff dest: bit_imp_le_length)
qed simp

lemma crc_bits_push8:
  assumes "length bs \<le> 3"
  shows "(crc_bit ^^ 8) (push_bit 8 (crc_window bs)) = crc_window bs"
proof -
  have "(crc_bit ^^ 8) (push_bit 8 (crc_window bs)) = drop_bit 8 (push_bit 8 (crc_window bs))"
    by (rule crc_bits_drop) (simp add: bit_push_bit_iff)
  also have "\<dots> = crc_window bs"
  proof (rule bit_eqI)
    fix n
    show "bit (drop_bit 8 (push_bit 8 (crc_window bs))) n = bit (crc_window bs) n"
      using crc_window_bits [OF assms, of n] assms
      by (cases "n < 24") (auto simp: bit_drop_bit_eq bit_push_bit_iff)
  qed
  finally show ?thesis .
qed

lemma crc_fold_window:
  "length bs \<le> 4 \<Longrightarrow> foldl crc_byte a bs = (crc_bit ^^ (8 * length bs)) (a XOR crc_window bs)"
proof (induction bs arbitrary: a)
  case (Cons b bs)
  then have l: "length bs \<le> 3" by simp
  have step: "crc_byte a b XOR crc_window bs = (crc_bit ^^ 8) (a XOR crc_window (b # bs))"
    unfolding crc_byte_def crc_window.simps crc_bits_xor crc_bits_push8 [OF l] xor.assoc ..
  have "foldl crc_byte a (b # bs) = (crc_bit ^^ (8 * length bs)) (crc_byte a b XOR crc_window bs)"
    using Cons by simp
  also have "\<dots> = (crc_bit ^^ (8 * length bs + 8)) (a XOR crc_window (b # bs))"
    by (simp only: step funpow_add o_apply)
  finally show ?case by (simp only: list.size add.commute add_0_right Suc_eq_plus1 distrib_left mult_1_right)
qed simp

lemma crc_window_inj:
  "length bs = length cs \<Longrightarrow> length bs \<le> 4 \<Longrightarrow> crc_window bs = crc_window cs \<Longrightarrow> bs = cs"
proof (induction bs cs rule: list_induct2)
  case (Cons b bs c cs)
  have bits: "bit (crc_window (b # bs)) n = bit (crc_window (c # cs)) n" for n
    using Cons.prems by simp
  have "b = c"
  proof (rule bit_eqI)
    fix n
    assume "possible_bit TYPE(8 word) n"
    then show "bit b n = bit c n"
      using bits [of n] by (simp add: bit_xor_iff bit_push_bit_iff bit_unsigned_iff)
  qed
  moreover have "crc_window bs = crc_window cs"
  proof (rule bit_eqI)
    fix n
    have "length bs \<le> 3" "length cs \<le> 3" using Cons by simp_all
    then show "bit (crc_window bs) n = bit (crc_window cs) n"
      using bits [of "n + 8"] crc_window_bits [of bs n] crc_window_bits [of cs n] Cons.hyps
      by (cases "n < 24")
        (auto simp: bit_xor_iff bit_push_bit_iff bit_unsigned_iff dest: bit_imp_le_length)
  qed
  ultimately show ?case using Cons by simp
qed simp

lemma crc_fold_window_inj:
  assumes "length bs = length cs" "length bs \<le> 4" "foldl crc_byte a bs = foldl crc_byte a cs"
  shows "bs = cs"
proof -
  have "a XOR crc_window bs = a XOR crc_window cs"
    using assms by (simp add: crc_fold_window crc_bits_inj)
  then have "crc_window bs = crc_window cs" by (simp only: xor_left_cancel)
  with assms show ?thesis by (simp add: crc_window_inj)
qed

subsection \<open>Properties\<close>

text \<open>C29: \<open>compute_crc32\<close> detects every corruption confined to four consecutive bytes (in
  particular every burst of at most 25 bits and every single wrong byte): two buffers of the
  same size that differ only inside such a window have different checksums.\<close>

theorem compute_crc32_detects_burst:
  assumes "length w = length w'" and "length w \<le> 4" and "w \<noteq> w'"
  shows "compute_crc32 (pre @ w @ post) (length (pre @ w @ post))
       \<noteq> compute_crc32 (pre @ w' @ post) (length (pre @ w' @ post))"
proof
  assume "compute_crc32 (pre @ w @ post) (length (pre @ w @ post))
        = compute_crc32 (pre @ w' @ post) (length (pre @ w' @ post))"
  then have "foldl crc_byte 0 (pre @ w @ post) XOR NOT 0 = foldl crc_byte 0 (pre @ w' @ post) XOR NOT 0"
    by (simp add: compute_crc32_fold)
  then have "foldl crc_byte 0 (pre @ w @ post) = foldl crc_byte 0 (pre @ w' @ post)"
    by (simp only: xor_right_cancel)
  then have "foldl crc_byte (foldl crc_byte 0 pre) w = foldl crc_byte (foldl crc_byte 0 pre) w'"
    by (simp add: crc_fold_inj)
  with assms show False using crc_fold_window_inj by blast
qed

theorem compute_crc32_detects_burst_witness:
  "compute_crc32 ([1] @ [2, 3] @ [4]) (length ([1] @ [2, 3] @ [4 :: u8]))
     \<noteq> compute_crc32 ([1] @ [9, 3] @ [4]) (length ([1] @ [9, 3] @ [4 :: u8]))"
  by (rule compute_crc32_detects_burst) simp_all

text \<open>Leading zero bytes never change the checksum: the
  register starts at \<open>0\<close> where the standard CRC-32 starts at \<open>0xFFFFFFFF\<close>.\<close>

theorem compute_crc32_leading_zeros:
  "compute_crc32 (replicate k 0 @ buf) (k + length buf) = compute_crc32 buf (length buf)"
proof -
  have "foldl crc_byte 0 (replicate k 0) = 0"
    by (induction k) (simp_all add: crc_byte_def)
  then show ?thesis by (simp add: compute_crc32_fold)
qed

lemma getMaxValue_loop_Max:
  "n \<le> length table \<Longrightarrow> getMaxValue_loop table n mx = Some (Max (set (mx # take n table)))"
proof (induction table n mx rule: getMaxValue_loop.induct)
  case (3 t table n mx)
  then show ?case by (cases "take n table = []") (auto simp: max_def Max_insert ac_simps)
qed simp_all

text \<open>\<open>getMaxValue\<close> returns the greatest of the first \<open>size\<close> entries, and \<open>0\<close> for
  an empty table.\<close>

theorem getMaxValue_is_Max:
  assumes "n \<le> length table"
  shows "getMaxValue table n = Some (if n = 0 then 0 else Max (set (take n table)))"
proof (cases "n = 0")
  case False
  with assms have "take n table \<noteq> []" by auto
  then have "Max (insert 0 (set (take n table))) = Max (set (take n table))"
    by (simp add: Max_insert max_def)
  with assms False show ?thesis by (simp add: getMaxValue_def getMaxValue_loop_Max)
qed (simp add: getMaxValue_def)

theorem getMaxValue_is_Max_witness:
  "getMaxValue [3, 9, 7] 2 = Some (if (2 :: nat) = 0 then 0 else Max (set (take 2 [3, 9, 7])))"
  by (rule getMaxValue_is_Max) simp

end
