(* ===== verification/CJson_Data.thy ===== *)
theory CJson_Data
  imports Prelude "HOL-Library.Log_Nat"
begin

text \<open>
  The data of \<open>seance6/project/cJSON.c\<close> and \<open>cJSON.h\<close>: C doubles, the allocator behind
  \<open>internal_hooks\<close> and its selection, the \<open>cJSON\<close> structure with its type flags, the allocation of an
  item and the deletion of a tree.
\<close>

subsection \<open>C doubles\<close>

text \<open>
  IEEE binary64 as the code can observe it: a NaN, two infinities (\<open>True\<close> is the negative
  one) and the finite values as exact rationals; the sign of zero is not observable in this
  program (it is only compared and printed through \<open>%d\<close>). Arithmetic rounds to nearest,
  ties to even, as the default rounding mode does.
\<close>

datatype double = DNaN | DInf bool | DNum rat

definition round_even :: "rat \<Rightarrow> int" where
  "round_even x =
     (let f = \<lfloor>x\<rfloor>; d = x - of_int f
      in if d < 1 / 2 then f else if 1 / 2 < d then f + 1 else if even f then f else f + 1)"

text \<open>\<open>ilog2 a\<close> is the exponent \<open>e\<close> with \<open>2 ^ e \<le> a < 2 ^ (e + 1)\<close>, for \<open>a > 0\<close>.\<close>

definition ilog2 :: "rat \<Rightarrow> int" where
  "ilog2 a =
     (let (p, q) = quotient_of a; e = int (floorlog 2 (nat p)) - int (floorlog 2 (nat q))
      in if 2 powi e \<le> a then e else e - 1)"

definition round_double :: "rat \<Rightarrow> double" where
  "round_double x =
     (if x = 0 then DNum 0
      else let a = \<bar>x\<bar>; s = max (ilog2 a - 52) (- 1074);
               r = of_int (round_even (a / 2 powi s)) * 2 powi s
           in if 2 ^ 1024 \<le> r then DInf (x < 0) else DNum (if x < 0 then - r else r))"

definition dbl_of_int :: "int \<Rightarrow> double" where
  "dbl_of_int i = round_double (of_int i)"

fun dle :: "double \<Rightarrow> double \<Rightarrow> bool" where
  "dle DNaN _ = False"
| "dle _ DNaN = False"
| "dle (DInf True) _ = True"
| "dle _ (DInf False) = True"
| "dle (DInf False) _ = False"
| "dle _ (DInf True) = False"
| "dle (DNum a) (DNum b) = (a \<le> b)"

definition deq :: "double \<Rightarrow> double \<Rightarrow> bool" where
  "deq a b \<longleftrightarrow> a \<noteq> DNaN \<and> a = b"

fun dsub :: "double \<Rightarrow> double \<Rightarrow> double" where
  "dsub (DNum a) (DNum b) = round_double (a - b)"
| "dsub DNaN _ = DNaN"
| "dsub _ DNaN = DNaN"
| "dsub (DInf s) (DInf t) = (if s = t then DNaN else DInf s)"
| "dsub (DInf s) (DNum _) = DInf s"
| "dsub (DNum _) (DInf s) = DInf (\<not> s)"

fun fabs :: "double \<Rightarrow> double" where
  "fabs DNaN = DNaN"
| "fabs (DInf _) = DInf False"
| "fabs (DNum a) = DNum \<bar>a\<bar>"

text \<open>\<open>x * DBL_EPSILON\<close>, with \<open>DBL_EPSILON = 2 ^ - 52\<close>.\<close>

fun dscale_eps :: "double \<Rightarrow> double" where
  "dscale_eps (DNum a) = round_double (a / 2 ^ 52)"
| "dscale_eps d = d"

definition compare_double :: "double \<Rightarrow> double \<Rightarrow> bool" where
  "compare_double a b =
     (let maxVal = (if \<not> dle (fabs a) (fabs b) \<and> a \<noteq> DNaN \<and> b \<noteq> DNaN then fabs a else fabs b)
      in dle (fabs (dsub a b)) (dscale_eps maxVal))"

text \<open>
  The saturating conversion that \<open>parse_number\<close>, \<open>cJSON_SetNumberHelper\<close> and
  \<open>cJSON_CreateNumber\<close> share; a NaN reaches the cast \<open>(int)number\<close>, which C leaves
  undefined and x86-64 answers with \<open>INT_MIN\<close>.
\<close>

definition trunc_rat :: "rat \<Rightarrow> int" where
  "trunc_rat x = (if x < 0 then - \<lfloor>- x\<rfloor> else \<lfloor>x\<rfloor>)"

definition double_to_valueint :: "double \<Rightarrow> int" where
  "double_to_valueint number =
     (if dle (dbl_of_int INT_MAX) number then INT_MAX
      else if dle number (dbl_of_int INT_MIN) then INT_MIN
      else (case number of DNum x \<Rightarrow> trunc_rat x | _ \<Rightarrow> INT_MIN))"

text \<open>Integers below \<open>2 ^ 53\<close> are exact, and the conversion back is the identity on them.\<close>

lemma ilog2_int:
  assumes "0 < i" "i < 2 ^ 53"
  shows "ilog2 (of_int i) \<le> 52"
proof -
  have "nat i < 2 ^ 53" using assms by simp
  then have "floorlog 2 (nat i) \<le> 53" by (simp add: floorlog_le_iff)
  moreover have "floorlog 2 1 = 1" by (simp add: floorlog_def)
  ultimately show ?thesis by (simp add: ilog2_def Let_def quotient_of_int)
qed

lemma round_even_int [simp]: "round_even (of_int n) = n"
  by (simp add: round_even_def)

lemma round_double_int:
  assumes "\<bar>i\<bar> < 2 ^ 53"
  shows "round_double (of_int i) = DNum (of_int i)"
proof (cases "i = 0")
  case False
  define a where "a = \<bar>i\<bar>"
  have a: "0 < a" "a < 2 ^ 53" using False assms by (simp_all add: a_def)
  define s where "s = max (ilog2 (of_int a) - 52) (- 1074)"
  have s: "s \<le> 0" using ilog2_int [OF a] by (simp add: s_def)
  have k: "(2 :: rat) powi s = 1 / 2 ^ nat (- s)"
    using power_int_minus [of "2 :: rat" "- s"] power_int_of_nat [of "2 :: rat" "nat (- s)"] s
    by (simp add: divide_inverse)
  then have "(of_int a :: rat) / 2 powi s = of_int (a * 2 ^ nat (- s))" by simp
  then have "round_even (of_int a / 2 powi s) = a * 2 ^ nat (- s)" by (simp only: round_even_int)
  then have r: "of_int (round_even (of_int a / 2 powi s)) * 2 powi s = (of_int a :: rat)"
    using k by simp
  have "(of_int a :: rat) < of_int (2 ^ 53)" using a(2) by (simp only: of_int_less_iff)
  also have "\<dots> \<le> (2 ^ 1024 :: rat)" by (simp add: power_increasing)
  finally have lim: "\<not> (2 ^ 1024 :: rat) \<le> of_int a" by (simp only: not_le)
  have ab: "\<bar>of_int i\<bar> = (of_int a :: rat)" by (simp add: a_def)
  have "round_double (of_int i) = DNum (if (of_int i :: rat) < 0 then - of_int a else of_int a)"
    unfolding round_double_def ab Let_def s_def [symmetric] r using False lim by (simp del: power_numeral)
  then show ?thesis by (simp add: a_def)
qed (simp add: round_double_def)

lemma dbl_of_int_limits: "dbl_of_int INT_MAX = DNum 2147483647" "dbl_of_int INT_MIN = DNum (- 2147483648)"
  using round_double_int [of INT_MAX] round_double_int [of INT_MIN]
  by (simp_all add: dbl_of_int_def INT_MAX_def INT_MIN_def)

lemma double_to_valueint_DNum:
  "double_to_valueint (DNum x) =
     (if 2147483647 \<le> x then INT_MAX else if x \<le> - 2147483648 then INT_MIN else trunc_rat x)"
  by (simp add: double_to_valueint_def dbl_of_int_limits)

lemma double_to_valueint_range: "INT_MIN \<le> double_to_valueint d \<and> double_to_valueint d \<le> INT_MAX"
proof (cases d)
  case (DNum x)
  have "\<lfloor>x\<rfloor> \<le> 2147483647" if "x < 2147483647" using that by linarith
  moreover have "- 2147483648 \<le> - \<lfloor>- x\<rfloor>" if "- 2147483648 < x" using that by linarith
  moreover have "- \<lfloor>- x\<rfloor> \<le> 2147483647" if "x < 0" using that by linarith
  moreover have "0 \<le> \<lfloor>x\<rfloor>" if "\<not> x < 0" using that by linarith
  ultimately show ?thesis
    by (auto simp: DNum double_to_valueint_DNum trunc_rat_def INT_MAX_def INT_MIN_def)
qed (auto simp: double_to_valueint_def)

lemma double_to_valueint_int:
  assumes "INT_MIN \<le> i" "i \<le> INT_MAX"
  shows "double_to_valueint (DNum (of_int i)) = i"
proof -
  have "(rat_of_int i \<le> - 2147483648) = (i \<le> - 2147483648)" "(2147483647 \<le> rat_of_int i) = (2147483647 \<le> i)"
    by linarith+
  moreover have "\<lfloor>- rat_of_int i\<rfloor> = - i" by linarith
  ultimately show ?thesis
    using assms by (auto simp: double_to_valueint_DNum INT_MAX_def INT_MIN_def trunc_rat_def)
qed

subsection \<open>The allocator\<close>

text \<open>
  \<open>budget\<close> counts the allocations that still succeed (the next one after that returns
  NULL), \<open>live\<close> the blocks that are allocated and not freed.
\<close>

record mem =
  budget :: nat
  live :: int

definition allocate :: "mem \<Rightarrow> mem option" where
  "allocate m = (if budget m = 0 then None else Some (m\<lparr>budget := budget m - 1, live := live m + 1\<rparr>))"

definition deallocate :: "mem \<Rightarrow> mem" where
  "deallocate m = m\<lparr>live := live m - 1\<rparr>"

text \<open>
  The functions behind it: a client may replace \<open>malloc\<close> and \<open>free\<close>, and then there is no \<open>realloc\<close>
  (\<open>None\<close> for the NULL pointer). The functions are compared, never called here, so their types are
  parameters.
\<close>

record ('m, 'f, 'r) internal_hooks =
  allocate_fn :: 'm
  deallocate_fn :: 'f
  reallocate_fn :: "'r option"

definition cJSON_InitHooks :: "'m \<Rightarrow> 'f \<Rightarrow> 'r \<Rightarrow> ('m option \<times> 'f option) option \<Rightarrow> ('m, 'f, 'r) internal_hooks" where
  "cJSON_InitHooks malloc free realloc hooks =
     (case hooks of
        None \<Rightarrow> \<lparr>allocate_fn = malloc, deallocate_fn = free, reallocate_fn = Some realloc\<rparr>
      | Some (malloc_fn, free_fn) \<Rightarrow>
          let a = (case malloc_fn of None \<Rightarrow> malloc | Some f \<Rightarrow> f);
              d = (case free_fn of None \<Rightarrow> free | Some f \<Rightarrow> f)
          in \<lparr>allocate_fn = a, deallocate_fn = d, reallocate_fn = (if a = malloc \<and> d = free then Some realloc else None)\<rparr>)"

lemma reallocate_only_with_libc:
  "reallocate_fn (cJSON_InitHooks malloc free realloc hooks) =
     (if allocate_fn (cJSON_InitHooks malloc free realloc hooks) = malloc
         \<and> deallocate_fn (cJSON_InitHooks malloc free realloc hooks) = free then Some realloc else None)"
  by (auto simp: cJSON_InitHooks_def Let_def split: option.split)

subsection \<open>The cJSON structure\<close>

text \<open>
  \<open>next\<close>/\<open>prev\<close> chains are the order of the \<open>child\<close> list (the pointer level is the
  theory \<open>CJson_List\<close>); \<open>valuestring\<close> and \<open>string\<close> are \<open>None\<close> for NULL.
\<close>

datatype cJSON = CJSON
  (itype: int) (valuestring: "string option") (valueint: int) (valuedouble: double)
  (istring: "string option") (child: "cJSON list")

definition cJSON_Invalid :: int where "cJSON_Invalid = 0"
definition cJSON_False :: int where "cJSON_False = 1"
definition cJSON_True :: int where "cJSON_True = 2"
definition cJSON_NULL :: int where "cJSON_NULL = 4"
definition cJSON_Number :: int where "cJSON_Number = 8"
definition cJSON_String :: int where "cJSON_String = 16"
definition cJSON_Array :: int where "cJSON_Array = 32"
definition cJSON_Object :: int where "cJSON_Object = 64"
definition cJSON_Raw :: int where "cJSON_Raw = 128"
definition cJSON_IsReference :: int where "cJSON_IsReference = 256"
definition cJSON_StringIsConst :: int where "cJSON_StringIsConst = 512"

lemmas type_defs = cJSON_Invalid_def cJSON_False_def cJSON_True_def cJSON_NULL_def
  cJSON_Number_def cJSON_String_def cJSON_Array_def cJSON_Object_def cJSON_Raw_def
  cJSON_IsReference_def cJSON_StringIsConst_def

text \<open>The version text fits the 15 bytes of \<open>cJSON_Version\<close>.\<close>

definition cJSON_Version :: string where
  "cJSON_Version = dec_int 1 @ ''.'' @ dec_int 7 @ ''.'' @ dec_int 19"

lemma cJSON_Version: "cJSON_Version = ''1.7.19''"
  by code_simp

definition CJSON_NESTING_LIMIT :: nat where "CJSON_NESTING_LIMIT = 1000"
definition CJSON_CIRCULAR_LIMIT :: nat where "CJSON_CIRCULAR_LIMIT = 10000"

fun set_type :: "int \<Rightarrow> cJSON \<Rightarrow> cJSON" where
  "set_type t (CJSON _ vs vi vd k ch) = CJSON t vs vi vd k ch"
fun set_valuestring :: "string option \<Rightarrow> cJSON \<Rightarrow> cJSON" where
  "set_valuestring vs (CJSON t _ vi vd k ch) = CJSON t vs vi vd k ch"
fun set_valueint :: "int \<Rightarrow> cJSON \<Rightarrow> cJSON" where
  "set_valueint vi (CJSON t vs _ vd k ch) = CJSON t vs vi vd k ch"
fun set_valuedouble :: "double \<Rightarrow> cJSON \<Rightarrow> cJSON" where
  "set_valuedouble vd (CJSON t vs vi _ k ch) = CJSON t vs vi vd k ch"
fun set_string :: "string option \<Rightarrow> cJSON \<Rightarrow> cJSON" where
  "set_string k (CJSON t vs vi vd _ ch) = CJSON t vs vi vd k ch"
fun set_child :: "cJSON list \<Rightarrow> cJSON \<Rightarrow> cJSON" where
  "set_child ch (CJSON t vs vi vd k _) = CJSON t vs vi vd k ch"

text \<open>\<open>memset(node, 0, sizeof(cJSON))\<close>.\<close>

definition zero_item :: cJSON where
  "zero_item = CJSON 0 None 0 (DNum 0) None []"

definition cJSON_New_Item :: "mem \<Rightarrow> (cJSON \<times> mem) option" where
  "cJSON_New_Item m = (case allocate m of None \<Rightarrow> None | Some m' \<Rightarrow> Some (zero_item, m'))"

definition cJSON_strdup :: "string option \<Rightarrow> mem \<Rightarrow> (string \<times> mem) option" where
  "cJSON_strdup s m =
     (case s of None \<Rightarrow> None
      | Some str \<Rightarrow> (case allocate m of None \<Rightarrow> None | Some m' \<Rightarrow> Some (str, m')))"

text \<open>\<open>cJSON_Delete\<close> on a chain of siblings, block by block.\<close>

function cJSON_Delete :: "cJSON list \<Rightarrow> mem \<Rightarrow> mem" where
  "cJSON_Delete [] m = m"
| "cJSON_Delete (CJSON ty vs vi vd k ch # next) m =
     (let m = (if ty AND cJSON_IsReference = 0 \<and> ch \<noteq> [] then cJSON_Delete ch m else m);
          m = (if ty AND cJSON_IsReference = 0 \<and> vs \<noteq> None then deallocate m else m);
          m = (if ty AND cJSON_StringIsConst = 0 \<and> k \<noteq> None then deallocate m else m)
      in cJSON_Delete next (deallocate m))"
  by pat_completeness auto
termination by (relation "measure (size_list size \<circ> fst)") auto

text \<open>The blocks a chain of items owns.\<close>

function owned :: "cJSON list \<Rightarrow> int" where
  "owned [] = 0"
| "owned (CJSON ty vs vi vd k ch # next) =
     1 + (if ty AND cJSON_IsReference = 0 then owned ch else 0)
       + (if ty AND cJSON_IsReference = 0 \<and> vs \<noteq> None then 1 else 0)
       + (if ty AND cJSON_StringIsConst = 0 \<and> k \<noteq> None then 1 else 0) + owned next"
  by pat_completeness auto
termination by (relation "measure (size_list size)") auto

lemma budget_deallocate [simp]: "budget (deallocate m) = budget m"
  and live_deallocate [simp]: "live (deallocate m) = live m - 1"
  by (simp_all add: deallocate_def)

lemma allocate_Some: "allocate m = Some m' \<Longrightarrow> live m' = live m + 1 \<and> budget m = Suc (budget m')"
  by (auto simp: allocate_def split: if_splits)

lemma live_Delete [simp]: "live (cJSON_Delete xs m) = live m - owned xs"
  by (induction xs m rule: cJSON_Delete.induct) (auto simp: Let_def)

lemma budget_Delete [simp]: "budget (cJSON_Delete xs m) = budget m"
  by (induction xs m rule: cJSON_Delete.induct) (auto simp: Let_def)

lemma owned_append [simp]: "owned (xs @ ys) = owned xs + owned ys"
  by (induction xs rule: owned.induct) auto

lemma owned_zero_item [simp]: "owned [zero_item] = 1"
  by (simp add: zero_item_def)

end
