(* ===== verification/CJson_Buffer.thy ===== *)
theory CJson_Buffer
  imports CJson_Data
begin

text \<open>
  The input side of the parser in \<open>cJSON.c\<close>: the \<open>parse_buffer\<close>, its access macros,
  \<open>buffer_skip_whitespace\<close> and \<open>skip_utf8_bom\<close>, and \<open>parse_number\<close> with the decimal
  part of \<open>strtod\<close> that its character filter lets through.
\<close>

subsection \<open>The parse buffer\<close>

text \<open>
  \<open>content\<close> is the caller's memory from the start of the text on, \<open>plength\<close> the length the
  caller states; the allocator hooks are the allocator state.
\<close>

record parse_buffer =
  content :: string
  plength :: nat
  offset :: nat
  depth :: nat
  hooks :: mem

text \<open>
  What a parse function does: return \<open>true\<close> with the filled item, return \<open>false\<close>, read
  outside the buffer, or (in the model only) run out of fuel.
\<close>

datatype pres = POk cJSON parse_buffer | PFail parse_buffer | PCrash | PFuel

definition can_read :: "parse_buffer \<Rightarrow> nat \<Rightarrow> bool" where
  "can_read b n \<longleftrightarrow> offset b + n \<le> plength b"

definition can_access_at_index :: "parse_buffer \<Rightarrow> nat \<Rightarrow> bool" where
  "can_access_at_index b i \<longleftrightarrow> offset b + i < plength b"

text \<open>
  \<open>rd b i\<close> reads the byte at \<open>content + i\<close>, \<open>None\<close> outside the stated length;
  \<open>peek b\<close> is the guarded read \<open>can_access_at_index(b, 0) \<and> buffer_at_offset(b)[0]\<close>.
\<close>

definition rd :: "parse_buffer \<Rightarrow> nat \<Rightarrow> char option" where
  "rd b i = (if i < plength b then Some (content b ! i) else None)"

definition peek :: "parse_buffer \<Rightarrow> char option" where
  "peek b = (if can_access_at_index b 0 then Some (content b ! offset b) else None)"

text \<open>\<open>can_read(b, strlen(s)) \<and> strncmp(buffer_at_offset(b), s, strlen(s)) = 0\<close>.\<close>

definition starts :: "parse_buffer \<Rightarrow> string \<Rightarrow> bool" where
  "starts b s \<longleftrightarrow> can_read b (length s) \<and> take (length s) (drop (offset b) (content b)) = s"

function skip_loop :: "string \<Rightarrow> nat \<Rightarrow> nat \<Rightarrow> nat" where
  "skip_loop str len i = (if i < len \<and> ord (str ! i) \<le> 32 then skip_loop str len (Suc i) else i)"
  by pat_completeness auto
termination by (relation "measure (\<lambda>(str, len, i). len - i)") auto

declare skip_loop.simps [simp del]

definition buffer_skip_whitespace :: "parse_buffer \<Rightarrow> parse_buffer" where
  "buffer_skip_whitespace b =
     (if \<not> can_access_at_index b 0 then b
      else let i = skip_loop (content b) (plength b) (offset b)
           in b\<lparr>offset := (if i = plength b then i - 1 else i)\<rparr>)"

definition utf8_bom :: string where
  "utf8_bom = [CHR 0xEF, CHR 0xBB, CHR 0xBF]"

definition skip_utf8_bom :: "parse_buffer \<Rightarrow> parse_buffer option" where
  "skip_utf8_bom b =
     (if offset b \<noteq> 0 then None
      else if can_access_at_index b 4 \<and> take 3 (drop (offset b) (content b)) = utf8_bom
      then Some (b\<lparr>offset := offset b + 3\<rparr>) else Some b)"

subsection \<open>strtod on decimal text\<close>

text \<open>
  \<open>strtod s\<close> is the value and the number of bytes consumed, \<open>0\<close> when nothing converts.
  \<open>parse_number\<close> passes only digits, signs, points and \<open>e\<close>/\<open>E\<close>, so the hexadecimal,
  infinity and NaN forms and leading blanks do not occur.
\<close>

definition strtod_exponent :: "string \<Rightarrow> int \<times> string" where
  "strtod_exponent s =
     (case s of [] \<Rightarrow> (0, s)
      | c # r \<Rightarrow>
          if c = CHR ''e'' \<or> c = CHR ''E'' then
            (let (neg, r') = (case r of d # r' \<Rightarrow> if d = CHR ''-'' then (True, r')
                                else if d = CHR ''+'' then (False, r') else (False, r)
                              | [] \<Rightarrow> (False, r));
                 ds = takeWhile is_digit r'
             in if ds = [] then (0, s)
                else (if neg then - int (digits_val ds) else int (digits_val ds), dropWhile is_digit r'))
          else (0, s))"

definition strtod :: "string \<Rightarrow> double \<times> nat" where
  "strtod s =
     (let (neg, s1) = (case s of c # r \<Rightarrow> if c = CHR ''-'' then (True, r)
                         else if c = CHR ''+'' then (False, r) else (False, s)
                       | [] \<Rightarrow> (False, s));
          ip = takeWhile is_digit s1; s2 = dropWhile is_digit s1;
          (fp, s3) = (case s2 of c # r \<Rightarrow> if c = CHR ''.'' then (takeWhile is_digit r, dropWhile is_digit r)
                        else ([], s2)
                      | [] \<Rightarrow> ([], s2))
      in if ip = [] \<and> fp = [] then (DNum 0, 0)
         else let (ex, s4) = strtod_exponent s3;
                  v = of_nat (digits_val (ip @ fp)) * 10 powi (ex - int (length fp))
              in (round_double (if neg then - v else v), length s - length s4))"

subsection \<open>parse_number\<close>

definition number_char :: "char \<Rightarrow> bool" where
  "number_char c \<longleftrightarrow> is_digit c \<or> c = CHR ''+'' \<or> c = CHR ''-'' \<or> c = CHR ''e'' \<or> c = CHR ''E'' \<or> c = CHR ''.''"

definition get_decimal_point :: char where
  "get_decimal_point = CHR ''.''"

definition unread :: "parse_buffer \<Rightarrow> string" where
  "unread b = take (plength b - offset b) (drop (offset b) (content b))"

definition parse_number :: "cJSON \<Rightarrow> parse_buffer \<Rightarrow> pres" where
  "parse_number item b =
     (let number_string = takeWhile number_char (unread b)
      in case allocate (hooks b) of
           None \<Rightarrow> PFail b
         | Some m \<Rightarrow>
             let number_c_string = map (\<lambda>c. if c = CHR ''.'' then get_decimal_point else c) number_string;
                 (number, after_end) = strtod number_c_string
             in if after_end = 0 then PFail (b\<lparr>hooks := deallocate m\<rparr>)
                else POk (set_type cJSON_Number
                            (set_valueint (double_to_valueint number) (set_valuedouble number item)))
                       (b\<lparr>offset := offset b + after_end, hooks := deallocate m\<rparr>))"

subsection \<open>Well-formed buffers and progress\<close>

definition wfb :: "parse_buffer \<Rightarrow> bool" where
  "wfb b \<longleftrightarrow> plength b \<le> length (content b) \<and> offset b \<le> plength b"

definition same_text :: "parse_buffer \<Rightarrow> parse_buffer \<Rightarrow> bool" where
  "same_text b b' \<longleftrightarrow> content b' = content b \<and> plength b' = plength b"

declare wfb_def [inv_defs] same_text_def [inv_defs]

lemma skip_loop_bounds: "i \<le> len \<Longrightarrow> i \<le> skip_loop str len i \<and> skip_loop str len i \<le> len"
proof (induction str len i rule: skip_loop.induct)
  case (1 str len i)
  then show ?case by (subst (1 2) skip_loop.simps) auto
qed

lemma skip_fields [simp]:
  "content (buffer_skip_whitespace b) = content b"
  "plength (buffer_skip_whitespace b) = plength b"
  "depth (buffer_skip_whitespace b) = depth b"
  "hooks (buffer_skip_whitespace b) = hooks b"
  by (simp_all add: buffer_skip_whitespace_def Let_def)

lemma skip_offset_ge: "offset b \<le> offset (buffer_skip_whitespace b)"
  using skip_loop_bounds [of "offset b" "plength b" "content b"]
  by (auto simp: buffer_skip_whitespace_def can_access_at_index_def Let_def)

lemma skip_offset_lt: "offset b < plength b \<Longrightarrow> offset (buffer_skip_whitespace b) < plength b"
  using skip_loop_bounds [of "offset b" "plength b" "content b"]
  by (auto simp: buffer_skip_whitespace_def can_access_at_index_def Let_def)

lemma skip_offset_le: "offset b \<le> plength b \<Longrightarrow> offset (buffer_skip_whitespace b) \<le> plength b"
  using skip_offset_lt [of b] by (cases "offset b < plength b")
    (auto simp: buffer_skip_whitespace_def can_access_at_index_def)

lemma skip_wfb [simp]: "wfb b \<Longrightarrow> wfb (buffer_skip_whitespace b)"
  by (simp add: wfb_def skip_offset_le)

lemma peek_Some: "peek b = Some c \<longleftrightarrow> offset b < plength b \<and> content b ! offset b = c"
  by (auto simp: peek_def can_access_at_index_def)

lemma strtod_consumed: "snd (strtod s) \<le> length s"
  by (auto simp: strtod_def Let_def split: prod.splits)

lemma unread_length: "wfb b \<Longrightarrow> length (unread b) = plength b - offset b"
  by (auto simp: unread_def wfb_def)

lemma parse_number_progress:
  assumes "wfb b"
  shows "parse_number item b \<noteq> PCrash" "parse_number item b \<noteq> PFuel"
    "parse_number item b = POk v b' \<Longrightarrow>
       same_text b b' \<and> wfb b' \<and> offset b < offset b' \<and> depth b' = depth b
       \<and> live (hooks b') = live (hooks b)"
    "parse_number item b = PFail b' \<Longrightarrow> same_text b b' \<and> offset b' = offset b \<and> live (hooks b') = live (hooks b)"
proof -
  show "parse_number item b \<noteq> PCrash" "parse_number item b \<noteq> PFuel"
    by (auto simp: parse_number_def Let_def split: option.splits prod.splits)
  have len: "length (takeWhile number_char (unread b)) \<le> plength b - offset b"
    using unread_length [OF assms] length_takeWhile_le [of number_char "unread b"] by simp
  show "parse_number item b = POk v b' \<Longrightarrow>
       same_text b b' \<and> wfb b' \<and> offset b < offset b' \<and> depth b' = depth b
       \<and> live (hooks b') = live (hooks b)"
    using assms len strtod_consumed
      [of "map (\<lambda>c. if c = CHR ''.'' then get_decimal_point else c) (takeWhile number_char (unread b))"]
    by (auto simp: parse_number_def Let_def same_text_def wfb_def
        split: option.splits prod.splits if_splits dest!: allocate_Some)
  show "parse_number item b = PFail b' \<Longrightarrow> same_text b b' \<and> offset b' = offset b \<and> live (hooks b') = live (hooks b)"
    by (auto simp: parse_number_def Let_def same_text_def
        split: option.splits prod.splits if_splits dest!: allocate_Some)
qed

end
