(* ===== verification/CJson_String.thy ===== *)
theory CJson_String
  imports CJson_Buffer
begin

text \<open>
  String literals of \<open>cJSON.c\<close>: \<open>parse_hex4\<close>, \<open>utf16_literal_to_utf8\<close> and \<open>parse_string\<close>,
  the escaping that \<open>print_string_ptr\<close> performs, and the proofs that decoding stays inside the
  input and the allocated output and inverts escaping.
\<close>

subsection \<open>parse_hex4\<close>

definition hex_digit :: "char \<Rightarrow> 32 word option" where
  "hex_digit c =
     (if CHR ''0'' \<le> c \<and> c \<le> CHR ''9'' then Some (of_nat (ord c) - of_nat (ord CHR ''0''))
      else if CHR ''A'' \<le> c \<and> c \<le> CHR ''F'' then Some (10 + of_nat (ord c) - of_nat (ord CHR ''A''))
      else if CHR ''a'' \<le> c \<and> c \<le> CHR ''f'' then Some (10 + of_nat (ord c) - of_nat (ord CHR ''a''))
      else None)"

fun parse_hex4_loop :: "string \<Rightarrow> 32 word \<Rightarrow> 32 word" where
  "parse_hex4_loop [] h = h"
| "parse_hex4_loop (c # cs) h =
     (case hex_digit c of None \<Rightarrow> 0
      | Some d \<Rightarrow> parse_hex4_loop cs (if cs \<noteq> [] then push_bit 4 (h + d) else h + d))"

definition parse_hex4 :: "string \<Rightarrow> 32 word" where
  "parse_hex4 input = parse_hex4_loop (take 4 input) 0"

subsection \<open>utf16_literal_to_utf8\<close>

definition byte :: "64 word \<Rightarrow> char" where
  "byte w = char_of (unat w)"

text \<open>The loop that stores the continuation bytes, last one first.\<close>

fun utf8_tail :: "nat \<Rightarrow> 64 word \<Rightarrow> string \<Rightarrow> 64 word \<times> string" where
  "utf8_tail 0 codepoint out = (codepoint, out)"
| "utf8_tail (Suc n) codepoint out =
     utf8_tail n (drop_bit 6 codepoint) (byte ((codepoint OR 0x80) AND 0xBF) # out)"

definition utf8_encode :: "64 word \<Rightarrow> string option" where
  "utf8_encode codepoint =
     (let shape = (if codepoint < 0x80 then Some (1, 0)
                   else if codepoint < 0x800 then Some (2, 0xC0)
                   else if codepoint < 0x10000 then Some (3, 0xE0)
                   else if codepoint \<le> 0x10FFFF then Some (4, 0xF0)
                   else None)
      in case shape of None \<Rightarrow> None
         | Some (utf8_length, first_byte_mark) \<Rightarrow>
             let (cp, tail) = utf8_tail (utf8_length - 1) codepoint []
             in Some ((if utf8_length > 1 then byte ((cp OR first_byte_mark) AND 0xFF)
                       else byte (cp AND 0x7F)) # tail))"

text \<open>
  The argument is the memory from \<open>input_pointer\<close> to \<open>input_end\<close>; the result is the
  sequence length (0 on failure) and the bytes stored.
\<close>

definition utf16_literal_to_utf8 :: "string \<Rightarrow> nat \<times> string" where
  "utf16_literal_to_utf8 input =
     (if length input < 6 then (0, [])
      else let first_code = parse_hex4 (drop 2 input)
      in if 0xDC00 \<le> first_code \<and> first_code \<le> 0xDFFF then (0, [])
      else let seq =
        (if 0xD800 \<le> first_code \<and> first_code \<le> 0xDBFF then
           (let second_sequence = drop 6 input
            in if length second_sequence < 6 then (0, 0)
            else if second_sequence ! 0 \<noteq> CHR 0x5C \<or> second_sequence ! 1 \<noteq> CHR ''u'' then (0, 0)
            else let second_code = parse_hex4 (drop 2 second_sequence)
            in if second_code < 0xDC00 \<or> 0xDFFF < second_code then (0, 0)
            else (12, ucast (0x10000 + (push_bit 10 (first_code AND 0x3FF) OR (second_code AND 0x3FF)))))
         else (6, ucast first_code))
      in case seq of (sequence_length, codepoint) \<Rightarrow>
           if sequence_length = 0 then (0, [])
           else (case utf8_encode codepoint of None \<Rightarrow> (0, []) | Some bs \<Rightarrow> (sequence_length, bs)))"

subsection \<open>parse_string\<close>

text \<open>
  The first loop looks for the closing quote from \<open>input_end\<close> and counts the escape
  characters: \<open>None\<close> is the jump to \<open>fail\<close>.
\<close>

function scan_string :: "string \<Rightarrow> nat \<Rightarrow> nat \<Rightarrow> nat \<Rightarrow> (nat \<times> nat) option" where
  "scan_string str len input_end skipped_bytes =
     (if input_end < len \<and> str ! input_end \<noteq> CHR 0x22 then
        if str ! input_end = CHR 0x5C then
          if len \<le> input_end + 1 then None
          else scan_string str len (input_end + 2) (skipped_bytes + 1)
        else scan_string str len (input_end + 1) skipped_bytes
      else if len \<le> input_end then None else Some (input_end, skipped_bytes))"
  by pat_completeness auto
termination by (relation "measure (\<lambda>(str, len, e, sk). len - e)") auto

definition unescape1 :: "char \<Rightarrow> char option" where
  "unescape1 c =
     (if c = CHR ''b'' then Some (CHR 0x08)
      else if c = CHR ''f'' then Some (CHR 0x0C)
      else if c = CHR ''n'' then Some (CHR 0x0A)
      else if c = CHR ''r'' then Some (CHR 0x0D)
      else if c = CHR ''t'' then Some (CHR 0x09)
      else if c = CHR 0x22 \<or> c = CHR 0x5C \<or> c = CHR ''/'' then Some c
      else None)"

text \<open>One escape sequence at \<open>input_pointer\<close>: its length (0 is \<open>goto fail\<close>) and its bytes.\<close>

definition decode_escape :: "string \<Rightarrow> nat \<Rightarrow> nat \<Rightarrow> nat \<times> string" where
  "decode_escape str input_pointer input_end =
     (let c = str ! (input_pointer + 1)
      in if c = CHR ''u''
         then utf16_literal_to_utf8 (take (input_end - input_pointer) (drop input_pointer str))
         else (case unescape1 c of None \<Rightarrow> (0, []) | Some x \<Rightarrow> (2, [x])))"

text \<open>The second loop: \<open>Inl\<close> is the failing \<open>input_pointer\<close>, \<open>Inr\<close> the output.\<close>

function decode_string :: "string \<Rightarrow> nat \<Rightarrow> nat \<Rightarrow> string \<Rightarrow> nat + string" where
  "decode_string str input_pointer input_end out =
     (if input_pointer < input_end then
        if str ! input_pointer \<noteq> CHR 0x5C
        then decode_string str (input_pointer + 1) input_end (out @ [str ! input_pointer])
        else (let (n, bs) = decode_escape str input_pointer input_end
              in if n = 0 then Inl input_pointer
                 else decode_string str (input_pointer + n) input_end (out @ bs))
      else Inr out)"
  by pat_completeness auto
termination by (relation "measure (\<lambda>(str, p, e, out). e - p)") auto

declare scan_string.simps [simp del] decode_string.simps [simp del]

text \<open>
  Writing more than the allocated \<open>allocation_length + 1\<close> bytes (the output and its NUL) is
  the crash result.
\<close>

definition parse_string :: "cJSON \<Rightarrow> parse_buffer \<Rightarrow> pres" where
  "parse_string item b =
     (let start = offset b + 1
      in case rd b (offset b) of
           None \<Rightarrow> PCrash
         | Some c \<Rightarrow>
             if c \<noteq> CHR 0x22 then PFail (b\<lparr>offset := start\<rparr>)
             else (case scan_string (content b) (plength b) start 0 of
                     None \<Rightarrow> PFail (b\<lparr>offset := start\<rparr>)
                   | Some (input_end, skipped_bytes) \<Rightarrow>
                       let allocation_length = (input_end - offset b) - skipped_bytes
                       in case allocate (hooks b) of
                            None \<Rightarrow> PFail (b\<lparr>offset := start\<rparr>)
                          | Some m \<Rightarrow>
                              (case decode_string (content b) start input_end [] of
                                 Inl p \<Rightarrow> PFail (b\<lparr>offset := p, hooks := deallocate m\<rparr>)
                               | Inr out \<Rightarrow>
                                   if allocation_length + 1 < length out + 1 then PCrash
                                   else POk (set_valuestring (Some (cstr out)) (set_type cJSON_String item))
                                          (b\<lparr>offset := input_end + 1, hooks := m\<rparr>))))"

subsection \<open>print_string_ptr: what is escaped, and how\<close>

definition escape_length :: "char \<Rightarrow> nat" where
  "escape_length c =
     (if c \<in> {CHR 0x22, CHR 0x5C, CHR 0x08, CHR 0x0C, CHR 0x0A, CHR 0x0D, CHR 0x09} then 1
      else if ord c < 32 then 5 else 0)"

definition escape_characters :: "string \<Rightarrow> nat" where
  "escape_characters input = sum_list (map escape_length input)"

text \<open>\<open>sprintf(out, "u%04x", c)\<close> for a byte.\<close>

definition hex_char :: "nat \<Rightarrow> char" where
  "hex_char n = (if n < 10 then char_of (48 + n) else char_of (87 + n))"

definition u04x :: "char \<Rightarrow> string" where
  "u04x c = [CHR ''u'', CHR ''0'', CHR ''0'', hex_char (ord c div 16), hex_char (ord c mod 16)]"

definition escape_char :: "char \<Rightarrow> string" where
  "escape_char c =
     (if 31 < ord c \<and> c \<noteq> CHR 0x22 \<and> c \<noteq> CHR 0x5C then [c]
      else CHR 0x5C #
        (if c = CHR 0x5C then [CHR 0x5C]
         else if c = CHR 0x22 then [CHR 0x22]
         else if c = CHR 0x08 then ''b''
         else if c = CHR 0x0C then ''f''
         else if c = CHR 0x0A then ''n''
         else if c = CHR 0x0D then ''r''
         else if c = CHR 0x09 then ''t''
         else u04x c))"

definition escape_string :: "string \<Rightarrow> string" where
  "escape_string input = concat (map escape_char input)"

lemma length_escape_char: "length (escape_char c) = 1 + escape_length c"
  by (auto simp: escape_char_def escape_length_def u04x_def)

lemma length_escape_string: "length (escape_string s) = length s + escape_characters s"
  by (induction s) (auto simp: escape_string_def escape_characters_def length_escape_char)

lemma escape_char_id: "escape_length c = 0 \<Longrightarrow> escape_char c = [c]"
  by (auto simp: escape_length_def escape_char_def split: if_splits)

lemma escape_string_id: "escape_characters s = 0 \<Longrightarrow> escape_string s = s"
  by (induction s) (auto simp: escape_string_def escape_characters_def escape_char_id)

subsection \<open>Unicode: the stored bytes are the UTF-8 encoding\<close>

text \<open>UTF-8 by arithmetic (RFC 3629), the reference the bit operations implement.\<close>

definition utf8_spec :: "nat \<Rightarrow> nat list" where
  "utf8_spec n =
     (if n < 0x80 then [n]
      else if n < 0x800 then [0xC0 + n div 64, 0x80 + n mod 64]
      else if n < 0x10000 then [0xE0 + n div 4096, 0x80 + n div 64 mod 64, 0x80 + n mod 64]
      else [0xF0 + n div 262144, 0x80 + n div 4096 mod 64, 0x80 + n div 64 mod 64, 0x80 + n mod 64])"

lemma and_mask_mod: "k AND 255 = k mod 256" "k AND 127 = k mod 128" for k :: nat
  using take_bit_eq_mask [of 8 k] take_bit_eq_mask [of 7 k]
  by (simp_all add: mask_eq_exp_minus_1 take_bit_eq_mod)

lemma continuation_bits: "(m OR 128) AND 191 = 128 + m mod 64" for m :: nat
proof -
  have n: "(128 :: nat) = 2 ^ 7" "(191 :: nat) = 2 ^ 7 OR mask 6" "m mod 64 = take_bit 6 m"
    by (simp_all add: mask_eq_exp_minus_1 take_bit_eq_mod)
  have "(m OR 2 ^ 7) AND (2 ^ 7 OR mask 6) = 2 ^ 7 OR take_bit 6 m"
    by (rule bit_eqI) (auto simp: bit_or_iff bit_and_iff bit_exp_iff bit_mask_iff bit_take_bit_iff
        simp del: power_numeral)
  also have "\<dots> = 2 ^ 7 + take_bit 6 m"
    by (rule disjunctive_add [symmetric]) (auto simp: bit_exp_iff bit_take_bit_iff simp del: power_numeral)
  finally show ?thesis by (simp only: n)
qed

lemma lead_bits:
  fixes c l :: nat
  assumes "c < 2 ^ j" and "push_bit j l + c < 256"
  shows "(c OR push_bit j l) AND 255 = push_bit j l + c"
proof -
  have c: "c = take_bit j c" using assms(1) by (simp add: take_bit_nat_eq_self)
  have "push_bit j l + take_bit j c = push_bit j l OR take_bit j c"
    by (rule disjunctive_add) (auto simp: bit_simps)
  then have "c OR push_bit j l = push_bit j l + c" using c by (simp add: or.commute)
  with assms(2) show ?thesis by (simp add: and_mask_mod)
qed

lemma byte_continuation: "byte ((cp OR 0x80) AND 0xBF) = char_of (128 + unat cp mod 64)"
  by (simp add: byte_def unsigned_and_eq unsigned_or_eq continuation_bits)

lemma byte_lead:
  assumes "unat cp < 2 ^ j" "push_bit j l + unat cp < 256" "unat mark = push_bit j l"
  shows "byte ((cp OR mark) AND 0xFF) = char_of (push_bit j l + unat cp)"
  using lead_bits [OF assms(1,2)] by (simp add: byte_def unsigned_and_eq unsigned_or_eq assms(3))

lemma byte_ascii: "unat cp < 128 \<Longrightarrow> byte (cp AND 0x7F) = char_of (unat cp)"
  by (simp add: byte_def unsigned_and_eq and_mask_mod)

lemma unat_drop6: "unat (drop_bit 6 cp) = unat cp div 64" for cp :: "64 word"
proof -
  have "unat (drop_bit 6 cp) = drop_bit 6 (unat cp)" by (rule unat_drop_bit_eq)
  also have "drop_bit 6 (unat cp) = unat cp div 2 ^ 6" by (rule drop_bit_eq_div)
  finally show ?thesis by simp
qed

lemma utf8_tail_unfold:
  "utf8_tail 1 cp out = (drop_bit 6 cp, char_of (128 + unat cp mod 64) # out)"
  "utf8_tail 2 cp out = (drop_bit 6 (drop_bit 6 cp),
     char_of (128 + unat cp div 64 mod 64) # char_of (128 + unat cp mod 64) # out)"
  "utf8_tail 3 cp out = (drop_bit 6 (drop_bit 6 (drop_bit 6 cp)),
     char_of (128 + unat cp div 4096 mod 64) # char_of (128 + unat cp div 64 mod 64)
       # char_of (128 + unat cp mod 64) # out)"
  by (simp_all only: utf8_tail.simps One_nat_def numeral_2_eq_2 numeral_3_eq_3 byte_continuation unat_drop6)
    (simp_all add: div_mult2_eq [symmetric])

lemma word_thresholds:
  "cp < 0x80 \<longleftrightarrow> unat cp < 0x80" "cp < 0x800 \<longleftrightarrow> unat cp < 0x800"
  "cp < 0x10000 \<longleftrightarrow> unat cp < 0x10000" "cp \<le> 0x10FFFF \<longleftrightarrow> unat cp \<le> 0x10FFFF" for cp :: "64 word"
  by (simp_all add: word_less_nat_alt word_le_nat_alt)

lemma utf8_encode_spec:
  assumes "unat cp \<le> 0x10FFFF"
  shows "utf8_encode cp = Some (map char_of (utf8_spec (unat cp)))"
proof -
  note unf = utf8_encode_def utf8_spec_def Let_def word_thresholds
  have div2: "unat cp div 64 div 64 = unat cp div 4096" and div3: "unat cp div 4096 div 64 = unat cp div 262144"
    by (simp_all add: div_mult2_eq [symmetric])
  consider "unat cp < 0x80" | "\<not> unat cp < 0x80" "unat cp < 0x800"
    | "\<not> unat cp < 0x80" "\<not> unat cp < 0x800" "unat cp < 0x10000"
    | "\<not> unat cp < 0x80" "\<not> unat cp < 0x800" "\<not> unat cp < 0x10000" by linarith
  then show ?thesis
  proof cases
    case 1
    then show ?thesis by (simp add: unf byte_ascii)
  next
    case 2
    have "byte ((drop_bit 6 cp OR 0xC0) AND 0xFF) = char_of (push_bit 5 6 + unat (drop_bit 6 cp))"
      using 2 by (intro byte_lead) (simp_all add: unat_drop6 push_bit_eq_mult)
    with 2 show ?thesis
      by (simp add: unf byte_continuation unat_drop6 push_bit_eq_mult)
  next
    case 3
    have "byte ((drop_bit 6 (drop_bit 6 cp) OR 0xE0) AND 0xFF)
        = char_of (push_bit 4 14 + unat (drop_bit 6 (drop_bit 6 cp)))"
      using 3 by (intro byte_lead) (simp_all only: unat_drop6 push_bit_eq_mult div2, simp_all)
    with 3 show ?thesis
      by (simp add: unf utf8_tail_unfold unat_drop6 push_bit_eq_mult div2 del: drop_bit_drop_bit)
  next
    case 4
    have "byte ((drop_bit 6 (drop_bit 6 (drop_bit 6 cp)) OR 0xF0) AND 0xFF)
        = char_of (push_bit 3 30 + unat (drop_bit 6 (drop_bit 6 (drop_bit 6 cp))))"
      using 4 assms by (intro byte_lead) (simp_all only: unat_drop6 push_bit_eq_mult div2 div3, simp_all)
    with 4 assms show ?thesis
      by (simp add: unf utf8_tail_unfold unat_drop6 push_bit_eq_mult div2 div3 del: drop_bit_drop_bit)
  qed
qed

subsection \<open>Hexadecimal digits\<close>

definition hexv :: "char \<Rightarrow> nat option" where
  "hexv c =
     (if 48 \<le> ord c \<and> ord c \<le> 57 then Some (ord c - 48)
      else if 65 \<le> ord c \<and> ord c \<le> 70 then Some (ord c - 55)
      else if 97 \<le> ord c \<and> ord c \<le> 102 then Some (ord c - 87)
      else None)"

lemma hex_digit_hexv: "hex_digit c = map_option of_nat (hexv c)"
  by (auto simp: hex_digit_def hexv_def less_eq_char_def of_nat_diff)

lemma hexv_less: "hexv c = Some v \<Longrightarrow> v < 16"
  by (auto simp: hexv_def split: if_splits)

lemma parse_hex4_eq:
  assumes "hexv a = Some va" "hexv b = Some vb" "hexv c = Some vc" "hexv d = Some vd"
  shows "parse_hex4 (a # b # c # d # rest) = of_nat (((va * 16 + vb) * 16 + vc) * 16 + vd)"
proof -
  have push4: "push_bit 4 w = 16 * w" for w :: "32 word"
    by (simp add: push_bit_eq_mult)
  have t: "take 4 (a # b # c # d # rest) = [a, b, c, d]" by simp
  have "parse_hex4 (a # b # c # d # rest)
      = 16 * (16 * (16 * of_nat va + of_nat vb) + of_nat vc) + of_nat vd"
    unfolding parse_hex4_def t by (simp add: hex_digit_hexv assms push4)
  also have "\<dots> = of_nat (16 * (16 * (16 * va + vb) + vc) + vd)" by simp
  also have "16 * (16 * (16 * va + vb) + vc) + vd = ((va * 16 + vb) * 16 + vc) * 16 + vd" by simp
  finally show ?thesis .
qed

lemma hexv_hex_char: "n < 16 \<Longrightarrow> hexv (hex_char n) = Some n"
  by (auto simp: hexv_def hex_char_def)

lemma unat_of_nat_hex4:
  assumes "va < 16" "vb < 16" "vc < 16" "vd < (16 :: nat)"
  shows "unat (of_nat (((va * 16 + vb) * 16 + vc) * 16 + vd) :: 32 word) = ((va * 16 + vb) * 16 + vc) * 16 + vd"
  using assms by (simp only: unat_of_nat take_bit_nat_eq_self_iff) simp

subsection \<open>UTF-16 escapes decode to the UTF-8 of their code point\<close>

text \<open>The value of four hexadecimal digits, if they are digits.\<close>

fun code_unit :: "string \<Rightarrow> nat option" where
  "code_unit [a, b, c, d] =
     (case (hexv a, hexv b, hexv c, hexv d) of
        (Some va, Some vb, Some vc, Some vd) \<Rightarrow> Some (((va * 16 + vb) * 16 + vc) * 16 + vd)
      | _ \<Rightarrow> None)"
| "code_unit _ = None"

lemma code_unit_elim:
  assumes "code_unit ds = Some u"
  obtains a b c d va vb vc vd where "ds = [a, b, c, d]" "hexv a = Some va" "hexv b = Some vb"
    "hexv c = Some vc" "hexv d = Some vd" "u = ((va * 16 + vb) * 16 + vc) * 16 + vd"
  using assms by (cases ds rule: code_unit.cases) (auto split: option.splits prod.splits)

lemma code_unit_length: "code_unit ds = Some u \<Longrightarrow> length ds = 4"
  by (erule code_unit_elim) simp

lemma code_unit_less: "code_unit ds = Some u \<Longrightarrow> u < 65536"
  by (erule code_unit_elim) (auto dest!: hexv_less)

lemma parse_hex4_code_unit: "code_unit ds = Some u \<Longrightarrow> parse_hex4 (ds @ rest) = of_nat u"
  by (erule code_unit_elim) (simp only: append.simps parse_hex4_eq)

lemma unat_of_nat_16: "u < 65536 \<Longrightarrow> unat (of_nat u :: 32 word) = u"
  by (simp only: unat_of_nat) simp

lemma code_unit_word_le:
  "u < 65536 \<Longrightarrow> (numeral k \<le> (of_nat u :: 32 word)) = (unat (numeral k :: 32 word) \<le> u)"
  "u < 65536 \<Longrightarrow> ((of_nat u :: 32 word) \<le> numeral k) = (u \<le> unat (numeral k :: 32 word))"
  "u < 65536 \<Longrightarrow> ((of_nat u :: 32 word) < numeral k) = (u < unat (numeral k :: 32 word))"
  "u < 65536 \<Longrightarrow> (numeral k < (of_nat u :: 32 word)) = (unat (numeral k :: 32 word) < u)"
  by (simp_all only: word_le_nat_alt word_less_nat_alt unat_of_nat_16)

lemma unat_ucast_64: "unat (ucast w :: 64 word) = unat w" for w :: "32 word"
proof -
  have "unat w < 2 ^ 32" using unsigned_less [of w] by simp
  then have "unat w < 2 ^ 64" by simp
  then show ?thesis by (simp add: unsigned_ucast_eq take_bit_nat_eq_self)
qed

lemma utf16_single:
  assumes u: "code_unit ds = Some u" and ns: "u < 0xD800 \<or> 0xDFFF < u"
  shows "utf16_literal_to_utf8 (CHR 0x5C # CHR ''u'' # ds @ rest) = (6, map char_of (utf8_spec u))"
proof -
  note lt = code_unit_less [OF u] and len = code_unit_length [OF u]
  have uc: "unat (ucast (of_nat u :: 32 word) :: 64 word) = u"
    by (simp only: unat_ucast_64 unat_of_nat_16 [OF lt])
  have enc: "utf8_encode (ucast (of_nat u :: 32 word)) = Some (map char_of (utf8_spec u))"
    using utf8_encode_spec [of "ucast (of_nat u :: 32 word)"] uc lt by simp
  show ?thesis
    using ns enc
    by (auto simp: utf16_literal_to_utf8_def Let_def len parse_hex4_code_unit [OF u] code_unit_word_le [OF lt])
qed

lemma surrogate_bits:
  assumes "f < 65536" "s < 65536"
  shows "unat (0x10000 + (push_bit 10 ((of_nat f :: 32 word) AND 0x3FF) OR ((of_nat s :: 32 word) AND 0x3FF)))
       = 0x10000 + f mod 1024 * 1024 + s mod 1024"
proof -
  have m: "k AND 1023 = take_bit 10 k" for k :: nat
    using take_bit_eq_mask [of 10 k] by (simp add: mask_eq_exp_minus_1)
  have a: "unat ((of_nat k :: 32 word) AND 0x3FF) = take_bit 10 k" if "k < 65536" for k
    using that by (simp add: unsigned_and_eq unat_of_nat_16 m)
  have small: "push_bit 10 (take_bit 10 f) < (2 ^ 20 :: nat)"
    by (simp add: push_bit_eq_mult take_bit_eq_mod)
  have p: "unat (push_bit 10 ((of_nat f :: 32 word) AND 0x3FF)) = push_bit 10 (take_bit 10 f)"
    using small by (simp only: unsigned_push_bit_eq a [OF assms(1)]) (simp add: take_bit_nat_eq_self)
  have "push_bit 10 (take_bit 10 f) OR take_bit 10 s = push_bit 10 (take_bit 10 f) + take_bit 10 s"
    by (rule disjunctive_add [symmetric]) (auto simp: bit_push_bit_iff bit_take_bit_iff)
  then have o: "unat (push_bit 10 ((of_nat f :: 32 word) AND 0x3FF) OR ((of_nat s :: 32 word) AND 0x3FF))
      = f mod 1024 * 1024 + s mod 1024" (is "unat ?w = _")
    by (simp only: unsigned_or_eq p a [OF assms(2)]) (simp add: push_bit_eq_mult take_bit_eq_mod)
  have "f mod 1024 * 1024 + s mod 1024 < 2 ^ 20"
    using mod_less_divisor [of 1024 f] mod_less_divisor [of 1024 s] by simp
  with o have "unat (0x10000 :: 32 word) + unat ?w < 2 ^ LENGTH(32)" by simp
  then have "unat (0x10000 + ?w) = unat (0x10000 :: 32 word) + unat ?w" by (rule unat_add_lem [THEN iffD1])
  with o show ?thesis by simp
qed

lemma pair_value:
  assumes hi: "0xD800 \<le> f" "f \<le> 0xDBFF" and lo: "0xDC00 \<le> s" "s \<le> 0xDFFF"
  shows "utf8_encode (ucast (0x10000 + (push_bit 10 ((of_nat f :: 32 word) AND 0x3FF) OR ((of_nat s :: 32 word) AND 0x3FF))))
    = Some (map char_of (utf8_spec (0x10000 + (f - 0xD800) * 0x400 + (s - 0xDC00))))"
proof -
  have ls: "f < 65536" "s < 65536" using hi lo by simp_all
  let ?w = "0x10000 + (push_bit 10 ((of_nat f :: 32 word) AND 0x3FF) OR ((of_nat s :: 32 word) AND 0x3FF))"
  have "f = 54 * 1024 + (f - 0xD800)" "s = 55 * 1024 + (s - 0xDC00)" "f - 0xD800 < 1024" "s - 0xDC00 < 1024"
    using hi lo by simp_all
  then have "f mod 1024 = f - 0xD800" "s mod 1024 = s - 0xDC00"
    by (metis mod_less mod_mult_self3)+
  then have w: "unat ?w = 0x10000 + (f - 0xD800) * 0x400 + (s - 0xDC00)"
    using surrogate_bits [OF ls] by simp
  have "unat (ucast ?w :: 64 word) = unat ?w" by (rule unat_ucast_64)
  then show ?thesis using utf8_encode_spec [of "ucast ?w"] w hi lo by simp
qed

subsection \<open>Sizes: what an escape consumes and produces\<close>

lemma length_utf8_tail: "length (snd (utf8_tail n cp out)) = n + length out"
  by (induction n cp out rule: utf8_tail.induct) simp_all

lemma utf8_encode_length:
  assumes "utf8_encode cp = Some bs"
  shows "length bs \<le> 4" and "cp < 0x10000 \<Longrightarrow> length bs \<le> 3"
  using assms length_utf8_tail [of "2 - 1" cp "[]"] length_utf8_tail [of "3 - 1" cp "[]"]
    length_utf8_tail [of "4 - 1" cp "[]"]
  by (auto simp: utf8_encode_def Let_def split: if_splits prod.splits)

lemma parse_hex4_cases:
  assumes "4 \<le> length xs"
  shows "parse_hex4 xs = 0 \<or> (\<exists>u < 65536. parse_hex4 xs = of_nat u)"
proof -
  from assms obtain a b c d rest where xs: "xs = a # b # c # d # rest"
    by (auto simp: numeral_eq_Suc Suc_le_length_iff)
  show ?thesis
  proof (cases "\<exists>va vb vc vd. hexv a = Some va \<and> hexv b = Some vb \<and> hexv c = Some vc \<and> hexv d = Some vd")
    case True
    then obtain u where u: "code_unit [a, b, c, d] = Some u" by auto
    from parse_hex4_code_unit [OF u, of rest] code_unit_less [OF u] xs show ?thesis by auto
  next
    case False
    then have "parse_hex4 xs = 0"
      using xs by (auto simp: parse_hex4_def hex_digit_hexv split: option.splits)
    then show ?thesis ..
  qed
qed

lemma ucast_hex4_less:
  assumes "4 \<le> length xs"
  shows "(ucast (parse_hex4 xs) :: 64 word) < 0x10000"
  using parse_hex4_cases [OF assms] unat_of_nat_16
  by (auto simp: word_less_nat_alt unat_ucast_64)

lemma utf16_sizes:
  assumes "utf16_literal_to_utf8 input = (n, bs)" "n \<noteq> 0"
  shows "(n = 6 \<and> length bs \<le> 3 \<or> n = 12 \<and> length bs \<le> 4) \<and> n \<le> length input"
proof -
  have "4 \<le> length (drop 2 input)" if "6 \<le> length input" using that by simp
  then have "(ucast (parse_hex4 (drop 2 input)) :: 64 word) < 0x10000" if "6 \<le> length input"
    using that ucast_hex4_less by blast
  then show ?thesis
    using assms utf8_encode_length
    by (auto simp: utf16_literal_to_utf8_def Let_def split: if_splits option.splits prod.splits)
qed

subsection \<open>Both passes over a literal stay in bounds\<close>

text \<open>
  \<open>quota str e p\<close> is the number of output bytes the size computation of \<open>parse_string\<close>
  reserves for the input from \<open>p\<close> to \<open>e\<close>: one per byte, one per escaped pair. The decoding
  pass can lose step with the counting pass (after an invalid \<open>\u\<close> escape), so its bound is
  stated for a pair that starts at \<open>p\<close> and for one that starts just before.
\<close>

function quota :: "string \<Rightarrow> nat \<Rightarrow> nat \<Rightarrow> nat" where
  "quota str e p =
     (if p < e then Suc (if str ! p = CHR 0x5C then quota str e (p + 2) else quota str e (p + 1)) else 0)"
  by pat_completeness auto
termination by (relation "measure (\<lambda>(str, e, p). e - p)") auto

declare quota.simps [simp del]

lemma quota_end [simp]: "e \<le> p \<Longrightarrow> quota str e p = 0"
  by (subst quota.simps) simp

lemma quota_step:
  "p < e \<Longrightarrow> str ! p = CHR 0x5C \<Longrightarrow> quota str e p = Suc (quota str e (p + 2))"
  "p < e \<Longrightarrow> str ! p \<noteq> CHR 0x5C \<Longrightarrow> quota str e p = Suc (quota str e (p + 1))"
  by (subst quota.simps, simp)+

lemma scan_string_Some:
  "scan_string str len p sk = Some (e, sk') \<Longrightarrow>
     p \<le> e \<and> e < len \<and> str ! e = CHR 0x22 \<and> sk' + quota str e p = sk + (e - p)"
proof (induction str len p sk rule: scan_string.induct)
  case (1 str len p sk)
  show ?case
  proof (cases "p < len \<and> str ! p \<noteq> CHR 0x22")
    case False
    with "1.prems" show ?thesis by (subst (asm) scan_string.simps) (auto split: if_splits)
  next
    case True
    show ?thesis
    proof (cases "str ! p = CHR 0x5C")
      case esc: True
      with True "1.prems" have "scan_string str len (p + 2) (sk + 1) = Some (e, sk')" "\<not> len \<le> p + 1"
        by (subst (asm) scan_string.simps; simp split: if_splits)+
      with "1.IH"(1) True esc have "p + 2 \<le> e \<and> e < len \<and> str ! e = CHR 0x22 \<and>
          sk' + quota str e (p + 2) = sk + 1 + (e - (p + 2))" by blast
      then show ?thesis using esc by (auto simp: quota_step)
    next
      case plain: False
      with True "1.prems" have "scan_string str len (p + 1) sk = Some (e, sk')"
        by (subst (asm) scan_string.simps) simp
      with "1.IH"(2) True plain have "p + 1 \<le> e \<and> e < len \<and> str ! e = CHR 0x22 \<and>
          sk' + quota str e (p + 1) = sk + (e - (p + 1))" by blast
      then show ?thesis using plain by (auto simp: quota_step)
    qed
  qed
qed

lemma quota_advance:
  "p + k \<le> e \<Longrightarrow> \<exists>j. (j = k \<or> j = Suc k) \<and> j + 2 * quota str e (p + j) \<le> 2 * quota str e p"
proof (induction k arbitrary: p rule: less_induct)
  case (less k)
  show ?case
  proof (cases k)
    case 0
    then show ?thesis by auto
  next
    case (Suc i)
    then have "p < e" using less.prems by simp
    show ?thesis
    proof (cases "str ! p = CHR 0x5C")
      case False
      have "i < k" "p + 1 + i \<le> e" using Suc less.prems by auto
      from less.IH [OF this] obtain j
        where "j = i \<or> j = Suc i" "j + 2 * quota str e (p + 1 + j) \<le> 2 * quota str e (p + 1)" by blast
      with False \<open>p < e\<close> Suc show ?thesis by (intro exI [of _ "Suc j"]) (auto simp: quota_step)
    next
      case True
      show ?thesis
      proof (cases i)
        case 0
        with True \<open>p < e\<close> Suc show ?thesis by (intro exI [of _ 2]) (simp add: quota_step)
      next
        case (Suc h)
        have "h < k" "p + 2 + h \<le> e" using Suc \<open>k = Suc i\<close> less.prems by auto
        from less.IH [OF this] obtain j
          where "j = h \<or> j = Suc h" "j + 2 * quota str e (p + 2 + j) \<le> 2 * quota str e (p + 2)" by blast
        with True \<open>p < e\<close> Suc \<open>k = Suc i\<close> show ?thesis
          by (intro exI [of _ "j + 2"]) (auto simp: quota_step add.commute add.left_commute)
      qed
    qed
  qed
qed

lemma decode_escape_sizes:
  assumes "decode_escape str p e = (n, bs)" "n \<noteq> 0" "p < e"
  shows "n = 2 \<and> length bs = 1 \<and> str ! (p + 1) \<noteq> CHR ''u''
       \<or> str ! (p + 1) = CHR ''u'' \<and> p + n \<le> e \<and> (n = 6 \<and> length bs \<le> 3 \<or> n = 12 \<and> length bs \<le> 4)"
proof (cases "str ! (p + 1) = CHR ''u''")
  case True
  with assms have "utf16_literal_to_utf8 (take (e - p) (drop p str)) = (n, bs)"
    by (simp add: decode_escape_def)
  from utf16_sizes [OF this assms(2)] True assms(3) show ?thesis by auto
next
  case False
  with assms show ?thesis by (auto simp: decode_escape_def split: option.splits)
qed

lemma quota_escape:
  assumes "str ! p = CHR 0x5C" "p < e" "decode_escape str p e = (n, bs)" "n \<noteq> 0"
    and "m \<le> quota str e (p + n)" and "m \<le> Suc (quota str e (Suc (p + n)))"
  shows "length bs + m \<le> quota str e p" and "length bs + m \<le> Suc (quota str e (Suc p))"
proof -
  have q0: "quota str e p = Suc (quota str e (p + 2))" using assms by (simp add: quota_step)
  have both: "length bs + m \<le> quota str e p \<and> length bs + m \<le> Suc (quota str e (Suc p))"
    using decode_escape_sizes [OF assms(3,4,2)]
  proof (elim disjE conjE)
    assume n: "n = 2" and l: "length bs = 1"
    show ?thesis
    proof (cases "Suc p < e")
      case True
      have "quota str e (Suc p) = Suc (quota str e (p + (if str ! Suc p = CHR 0x5C then 3 else 2)))"
        using True by (simp add: quota_step numeral_3_eq_3)
      with assms(5,6) n l q0 show ?thesis by (auto simp: numeral_3_eq_3 split: if_splits)
    qed (use assms(5,6) n l q0 in simp)
  next
    assume u: "str ! (p + 1) = CHR ''u''" and pe: "p + n \<le> e" and n: "n = 6" "length bs \<le> 3"
    then have q1: "quota str e (Suc p) = Suc (quota str e (p + 2))" by (simp add: quota_step)
    from quota_advance [of "p + 2" 4 e str] pe n show ?thesis
      using assms(5,6) q0 q1 by (auto simp: numeral_eq_Suc)
  next
    assume u: "str ! (p + 1) = CHR ''u''" and pe: "p + n \<le> e" and n: "n = 12" "length bs \<le> 4"
    then have q1: "quota str e (Suc p) = Suc (quota str e (p + 2))" by (simp add: quota_step)
    from quota_advance [of "p + 2" 10 e str] pe n show ?thesis
      using assms(5,6) q0 q1 by (auto simp: numeral_eq_Suc)
  qed
  then show "length bs + m \<le> quota str e p" and "length bs + m \<le> Suc (quota str e (Suc p))" by simp_all
qed

lemma decode_string_Inr:
  "decode_string str p e out = Inr res \<Longrightarrow>
     length res \<le> length out + quota str e p \<and> length res \<le> length out + Suc (quota str e (Suc p))"
proof (induction str p e out rule: decode_string.induct)
  case (1 str p e out)
  consider (fin) "\<not> p < e" | (plain) "p < e" "str ! p \<noteq> CHR 0x5C" | (esc) "p < e" "str ! p = CHR 0x5C"
    by blast
  then show ?case
  proof cases
    case fin
    with "1.prems" show ?thesis by (subst (asm) decode_string.simps) simp
  next
    case plain
    then have "decode_string str (p + 1) e (out @ [str ! p]) = Inr res"
      using "1.prems" by (subst (asm) decode_string.simps) simp
    from "1.IH"(1) [OF plain this] plain show ?thesis by (simp add: quota_step)
  next
    case esc
    obtain n bs where d: "decode_escape str p e = (n, bs)" by fastforce
    have n: "n \<noteq> 0" "decode_string str (p + n) e (out @ bs) = Inr res"
      using "1.prems" esc d by (subst (asm) decode_string.simps; simp split: if_splits)+
    have ih: "length res \<le> length (out @ bs) + quota str e (p + n) \<and>
          length res \<le> length (out @ bs) + Suc (quota str e (Suc (p + n)))"
      using "1.IH"(2) [OF esc(1) _ d [symmetric] refl n] esc(2) by simp
    define m where "m = length res - length (out @ bs)"
    have "m \<le> quota str e (p + n)" "m \<le> Suc (quota str e (Suc (p + n)))"
      using ih by (auto simp: m_def)
    from quota_escape [OF esc(2,1) d n(1) this] show ?thesis by (auto simp: m_def)
  qed
qed

lemma decode_string_Inl: "decode_string str p e out = Inl q \<Longrightarrow> p \<le> q \<and> q < e"
proof (induction str p e out rule: decode_string.induct)
  case (1 str p e out)
  consider (fin) "\<not> p < e" | (plain) "p < e" "str ! p \<noteq> CHR 0x5C" | (esc) "p < e" "str ! p = CHR 0x5C"
    by blast
  then show ?case
  proof cases
    case fin
    with "1.prems" show ?thesis by (subst (asm) decode_string.simps) simp
  next
    case plain
    then have "decode_string str (p + 1) e (out @ [str ! p]) = Inl q"
      using "1.prems" by (subst (asm) decode_string.simps) simp
    from "1.IH"(1) [OF plain this] show ?thesis by simp
  next
    case esc
    obtain n bs where d: "decode_escape str p e = (n, bs)" by fastforce
    show ?thesis
    proof (cases "n = 0")
      case True
      with "1.prems" esc d show ?thesis by (subst (asm) decode_string.simps) simp
    next
      case False
      then have "decode_string str (p + n) e (out @ bs) = Inl q"
        using "1.prems" esc d by (subst (asm) decode_string.simps) simp
      then show ?thesis
        using "1.IH"(2) [OF esc(1) _ d [symmetric] refl False] esc(2) by simp
    qed
  qed
qed

text \<open>
  What the rest of the parser needs to know of \<open>parse_string\<close>: it never reads or writes out
  of bounds when the buffer has a byte left, moves forward on success, and balances the
  allocator.
\<close>

lemma parse_string_progress:
  assumes "wfb b" "offset b < plength b"
  shows "parse_string item b \<noteq> PCrash" "parse_string item b \<noteq> PFuel"
    "parse_string item b = POk v b' \<Longrightarrow>
       (\<exists>s. v = set_valuestring (Some s) (set_type cJSON_String item) \<and> NUL \<notin> set s)
       \<and> same_text b b' \<and> wfb b' \<and> offset b < offset b' \<and> depth b' = depth b
       \<and> live (hooks b') = live (hooks b) + 1"
    "parse_string item b = PFail b' \<Longrightarrow>
       same_text b b' \<and> offset b \<le> offset b' \<and> offset b' \<le> plength b \<and> live (hooks b') = live (hooks b)"
proof -
  have fit: "length out + sk \<le> e - offset b"
    if "scan_string (content b) (plength b) (Suc (offset b)) 0 = Some (e, sk)"
      "decode_string (content b) (Suc (offset b)) e [] = Inr out" for e sk out
    using scan_string_Some [OF that(1)] decode_string_Inr [OF that(2)] by auto
  show "parse_string item b \<noteq> PCrash"
    using assms fit
    by (auto simp: parse_string_def rd_def Let_def split: option.splits sum.splits prod.splits if_splits) fastforce
  show "parse_string item b \<noteq> PFuel"
    by (auto simp: parse_string_def Let_def split: option.splits sum.splits prod.splits)
  show "parse_string item b = POk v b' \<Longrightarrow>
       (\<exists>s. v = set_valuestring (Some s) (set_type cJSON_String item) \<and> NUL \<notin> set s)
       \<and> same_text b b' \<and> wfb b' \<and> offset b < offset b' \<and> depth b' = depth b
       \<and> live (hooks b') = live (hooks b) + 1"
    using assms
    by (auto simp: parse_string_def Let_def same_text_def wfb_def
        split: option.splits sum.splits prod.splits if_splits dest!: allocate_Some scan_string_Some)
  show "parse_string item b = PFail b' \<Longrightarrow>
       same_text b b' \<and> offset b \<le> offset b' \<and> offset b' \<le> plength b \<and> live (hooks b') = live (hooks b)"
    using assms
    by (auto simp: parse_string_def Let_def same_text_def
        split: option.splits sum.splits prod.splits if_splits dest!: allocate_Some scan_string_Some decode_string_Inl)
qed

subsection \<open>Decoding inverts escaping\<close>

lemma escape_char_shape:
  obtains (plain) "escape_char c = [c]" "c \<noteq> CHR 0x22" "c \<noteq> CHR 0x5C"
  | (short) x where "escape_char c = [CHR 0x5C, x]" "unescape1 x = Some c" "x \<noteq> CHR ''u''"
  | (unicode) "escape_char c = CHR 0x5C # u04x c" "ord c < 32"
proof -
  consider "31 < ord c \<and> c \<noteq> CHR 0x22 \<and> c \<noteq> CHR 0x5C"
    | "c \<in> {CHR 0x5C, CHR 0x22, CHR 0x08, CHR 0x0C, CHR 0x0A, CHR 0x0D, CHR 0x09}"
    | "\<not> 31 < ord c" "c \<notin> {CHR 0x5C, CHR 0x22, CHR 0x08, CHR 0x0C, CHR 0x0A, CHR 0x0D, CHR 0x09}"
    by blast
  then show thesis
  proof cases
    case 1
    then show ?thesis by (intro plain) (auto simp: escape_char_def)
  next
    case 2
    then show ?thesis by (intro short [of "escape_char c ! 1"]) (auto simp: escape_char_def unescape1_def)
  next
    case 3
    then show ?thesis by (intro unicode) (auto simp: escape_char_def)
  qed
qed

lemma hex_char_plain: "n < 16 \<Longrightarrow> hex_char n \<noteq> CHR 0x22 \<and> hex_char n \<noteq> CHR 0x5C"
  using hexv_hex_char [of n] by (auto simp: hexv_def)

lemma utf16_u04x:
  assumes "ord c < 32"
  shows "utf16_literal_to_utf8 (CHR 0x5C # u04x c @ rest) = (6, [c])"
proof -
  have "ord c mod 16 < 16" "ord c div 16 < 16" using assms by auto
  then have "code_unit [CHR ''0'', CHR ''0'', hex_char (ord c div 16), hex_char (ord c mod 16)] = Some (ord c)"
    using hexv_hex_char by (simp add: hexv_def)
  from utf16_single [OF this, of rest] assms show ?thesis
    by (simp add: u04x_def utf8_spec_def)
qed

lemma scan_plain:
  "p < len \<Longrightarrow> str ! p \<noteq> CHR 0x22 \<Longrightarrow> str ! p \<noteq> CHR 0x5C \<Longrightarrow>
     scan_string str len p sk = scan_string str len (Suc p) sk"
  by (subst scan_string.simps) simp

lemma scan_pair:
  "Suc p < len \<Longrightarrow> str ! p = CHR 0x5C \<Longrightarrow> scan_string str len p sk = scan_string str len (Suc (Suc p)) (Suc sk)"
  by (subst scan_string.simps) simp

lemma scan_quote: "p < len \<Longrightarrow> str ! p = CHR 0x22 \<Longrightarrow> scan_string str len p sk = Some (p, sk)"
  by (subst scan_string.simps) simp

lemma scan_escaped:
  assumes "str = pre @ escape_string s @ CHR 0x22 # rest" "length pre + length (escape_string s) < len"
  shows "\<exists>sk'. scan_string str len (length pre) sk = Some (length pre + length (escape_string s), sk')"
  using assms
proof (induction s arbitrary: pre sk)
  case Nil
  then show ?case by (simp add: escape_string_def scan_quote)
next
  case (Cons c s)
  have split: "str = (pre @ escape_char c) @ escape_string s @ CHR 0x22 # rest"
    using Cons.prems(1) by (simp add: escape_string_def)
  have len: "length (pre @ escape_char c) + length (escape_string s) < len"
    and tot: "length (pre @ escape_char c) + length (escape_string s) = length pre + length (escape_string (c # s))"
    using Cons.prems(2) by (simp_all add: escape_string_def)
  have "\<exists>k. scan_string str len (length pre) sk = scan_string str len (length (pre @ escape_char c)) (sk + k)"
  proof (rule escape_char_shape [of c])
    assume "escape_char c = [c]" "c \<noteq> CHR 0x22" "c \<noteq> CHR 0x5C"
    with split len show ?thesis
      by (intro exI [of _ 0]) (simp add: scan_plain nth_append)
  next
    fix x assume "escape_char c = [CHR 0x5C, x]"
    with split len show ?thesis by (intro exI [of _ 1]) (simp add: scan_pair nth_append)
  next
    assume u: "escape_char c = CHR 0x5C # u04x c" and c: "ord c < 32"
    have h: "hex_char (ord c mod 16) \<noteq> CHR 0x22 \<and> hex_char (ord c mod 16) \<noteq> CHR 0x5C"
      "hex_char (ord c div 16) \<noteq> CHR 0x22 \<and> hex_char (ord c div 16) \<noteq> CHR 0x5C"
      using c by (auto intro!: hex_char_plain [THEN conjunct1] hex_char_plain [THEN conjunct2])
    with split len u show ?thesis
      by (intro exI [of _ 1]) (simp add: u04x_def scan_pair scan_plain nth_append)
  qed
  with Cons.IH [OF split len] tot show ?case by metis
qed

lemma decode_plain:
  "p < e \<Longrightarrow> str ! p \<noteq> CHR 0x5C \<Longrightarrow> decode_string str p e out = decode_string str (Suc p) e (out @ [str ! p])"
  by (subst decode_string.simps) simp

lemma decode_pair:
  "p < e \<Longrightarrow> str ! p = CHR 0x5C \<Longrightarrow> decode_escape str p e = (n, bs) \<Longrightarrow> n \<noteq> 0 \<Longrightarrow>
     decode_string str p e out = decode_string str (p + n) e (out @ bs)"
  by (subst decode_string.simps) simp

lemma decode_escaped:
  assumes "str = pre @ escape_string s @ CHR 0x22 # rest" "e = length pre + length (escape_string s)"
  shows "decode_string str (length pre) e out = Inr (out @ s)"
  using assms
proof (induction s arbitrary: pre out)
  case Nil
  then show ?case by (subst decode_string.simps) (simp add: escape_string_def)
next
  case (Cons c s)
  have split: "str = (pre @ escape_char c) @ escape_string s @ CHR 0x22 # rest"
    and e: "e = length (pre @ escape_char c) + length (escape_string s)"
    using Cons.prems by (simp_all add: escape_string_def)
  have "decode_string str (length pre) e out = decode_string str (length (pre @ escape_char c)) e (out @ [c])"
  proof (rule escape_char_shape [of c])
    assume "escape_char c = [c]" "c \<noteq> CHR 0x22" "c \<noteq> CHR 0x5C"
    with split e show ?thesis by (simp add: decode_plain nth_append)
  next
    fix x assume "escape_char c = [CHR 0x5C, x]" "unescape1 x = Some c" "x \<noteq> CHR ''u''"
    with split e show ?thesis
      by (subst decode_pair [where n = 2 and bs = "[c]"]) (simp_all add: decode_escape_def nth_append)
  next
    assume u: "escape_char c = CHR 0x5C # u04x c" and c: "ord c < 32"
    have l: "length (u04x c) = 5" by (simp add: u04x_def)
    have "take (e - length pre) (drop (length pre) str) = CHR 0x5C # u04x c @ escape_string s"
      using split e u by simp
    then have "decode_escape str (length pre) e = (6, [c])"
      using split u utf16_u04x [OF c] by (simp add: decode_escape_def nth_append u04x_def)
    with split e u l show ?thesis by (subst decode_pair [where n = 6 and bs = "[c]"]) (simp_all add: nth_append)
  qed
  with Cons.IH [OF split e] show ?case by simp
qed

text \<open>
  \<open>parse_string\<close> on the text that \<open>print_string_ptr\<close> writes for \<open>s\<close> yields \<open>s\<close>.
\<close>

lemma parse_string_escaped:
  assumes "content b = pre @ CHR 0x22 # escape_string s @ CHR 0x22 # rest" "offset b = length pre"
    and "length pre + length (escape_string s) + 2 \<le> plength b"
    and "NUL \<notin> set s" "allocate (hooks b) = Some m"
  shows "parse_string item b =
           POk (set_valuestring (Some s) (set_type cJSON_String item))
             (b\<lparr>offset := length pre + length (escape_string s) + 2, hooks := m\<rparr>)"
proof -
  let ?pre = "pre @ [CHR 0x22]"
  have c: "content b = ?pre @ escape_string s @ CHR 0x22 # rest" using assms(1) by simp
  obtain sk where scan: "scan_string (content b) (plength b) (length ?pre) 0
      = Some (length ?pre + length (escape_string s), sk)"
    using scan_escaped [OF c, of "plength b" 0] assms(3) by auto
  have dec: "decode_string (content b) (length ?pre) (length ?pre + length (escape_string s)) [] = Inr s"
    using decode_escaped [OF c refl, of "[]"] by simp
  have "wfb b"  "offset b < plength b" if "plength b \<le> length (content b)"
    using assms that by (auto simp: wfb_def)
  have fit: "length s + sk \<le> length ?pre + length (escape_string s) - length pre"
    using scan_string_Some [OF scan] decode_string_Inr [OF dec] by simp
  then have "\<not> (length ?pre + length (escape_string s) - length pre - sk + 1 < length s + 1)" by simp
  moreover have "rd b (length pre) = Some (CHR 0x22)"
    using assms(1,3) by (simp add: rd_def nth_append)
  ultimately show ?thesis
    using scan dec assms(2,4,5) by (simp add: parse_string_def cstr_id)
qed

subsection \<open>Properties\<close>

text \<open>
  The reference decoder of a \<open>\uXXXX\<close> escape on numbers: two code units make a surrogate pair, a lone
  surrogate is an error, and four characters that are not hexadecimal count as 0.
\<close>

definition unit_at :: "string \<Rightarrow> nat" where
  "unit_at ds = (case code_unit (take 4 ds) of None \<Rightarrow> 0 | Some u \<Rightarrow> u)"

definition utf16_spec :: "string \<Rightarrow> nat \<times> string" where
  "utf16_spec input =
     (let first = unit_at (drop 2 input); second = unit_at (drop 8 input)
      in if length input < 6 then (0, [])
         else if 0xDC00 \<le> first \<and> first \<le> 0xDFFF then (0, [])
         else if 0xD800 \<le> first \<and> first \<le> 0xDBFF then
           (if 12 \<le> length input \<and> input ! 6 = CHR 0x5C \<and> input ! 7 = CHR ''u'' \<and> 0xDC00 \<le> second \<and> second \<le> 0xDFFF
            then (12, map char_of (utf8_spec (0x10000 + (first - 0xD800) * 0x400 + (second - 0xDC00))))
            else (0, []))
         else (6, map char_of (utf8_spec first)))"

lemma unit_at_less: "unit_at ds < 65536"
  using code_unit_less by (auto simp: unit_at_def split: option.split)

lemma parse_hex4_unit:
  assumes "4 \<le> length xs"
  shows "parse_hex4 xs = of_nat (unit_at xs)"
proof (cases "code_unit (take 4 xs)")
  case None
  obtain a b c d r where xs: "xs = a # b # c # d # r"
    using assms by (cases xs rule: code_unit.cases) auto
  show ?thesis
    using None by (cases "hexv a"; cases "hexv b"; cases "hexv c"; cases "hexv d")
      (auto simp: xs parse_hex4_def hex_digit_hexv unit_at_def)
next
  case (Some u)
  then show ?thesis using parse_hex4_code_unit [OF Some, of "drop 4 xs"] by (simp add: unit_at_def)
qed

text \<open>C28: \<open>utf16_literal_to_utf8\<close> decodes every escape, whatever follows it in memory, as the reference
  does: the bit operations on code units and continuation bytes compute the UTF-8 encoding of the
  code point, lone surrogates and truncated pairs are refused; and an escape with a character that
  is not hexadecimal is accepted as the code point 0.\<close>

theorem utf16_literal_to_utf8_eq: "utf16_literal_to_utf8 input = utf16_spec input"
proof (cases "length input < 6")
  case True
  then show ?thesis by (simp add: utf16_literal_to_utf8_def utf16_spec_def)
next
  case False
  let ?f = "unit_at (drop 2 input)" and ?s = "unit_at (drop 8 input)"
  have f: "parse_hex4 (drop 2 input) = of_nat ?f" using False by (intro parse_hex4_unit) simp
  have s: "parse_hex4 (drop 2 (drop 6 input)) = of_nat ?s" if "12 \<le> length input"
    using that parse_hex4_unit [of "drop 8 input"] by simp
  have uc: "unat (ucast (of_nat ?f :: 32 word) :: 64 word) = ?f"
    by (simp only: unat_ucast_64 unat_of_nat_16 [OF unit_at_less])
  have enc: "utf8_encode (ucast (of_nat ?f :: 32 word)) = Some (map char_of (utf8_spec ?f))"
    using utf8_encode_spec [of "ucast (of_nat ?f :: 32 word)"] uc unit_at_less [of "drop 2 input"] by simp
  note le = code_unit_word_le [OF unit_at_less [of "drop 2 input"]] code_unit_word_le [OF unit_at_less [of "drop 8 input"]]
  show ?thesis
    using False enc s pair_value [of ?f ?s]
    by (auto simp: utf16_literal_to_utf8_def utf16_spec_def Let_def f le)
qed

end
