(* ===== verification/CJson_Parse.thy ===== *)
theory CJson_Parse
  imports CJson_String
begin

text \<open>
  The recursive-descent parser of \<open>cJSON.c\<close>: \<open>parse_value\<close>, \<open>parse_array\<close> and
  \<open>parse_object\<close> with their element loops, \<open>cJSON_ParseWithLengthOpts\<close> and its wrappers.
  The mutual recursion runs on fuel; one unit per unread byte and one more are enough.
\<close>

subsection \<open>Values, arrays and objects\<close>

text \<open>
  \<open>head\<close> is the chain of finished items, in order. On \<open>goto fail\<close> the chain with the current
  item is deleted; the current item of a failed element is the one passed down, because no
  parse function changes its item before it succeeds.
\<close>

definition delete_chain :: "cJSON list \<Rightarrow> parse_buffer \<Rightarrow> parse_buffer" where
  "delete_chain head b = b\<lparr>hooks := cJSON_Delete head (hooks b)\<rparr>"

definition advance :: "parse_buffer \<Rightarrow> parse_buffer" where
  "advance b = b\<lparr>offset := offset b + 1\<rparr>"

definition parse_success :: "int \<Rightarrow> cJSON \<Rightarrow> cJSON list \<Rightarrow> parse_buffer \<Rightarrow> pres" where
  "parse_success ty item head b =
     POk (set_child head (set_type ty item)) (b\<lparr>depth := depth b - 1, offset := offset b + 1\<rparr>)"

text \<open>The name was parsed into \<open>valuestring\<close>: swap it into \<open>string\<close>.\<close>

definition swap_name :: "cJSON \<Rightarrow> cJSON" where
  "swap_name item = set_valuestring None (set_string (valuestring item) item)"

text \<open>
  The functions call each other: \<open>pv\<close> is the \<open>parse_value\<close> that the loops call, tied below
  by recursion on the fuel. The \<open>do\<close> loops take their number of turns as fuel as well.
\<close>

primrec parse_elements ::
  "(cJSON \<Rightarrow> parse_buffer \<Rightarrow> pres) \<Rightarrow> nat \<Rightarrow> cJSON \<Rightarrow> cJSON list \<Rightarrow> parse_buffer \<Rightarrow> pres" where
  "parse_elements pv 0 item head b = PFuel"
| "parse_elements pv (Suc k) item head b =
     (case cJSON_New_Item (hooks b) of
        None \<Rightarrow> PFail (delete_chain head b)
      | Some (new_item, m) \<Rightarrow>
          (case pv new_item (buffer_skip_whitespace (advance (b\<lparr>hooks := m\<rparr>))) of
             POk current_item b1 \<Rightarrow>
               (let b2 = buffer_skip_whitespace b1; head' = head @ [current_item]
                in if peek b2 = Some (CHR '','') then parse_elements pv k item head' b2
                   else if peek b2 = Some (CHR '']'') then parse_success cJSON_Array item head' b2
                   else PFail (delete_chain head' b2))
           | PFail b1 \<Rightarrow> PFail (delete_chain (head @ [new_item]) b1)
           | PCrash \<Rightarrow> PCrash
           | PFuel \<Rightarrow> PFuel))"

definition parse_array ::
  "(cJSON \<Rightarrow> parse_buffer \<Rightarrow> pres) \<Rightarrow> nat \<Rightarrow> cJSON \<Rightarrow> parse_buffer \<Rightarrow> pres" where
  "parse_array pv n item b =
     (if CJSON_NESTING_LIMIT \<le> depth b then PFail b
      else let b1 = b\<lparr>depth := depth b + 1\<rparr>
      in case rd b1 (offset b1) of
           None \<Rightarrow> PCrash
         | Some c \<Rightarrow>
             if c \<noteq> CHR ''['' then PFail b1
             else let b2 = buffer_skip_whitespace (advance b1)
             in if peek b2 = Some (CHR '']'') then parse_success cJSON_Array item [] b2
                else if \<not> can_access_at_index b2 0 then PFail (b2\<lparr>offset := offset b2 - 1\<rparr>)
                else parse_elements pv n item [] (b2\<lparr>offset := offset b2 - 1\<rparr>))"

primrec parse_members ::
  "(cJSON \<Rightarrow> parse_buffer \<Rightarrow> pres) \<Rightarrow> nat \<Rightarrow> cJSON \<Rightarrow> cJSON list \<Rightarrow> parse_buffer \<Rightarrow> pres" where
  "parse_members pv 0 item head b = PFuel"
| "parse_members pv (Suc k) item head b =
     (case cJSON_New_Item (hooks b) of
        None \<Rightarrow> PFail (delete_chain head b)
      | Some (new_item, m) \<Rightarrow>
          if \<not> can_access_at_index b 1 then PFail (delete_chain (head @ [new_item]) (b\<lparr>hooks := m\<rparr>))
          else (case parse_string new_item (buffer_skip_whitespace (advance (b\<lparr>hooks := m\<rparr>))) of
             POk named b1 \<Rightarrow>
               (let b2 = buffer_skip_whitespace b1; current_item = swap_name named
                in if peek b2 \<noteq> Some (CHR '':'') then PFail (delete_chain (head @ [current_item]) b2)
                else (case pv current_item (buffer_skip_whitespace (advance b2)) of
                   POk value_item b3 \<Rightarrow>
                     (let b4 = buffer_skip_whitespace b3; head' = head @ [value_item]
                      in if peek b4 = Some (CHR '','') then parse_members pv k item head' b4
                         else if peek b4 = Some (CHR ''}'') then parse_success cJSON_Object item head' b4
                         else PFail (delete_chain head' b4))
                 | PFail b3 \<Rightarrow> PFail (delete_chain (head @ [current_item]) b3)
                 | PCrash \<Rightarrow> PCrash
                 | PFuel \<Rightarrow> PFuel))
           | PFail b1 \<Rightarrow> PFail (delete_chain (head @ [new_item]) b1)
           | PCrash \<Rightarrow> PCrash
           | PFuel \<Rightarrow> PFuel))"

definition parse_object ::
  "(cJSON \<Rightarrow> parse_buffer \<Rightarrow> pres) \<Rightarrow> nat \<Rightarrow> cJSON \<Rightarrow> parse_buffer \<Rightarrow> pres" where
  "parse_object pv n item b =
     (if CJSON_NESTING_LIMIT \<le> depth b then PFail b
      else let b1 = b\<lparr>depth := depth b + 1\<rparr>
      in if peek b1 \<noteq> Some (CHR ''{'') then PFail b1
      else let b2 = buffer_skip_whitespace (advance b1)
      in if peek b2 = Some (CHR ''}'') then parse_success cJSON_Object item [] b2
         else if \<not> can_access_at_index b2 0 then PFail (b2\<lparr>offset := offset b2 - 1\<rparr>)
         else parse_members pv n item [] (b2\<lparr>offset := offset b2 - 1\<rparr>))"

primrec parse_value :: "nat \<Rightarrow> cJSON \<Rightarrow> parse_buffer \<Rightarrow> pres" where
  "parse_value 0 item b = PFuel"
| "parse_value (Suc n) item b =
     (if starts b ''null'' then POk (set_type cJSON_NULL item) (b\<lparr>offset := offset b + 4\<rparr>)
      else if starts b ''false'' then POk (set_type cJSON_False item) (b\<lparr>offset := offset b + 5\<rparr>)
      else if starts b ''true'' then POk (set_valueint 1 (set_type cJSON_True item)) (b\<lparr>offset := offset b + 4\<rparr>)
      else (case peek b of
              None \<Rightarrow> PFail b
            | Some c \<Rightarrow>
                if c = CHR 0x22 then parse_string item b
                else if c = CHR ''-'' \<or> is_digit c then parse_number item b
                else if c = CHR ''['' then parse_array (parse_value n) n item b
                else if c = CHR ''{'' then parse_object (parse_value n) n item b
                else PFail b))"

subsection \<open>Entry points\<close>

text \<open>
  The result of a parse: the root item with the position where parsing stopped
  (\<open>return_parse_end\<close>), or NULL with the error position kept in \<open>global_error\<close>; both with
  the allocator afterwards. \<open>None\<close> is a crash.
\<close>

datatype parse_outcome = Parsed cJSON nat mem | ParseError nat mem

definition parse_fuel :: "nat \<Rightarrow> nat" where
  "parse_fuel n = n + 1"

definition parse_fail :: "parse_buffer \<Rightarrow> parse_outcome" where
  "parse_fail b =
     ParseError (if offset b < plength b then offset b else if 0 < plength b then plength b - 1 else 0)
       (cJSON_Delete [zero_item] (hooks b))"

definition cJSON_ParseWithLengthOpts ::
  "string \<Rightarrow> nat \<Rightarrow> bool \<Rightarrow> mem \<Rightarrow> parse_outcome option" where
  "cJSON_ParseWithLengthOpts value buffer_length require_null_terminated m =
     (if buffer_length = 0 then Some (ParseError 0 m)
      else let buffer = \<lparr>content = value, plength = buffer_length, offset = 0, depth = 0, hooks = m\<rparr>
      in case cJSON_New_Item m of
           None \<Rightarrow> Some (ParseError 0 m)
         | Some (item, m') \<Rightarrow>
             (case skip_utf8_bom (buffer\<lparr>hooks := m'\<rparr>) of
                None \<Rightarrow> Some (parse_fail (buffer\<lparr>hooks := m'\<rparr>))
              | Some b \<Rightarrow>
                  (case parse_value (parse_fuel buffer_length) item (buffer_skip_whitespace b) of
                     PCrash \<Rightarrow> None
                   | PFuel \<Rightarrow> None
                   | PFail b' \<Rightarrow> Some (parse_fail b')
                   | POk v b' \<Rightarrow>
                       if require_null_terminated then
                         let b'' = buffer_skip_whitespace b'
                         in if peek b'' \<noteq> Some NUL
                            then Some (ParseError
                                   (if offset b'' < plength b'' then offset b'' else plength b'' - 1)
                                   (cJSON_Delete [v] (hooks b'')))
                            else Some (Parsed v (offset b'') (hooks b''))
                       else Some (Parsed v (offset b') (hooks b')))))"

text \<open>
  \<open>cJSON_ParseWithOpts\<close> takes a NUL-terminated string: its memory is the string and the NUL,
  and the stated length counts the NUL. \<open>cJSON_Parse\<close> does not require the terminator, so text
  after the first value is ignored.
\<close>

definition cJSON_ParseWithOpts :: "string option \<Rightarrow> bool \<Rightarrow> mem \<Rightarrow> parse_outcome option" where
  "cJSON_ParseWithOpts value require_null_terminated m =
     (case value of
        None \<Rightarrow> Some (ParseError 0 m)
      | Some s \<Rightarrow> cJSON_ParseWithLengthOpts (s @ [NUL]) (length s + 1) require_null_terminated m)"

definition cJSON_Parse :: "string option \<Rightarrow> mem \<Rightarrow> parse_outcome option" where
  "cJSON_Parse value m = cJSON_ParseWithOpts value False m"

definition cJSON_ParseWithLength :: "string \<Rightarrow> nat \<Rightarrow> mem \<Rightarrow> parse_outcome option" where
  "cJSON_ParseWithLength value buffer_length m = cJSON_ParseWithLengthOpts value buffer_length False m"

subsection \<open>Progress, memory and depth\<close>

text \<open>The nesting of arrays and objects in a tree.\<close>

fun nesting :: "cJSON \<Rightarrow> nat" where
  "nesting (CJSON ty vs vi vd k ch) =
     (if ty = cJSON_Array \<or> ty = cJSON_Object then Suc (foldr max (map nesting ch) 0) else 0)"

text \<open>
  A tree as the parser builds it: types without flags, the integer value in range, strings
  exactly on string items, children only in containers and named exactly in objects.
\<close>

fun wf_parsed :: "cJSON \<Rightarrow> bool" where
  "wf_parsed (CJSON ty vs vi vd k ch) \<longleftrightarrow>
     ty \<in> {cJSON_False, cJSON_True, cJSON_NULL, cJSON_Number, cJSON_String, cJSON_Array, cJSON_Object}
     \<and> INT_MIN \<le> vi \<and> vi \<le> INT_MAX \<and> (vs \<noteq> None \<longleftrightarrow> ty = cJSON_String)
     \<and> (ch \<noteq> [] \<longrightarrow> ty = cJSON_Array \<or> ty = cJSON_Object)
     \<and> (\<forall>c \<in> set ch. wf_parsed c \<and> (istring c \<noteq> None \<longleftrightarrow> ty = cJSON_Object))"

text \<open>
  An item as the loops pass it down: fresh, except that its key may be set (and that it then
  still has the type \<open>cJSON_String\<close> of its name).
\<close>

definition blank :: "cJSON \<Rightarrow> bool" where
  "blank item \<longleftrightarrow> (itype item = 0 \<or> itype item = cJSON_String) \<and> valuestring item = None \<and> child item = []
     \<and> INT_MIN \<le> valueint item \<and> valueint item \<le> INT_MAX"

text \<open>
  What every parse function keeps: on success it consumed input, kept the depth, filled the item
  within the nesting limit and allocated exactly what the item now owns in addition; on failure
  everything allocated on the way is freed.
\<close>

fun pgood :: "cJSON \<Rightarrow> parse_buffer \<Rightarrow> pres \<Rightarrow> bool" where
  "pgood item b (POk v b') \<longleftrightarrow>
     same_text b b' \<and> wfb b' \<and> offset b < offset b' \<and> depth b' = depth b \<and> istring v = istring item
     \<and> live (hooks b') = live (hooks b) + owned [v] - owned [item]
     \<and> (nesting v = 0 \<or> depth b + nesting v \<le> CJSON_NESTING_LIMIT) \<and> wf_parsed v"
| "pgood item b (PFail b') \<longleftrightarrow>
     same_text b b' \<and> offset b' \<le> plength b \<and> live (hooks b') = live (hooks b)"
| "pgood item b PCrash \<longleftrightarrow> False"
| "pgood item b PFuel \<longleftrightarrow> False"

lemma blank_zero_item [simp]: "blank zero_item"
  by (simp add: blank_def zero_item_def INT_MIN_def INT_MAX_def)

lemma New_Item_Some: "cJSON_New_Item m = Some (i, m') \<Longrightarrow> i = zero_item \<and> live m' = live m + 1"
  by (auto simp: cJSON_New_Item_def split: option.splits dest: allocate_Some)

lemma owned_blank: "blank item \<Longrightarrow> owned [item] = 1 + (if istring item = None then 0 else 1)"
  by (cases item) (auto simp: blank_def type_defs)

lemma blank_swap_name [simp]:
  "blank item \<Longrightarrow> blank (swap_name (set_valuestring (Some s) (set_type cJSON_String item)))"
  by (cases item) (simp add: blank_def swap_name_def)

lemma istring_swap_name [simp]:
  "istring (swap_name (set_valuestring (Some s) (set_type t item))) = Some s"
  by (cases item) (simp add: swap_name_def)

lemma nesting_children:
  "(\<forall>v \<in> set ch. nesting v = 0 \<or> Suc d + nesting v \<le> L) \<Longrightarrow> Suc d \<le> L \<Longrightarrow>
   d + Suc (foldr max (map nesting ch) 0) \<le> L"
  by (induction ch) auto

lemma parse_success_good:
  assumes "blank item" "ty = cJSON_Array \<or> ty = cJSON_Object" "same_text b b'" "wfb b'"
    "offset b \<le> offset b'" "offset b' < plength b" "depth b' = Suc (depth b)" "depth b < CJSON_NESTING_LIMIT"
    "live (hooks b') = live (hooks b) + owned head"
    "\<forall>v \<in> set head. nesting v = 0 \<or> Suc (depth b) + nesting v \<le> CJSON_NESTING_LIMIT"
    "\<forall>v \<in> set head. wf_parsed v \<and> (istring v \<noteq> None \<longleftrightarrow> ty = cJSON_Object)"
  shows "pgood item b (parse_success ty item head b')"
  using assms nesting_children [of head "depth b" CJSON_NESTING_LIMIT]
  by (cases item) (auto simp: parse_success_def same_text_def wfb_def blank_def type_defs)

text \<open>The function the loops call, correct on inputs shorter than its fuel.\<close>

definition pv_ok :: "(cJSON \<Rightarrow> parse_buffer \<Rightarrow> pres) \<Rightarrow> nat \<Rightarrow> bool" where
  "pv_ok pv n \<longleftrightarrow> (\<forall>item b. blank item \<and> wfb b \<and> plength b - offset b < n \<longrightarrow> pgood item b (pv item b))"

lemma pv_okD: "pv_ok pv n \<Longrightarrow> blank item \<Longrightarrow> wfb b \<Longrightarrow> plength b - offset b < n \<Longrightarrow> pgood item b (pv item b)"
  by (simp add: pv_ok_def)

text \<open>The state of an element loop that started in \<open>b0\<close> with the finished items \<open>head\<close>.\<close>

definition loop_inv :: "int \<Rightarrow> parse_buffer \<Rightarrow> nat \<Rightarrow> cJSON list \<Rightarrow> parse_buffer \<Rightarrow> bool" where
  "loop_inv ty b0 k head b \<longleftrightarrow>
     same_text b0 b \<and> wfb b \<and> offset b0 \<le> offset b \<and> offset b < plength b \<and> plength b - offset b \<le> k
     \<and> depth b = Suc (depth b0) \<and> depth b0 < CJSON_NESTING_LIMIT
     \<and> live (hooks b) = live (hooks b0) + owned head
     \<and> (\<forall>v \<in> set head. nesting v = 0 \<or> Suc (depth b0) + nesting v \<le> CJSON_NESTING_LIMIT)
     \<and> (\<forall>v \<in> set head. wf_parsed v \<and> (istring v \<noteq> None \<longleftrightarrow> ty = cJSON_Object))"

lemma advance_fields [simp]:
  "content (advance b) = content b" "plength (advance b) = plength b" "offset (advance b) = Suc (offset b)"
  "depth (advance b) = depth b" "hooks (advance b) = hooks b"
  by (simp_all add: advance_def)

lemma delete_chain_fields [simp]:
  "content (delete_chain h b) = content b" "plength (delete_chain h b) = plength b"
  "offset (delete_chain h b) = offset b" "depth (delete_chain h b) = depth b"
  "live (hooks (delete_chain h b)) = live (hooks b) - owned h"
  by (simp_all add: delete_chain_def)

text \<open>Entering the next value: one byte is passed, then blanks.\<close>

lemma enter_wfb:
  assumes "wfb b" "offset b < plength b"
  shows "wfb (buffer_skip_whitespace (advance (b\<lparr>hooks := m\<rparr>)))"
    "Suc (offset b) \<le> offset (buffer_skip_whitespace (advance (b\<lparr>hooks := m\<rparr>)))"
proof -
  have "wfb (advance (b\<lparr>hooks := m\<rparr>))" using assms by (simp add: wfb_def)
  then show "wfb (buffer_skip_whitespace (advance (b\<lparr>hooks := m\<rparr>)))" by simp
  show "Suc (offset b) \<le> offset (buffer_skip_whitespace (advance (b\<lparr>hooks := m\<rparr>)))"
    using skip_offset_ge [of "advance (b\<lparr>hooks := m\<rparr>)"] by simp
qed

text \<open>The end of a turn: after a value the chain grows and the loop goes on, closes or fails.\<close>

lemma turn_end_good:
  assumes v: "same_text b0 b1" "wfb b1" "offset b < offset b1" "depth b1 = depth b" "loop_inv ty b0 (Suc k) head b"
      "live (hooks b1) = live (hooks b0) + owned (head @ [v])"
      "nesting v = 0 \<or> Suc (depth b0) + nesting v \<le> CJSON_NESTING_LIMIT"
      "wf_parsed v" "istring v \<noteq> None \<longleftrightarrow> ty = cJSON_Object"
    and item: "blank item" and ty: "ty = cJSON_Array \<or> ty = cJSON_Object"
    and loop: "\<And>b2. loop_inv ty b0 k (head @ [v]) b2 \<Longrightarrow> offset b \<le> offset b2 \<Longrightarrow> plength b2 = plength b \<Longrightarrow>
                pgood item b0 (loop b2)"
  shows "pgood item b0
     (let b2 = buffer_skip_whitespace b1
      in if peek b2 = Some (CHR '','') then loop b2
         else if peek b2 = Some close then parse_success ty item (head @ [v]) b2
         else PFail (delete_chain (head @ [v]) b2))"
proof -
  define b2 where "b2 = buffer_skip_whitespace b1"
  have b2: "same_text b0 b2" "wfb b2" "offset b1 \<le> offset b2" "depth b2 = depth b" "hooks b2 = hooks b1"
    using v skip_offset_ge [of b1] by (auto simp: b2_def same_text_def)
  have step: "loop_inv ty b0 k (head @ [v]) b2" "offset b2 < plength b2" "plength b2 = plength b"
    if "peek b2 = Some c" for c
    using that b2 v by (auto simp: loop_inv_def peek_Some same_text_def)
  have "pgood item b0 (loop b2)" if "peek b2 = Some (CHR '','')"
    using step [OF that] b2 v by (intro loop) auto
  moreover have "pgood item b0 (parse_success ty item (head @ [v]) b2)" if "peek b2 = Some close"
    using step [OF that] item ty by (intro parse_success_good) (auto simp: loop_inv_def same_text_def)
  moreover have "pgood item b0 (PFail (delete_chain (head @ [v]) b2))"
    using b2 v by (auto simp: same_text_def wfb_def)
  ultimately show ?thesis by (simp add: b2_def Let_def)
qed

lemma parse_elements_good:
  assumes pv: "pv_ok pv n"
  shows "blank item \<Longrightarrow> loop_inv cJSON_Array b0 k head b \<Longrightarrow> plength b - offset b \<le> n \<Longrightarrow>
    pgood item b0 (parse_elements pv k item head b)"
proof (induction k arbitrary: head b)
  case 0
  then show ?case by (auto simp: loop_inv_def)
next
  case (Suc k)
  note inv = Suc.prems(2) [unfolded loop_inv_def]
  have wf: "wfb b" "offset b < plength b" using inv by auto
  show ?case
  proof (cases "cJSON_New_Item (hooks b)")
    case None
    with inv show ?thesis by (simp add: same_text_def)
  next
    case (Some p)
    obtain m where p: "p = (zero_item, m)" and m: "live m = live (hooks b) + 1"
      using Some New_Item_Some by (cases p) blast
    define b' where "b' = buffer_skip_whitespace (advance (b\<lparr>hooks := m\<rparr>))"
    have b': "wfb b'" "Suc (offset b) \<le> offset b'" "content b' = content b" "plength b' = plength b"
      "depth b' = depth b" "hooks b' = m"
      using enter_wfb [OF wf, of m] by (simp_all add: b'_def)
    have "plength b' - offset b' < n" using b' wf Suc.prems(3) by auto
    with pv_okD [OF pv blank_zero_item b'(1)] have g: "pgood zero_item b' (pv zero_item b')" by simp
    show ?thesis
    proof (cases "pv zero_item b'")
      case (POk v b1)
      have go: "parse_elements pv (Suc k) item head b =
          (let b2 = buffer_skip_whitespace b1
           in if peek b2 = Some (CHR '','') then parse_elements pv k item (head @ [v]) b2
              else if peek b2 = Some (CHR '']'') then parse_success cJSON_Array item (head @ [v]) b2
              else PFail (delete_chain (head @ [v]) b2))"
        using Some POk by (simp add: p b'_def [symmetric] Let_def)
      have v: "same_text b0 b1" "wfb b1" "offset b < offset b1" "depth b1 = depth b"
        "live (hooks b1) = live (hooks b0) + owned (head @ [v])"
        "nesting v = 0 \<or> Suc (depth b0) + nesting v \<le> CJSON_NESTING_LIMIT"
        "wf_parsed v" "istring v \<noteq> None \<longleftrightarrow> cJSON_Array = cJSON_Object"
        using g POk b' inv m by (auto simp: same_text_def zero_item_def type_defs)
      show ?thesis
        unfolding go
      proof (rule turn_end_good [OF v(1-4) Suc.prems(2) v(5-8) Suc.prems(1)])
        fix b2
        assume "loop_inv cJSON_Array b0 k (head @ [v]) b2" "offset b \<le> offset b2" "plength b2 = plength b"
        then show "pgood item b0 (parse_elements pv k item (head @ [v]) b2)"
          using Suc.prems(1,3) by (intro Suc.IH) simp_all
      qed simp
    next
      case (PFail b1)
      with g b' inv m Some show ?thesis
        by (auto simp: p b'_def [symmetric] same_text_def)
    qed (use g in auto)
  qed
qed

text \<open>A member's name and value: what one turn of the object loop adds to the chain.\<close>

lemma member_value_good:
  assumes pv: "pv_ok pv n" and wf: "wfb b1" "offset b1 < plength b1" "plength b1 - offset b1 \<le> n"
    and item: "blank item"
  shows "pgood item (buffer_skip_whitespace (advance b1)) (pv item (buffer_skip_whitespace (advance b1)))"
    "Suc (offset b1) \<le> offset (buffer_skip_whitespace (advance b1))"
proof -
  have a: "advance b1 = advance (b1\<lparr>hooks := hooks b1\<rparr>)" by simp
  have e: "wfb (buffer_skip_whitespace (advance b1))" "Suc (offset b1) \<le> offset (buffer_skip_whitespace (advance b1))"
    using enter_wfb [OF wf(1,2), of "hooks b1"] by (simp_all only: a [symmetric])
  then show "pgood item (buffer_skip_whitespace (advance b1)) (pv item (buffer_skip_whitespace (advance b1)))"
    using pv_okD [OF pv item e(1)] wf(2,3) by simp
  show "Suc (offset b1) \<le> offset (buffer_skip_whitespace (advance b1))" by (rule e(2))
qed

lemma parse_members_good:
  assumes pv: "pv_ok pv n"
  shows "blank item \<Longrightarrow> loop_inv cJSON_Object b0 k head b \<Longrightarrow> plength b - offset b \<le> n \<Longrightarrow>
    pgood item b0 (parse_members pv k item head b)"
proof (induction k arbitrary: head b)
  case 0
  then show ?case by (auto simp: loop_inv_def)
next
  case (Suc k)
  note inv = Suc.prems(2) [unfolded loop_inv_def]
  have wf: "wfb b" "offset b < plength b" using inv by auto
  show ?case
  proof (cases "cJSON_New_Item (hooks b)")
    case None
    with inv show ?thesis by (simp add: same_text_def)
  next
    case (Some p)
    obtain m where p: "p = (zero_item, m)" and m: "live m = live (hooks b) + 1"
      using Some New_Item_Some by (cases p) blast
    define b' where "b' = buffer_skip_whitespace (advance (b\<lparr>hooks := m\<rparr>))"
    have b': "wfb b'" "Suc (offset b) \<le> offset b'" "content b' = content b" "plength b' = plength b"
      "depth b' = depth b" "hooks b' = m"
      using enter_wfb [OF wf, of m] by (simp_all add: b'_def)
    show ?thesis
    proof (cases "can_access_at_index b 1")
      case False
      with Some inv m show ?thesis by (simp add: p same_text_def)
    next
      case True
      then have "offset (advance (b\<lparr>hooks := m\<rparr>)) < plength (advance (b\<lparr>hooks := m\<rparr>))"
        by (simp add: can_access_at_index_def)
      then have lt: "offset b' < plength b'" unfolding b'_def using skip_offset_lt by fastforce
      note ps = parse_string_progress [OF b'(1) lt, of zero_item]
      show ?thesis
      proof (cases "parse_string zero_item b'")
        case (PFail b1)
        with ps(4) [OF this] b' inv m Some True show ?thesis
          by (auto simp: p b'_def [symmetric] same_text_def)
      next
        case (POk named b1)
        define b2 where "b2 = buffer_skip_whitespace b1"
        define cur where "cur = swap_name named"
        obtain s where named: "named = set_valuestring (Some s) (set_type cJSON_String zero_item)"
          using ps(3) [OF POk] by blast
        have cur: "blank cur" "istring cur = Some s" "owned [cur] = 2"
          using owned_blank [of cur] by (simp_all add: cur_def named)
        have b2: "same_text b0 b2" "wfb b2" "offset b' < offset b2" "depth b2 = depth b"
          "live (hooks b2) = live (hooks b0) + owned (head @ [cur])"
          using ps(3) [OF POk] b' inv m skip_offset_ge [of b1] cur
          by (auto simp: b2_def same_text_def)
        define b3 where "b3 = buffer_skip_whitespace (advance b2)"
        have go: "parse_members pv (Suc k) item head b =
          (if peek b2 \<noteq> Some (CHR '':'') then PFail (delete_chain (head @ [cur]) b2)
           else case pv cur b3 of
               POk value_item b3 \<Rightarrow>
                 (let b4 = buffer_skip_whitespace b3; head' = head @ [value_item]
                  in if peek b4 = Some (CHR '','') then parse_members pv k item head' b4
                     else if peek b4 = Some (CHR ''}'') then parse_success cJSON_Object item head' b4
                     else PFail (delete_chain head' b4))
             | PFail b3 \<Rightarrow> PFail (delete_chain (head @ [cur]) b3)
             | PCrash \<Rightarrow> PCrash
             | PFuel \<Rightarrow> PFuel)"
          using Some POk True by (simp add: p b'_def [symmetric] b2_def b3_def cur_def Let_def split: pres.split)
        show ?thesis
        proof (cases "peek b2 = Some (CHR '':'')")
          case False
          with b2 inv show ?thesis unfolding go by (auto simp: same_text_def wfb_def)
        next
          case True
          then have lt2: "offset b2 < plength b2" by (simp add: peek_Some)
          have fuel: "plength b2 - offset b2 \<le> n" using b2 b' inv Suc.prems(3) by (auto simp: same_text_def)
          note g = member_value_good [OF pv b2(2) lt2 fuel cur(1), folded b3_def]
          have b3: "content b3 = content b2" "plength b3 = plength b2" "depth b3 = depth b2" "hooks b3 = hooks b2"
            by (simp_all add: b3_def)
          show ?thesis
          proof (cases "pv cur b3")
            case (PFail b4)
            with g True b2 b3 inv show ?thesis unfolding go by (auto simp: same_text_def wfb_def)
          next
            case (POk v b4)
            have go': "parse_members pv (Suc k) item head b =
                (let b5 = buffer_skip_whitespace b4
                 in if peek b5 = Some (CHR '','') then parse_members pv k item (head @ [v]) b5
                    else if peek b5 = Some (CHR ''}'') then parse_success cJSON_Object item (head @ [v]) b5
                    else PFail (delete_chain (head @ [v]) b5))"
              unfolding go using True POk by (simp add: Let_def)
            have v: "same_text b0 b4" "wfb b4" "offset b < offset b4" "depth b4 = depth b"
              "live (hooks b4) = live (hooks b0) + owned (head @ [v])"
              "nesting v = 0 \<or> Suc (depth b0) + nesting v \<le> CJSON_NESTING_LIMIT"
              "wf_parsed v" "istring v \<noteq> None \<longleftrightarrow> cJSON_Object = cJSON_Object"
              using g POk b2 b3 b' inv cur by (auto simp: same_text_def)
            show ?thesis
              unfolding go'
            proof (rule turn_end_good [OF v(1-4) Suc.prems(2) v(5-8) Suc.prems(1)])
              fix b5
              assume "loop_inv cJSON_Object b0 k (head @ [v]) b5" "offset b \<le> offset b5" "plength b5 = plength b"
              then show "pgood item b0 (parse_members pv k item (head @ [v]) b5)"
                using Suc.prems(1,3) by (intro Suc.IH) simp_all
            qed simp
          qed (use g in auto)
        qed
      qed (use ps(1,2) in simp_all)
    qed
  qed
qed

lemma parse_container_good:
  assumes pv: "pv_ok pv n" and wf: "wfb b" "offset b < plength b" "plength b - offset b \<le> n"
    and item: "blank item" and d: "depth b < CJSON_NESTING_LIMIT"
    and b2: "b2 = buffer_skip_whitespace (advance (b\<lparr>depth := depth b + 1\<rparr>))"
    and ty: "ty = cJSON_Array \<or> ty = cJSON_Object"
    and loop: "\<And>b'. loop_inv ty b n [] b' \<Longrightarrow> plength b' - offset b' \<le> n \<Longrightarrow> pgood item b (loop b')"
  shows "pgood item b
    (if peek b2 = Some close then parse_success ty item [] b2
     else if \<not> can_access_at_index b2 0 then PFail (b2\<lparr>offset := offset b2 - 1\<rparr>)
     else loop (b2\<lparr>offset := offset b2 - 1\<rparr>))"
proof -
  have f: "content b2 = content b" "plength b2 = plength b" "depth b2 = Suc (depth b)" "hooks b2 = hooks b"
    by (simp_all add: b2)
  have "wfb (advance (b\<lparr>depth := depth b + 1\<rparr>))" using wf by (simp add: wfb_def)
  then have w: "wfb b2" by (simp add: b2)
  have off: "Suc (offset b) \<le> offset b2"
    using skip_offset_ge [of "advance (b\<lparr>depth := depth b + 1\<rparr>)"] by (simp add: b2)
  have "pgood item b (parse_success ty item [] b2)" if "peek b2 = Some close"
    using that w off f item ty d by (intro parse_success_good) (auto simp: peek_Some same_text_def)
  moreover have "pgood item b (PFail (b2\<lparr>offset := offset b2 - 1\<rparr>))"
    using f w by (auto simp: same_text_def wfb_def)
  moreover have "pgood item b (loop (b2\<lparr>offset := offset b2 - 1\<rparr>))" if "can_access_at_index b2 0"
  proof (rule loop)
    show "loop_inv ty b n [] (b2\<lparr>offset := offset b2 - 1\<rparr>)"
      using that f w off wf d by (auto simp: loop_inv_def same_text_def wfb_def can_access_at_index_def)
    show "plength (b2\<lparr>offset := offset b2 - 1\<rparr>) - offset (b2\<lparr>offset := offset b2 - 1\<rparr>) \<le> n"
      using f off wf by simp
  qed
  ultimately show ?thesis by simp
qed

lemma peek_head: "offset b < plength b \<Longrightarrow> peek (b\<lparr>depth := d\<rparr>) = Some (content b ! offset b)"
  by (simp add: peek_Some)

lemma parse_array_good:
  assumes "pv_ok pv n" "wfb b" "offset b < plength b" "plength b - offset b \<le> n" "blank item"
  shows "pgood item b (parse_array pv n item b)"
proof (cases "CJSON_NESTING_LIMIT \<le> depth b \<or> content b ! offset b \<noteq> CHR ''[''")
  case True
  with assms show ?thesis by (auto simp: parse_array_def rd_def Let_def same_text_def)
next
  case False
  define b2 where "b2 = buffer_skip_whitespace (advance (b\<lparr>depth := depth b + 1\<rparr>))"
  have eq: "parse_array pv n item b =
     (if peek b2 = Some (CHR '']'') then parse_success cJSON_Array item [] b2
      else if \<not> can_access_at_index b2 0 then PFail (b2\<lparr>offset := offset b2 - 1\<rparr>)
      else parse_elements pv n item [] (b2\<lparr>offset := offset b2 - 1\<rparr>))"
    using False assms(3) by (simp add: rd_def parse_array_def Let_def b2_def)
  show ?thesis
    unfolding eq using False assms
    by (intro parse_container_good [where n = n] parse_elements_good [where n = n]) (simp_all add: b2_def)
qed

lemma parse_object_good:
  assumes "pv_ok pv n" "wfb b" "offset b < plength b" "plength b - offset b \<le> n" "blank item"
  shows "pgood item b (parse_object pv n item b)"
proof (cases "CJSON_NESTING_LIMIT \<le> depth b \<or> content b ! offset b \<noteq> CHR ''{''")
  case True
  with assms show ?thesis
    by (auto simp: parse_object_def peek_def can_access_at_index_def Let_def same_text_def)
next
  case False
  define b2 where "b2 = buffer_skip_whitespace (advance (b\<lparr>depth := depth b + 1\<rparr>))"
  have eq: "parse_object pv n item b =
     (if peek b2 = Some (CHR ''}'') then parse_success cJSON_Object item [] b2
      else if \<not> can_access_at_index b2 0 then PFail (b2\<lparr>offset := offset b2 - 1\<rparr>)
      else parse_members pv n item [] (b2\<lparr>offset := offset b2 - 1\<rparr>))"
    using False assms(3) by (simp add: peek_head parse_object_def Let_def b2_def)
  show ?thesis
    unfolding eq using False assms
    by (intro parse_container_good [where n = n] parse_members_good [where n = n]) (simp_all add: b2_def)
qed

lemma parse_literal_good:
  assumes "starts b lit" "length lit = l" "0 < l" "blank item" "wfb b" "t \<in> {cJSON_NULL, cJSON_False, cJSON_True}"
  shows "pgood item b (POk (set_type t item) (b\<lparr>offset := offset b + l\<rparr>))"
    "pgood item b (POk (set_valueint 1 (set_type t item)) (b\<lparr>offset := offset b + l\<rparr>))"
proof -
  have l: "offset b + l \<le> plength b" using assms(1,2) by (simp add: starts_def can_read_def)
  obtain ty vi vd k where item: "item = CJSON ty None vi vd k []" "ty = 0 \<or> ty = cJSON_String"
      and vi: "INT_MIN \<le> vi" "vi \<le> INT_MAX"
    using assms(4) by (cases item) (auto simp: blank_def)
  have t: "t AND cJSON_IsReference = 0" "t AND cJSON_StringIsConst = 0" "t \<noteq> cJSON_Array" "t \<noteq> cJSON_Object"
      "t \<in> {cJSON_False, cJSON_True, cJSON_NULL}" "t \<noteq> cJSON_String"
    using assms(6) by (auto simp: type_defs)
  have o: "ty AND cJSON_IsReference = 0" "ty AND cJSON_StringIsConst = 0"
    using item(2) by (auto simp: type_defs)
  show "pgood item b (POk (set_type t item) (b\<lparr>offset := offset b + l\<rparr>))"
    using l t o vi assms(3,5) item(1) by (auto simp: same_text_def wfb_def)
  show "pgood item b (POk (set_valueint 1 (set_type t item)) (b\<lparr>offset := offset b + l\<rparr>))"
    using l t o vi assms(3,5) item(1) by (auto simp: same_text_def wfb_def)
qed

lemma pgood_number:
  assumes "blank item" "wfb b"
  shows "pgood item b (parse_number item b)"
proof (cases "parse_number item b")
  case (POk v b')
  then obtain n where
    "v = set_type cJSON_Number (set_valueint (double_to_valueint n) (set_valuedouble n item))"
    by (auto simp: parse_number_def Let_def split: option.splits prod.splits if_splits)
  with POk parse_number_progress(3) [OF assms(2) POk] assms show ?thesis
    by (cases item) (auto simp: blank_def type_defs double_to_valueint_range)
next
  case (PFail b')
  with parse_number_progress(4) [OF assms(2) PFail] assms show ?thesis by (simp add: wfb_def)
qed (use parse_number_progress(1,2) [OF assms(2), of item] in simp_all)

lemma pgood_string:
  assumes "blank item" "wfb b" "offset b < plength b"
  shows "pgood item b (parse_string item b)"
proof (cases "parse_string item b")
  case (POk v b')
  with parse_string_progress(3) [OF assms(2,3) POk] assms show ?thesis
    by (cases item) (auto simp: blank_def type_defs)
next
  case (PFail b')
  with parse_string_progress(4) [OF assms(2,3) PFail] show ?thesis by simp
qed (use parse_string_progress(1,2) [OF assms(2,3), of item] in simp_all)

lemma parse_value_good: "pv_ok (parse_value n) n"
proof (induction n)
  case 0
  show ?case by (simp add: pv_ok_def)
next
  case (Suc n)
  show ?case
    unfolding pv_ok_def
  proof (intro allI impI, elim conjE)
    fix item b
    assume a: "blank item" "wfb b" "plength b - offset b < Suc n"
    show "pgood item b (parse_value (Suc n) item b)"
    proof (cases "starts b ''null'' \<or> starts b ''false'' \<or> starts b ''true''")
      case True
      have "pgood item b (POk (set_type cJSON_NULL item) (b\<lparr>offset := offset b + 4\<rparr>))" if "starts b ''null''"
        using a by (intro parse_literal_good(1) [OF that]) simp_all
      moreover have "pgood item b (POk (set_type cJSON_False item) (b\<lparr>offset := offset b + 5\<rparr>))" if "starts b ''false''"
        using a by (intro parse_literal_good(1) [OF that]) simp_all
      moreover have "pgood item b (POk (set_valueint 1 (set_type cJSON_True item)) (b\<lparr>offset := offset b + 4\<rparr>))"
        if "starts b ''true''"
        using a by (intro parse_literal_good(2) [OF that]) simp_all
      ultimately show ?thesis using True
        by (cases "starts b ''null''"; cases "starts b ''false''") (simp_all del: pgood.simps)
    next
      case False
      show ?thesis
      proof (cases "peek b")
        case None
        with False a show ?thesis by (simp add: same_text_def wfb_def)
      next
        case (Some c)
        then have lt: "offset b < plength b" by (simp add: peek_Some)
        have "plength b - offset b \<le> n" using a by simp
        note cs = parse_array_good [OF Suc a(2) lt this a(1)] parse_object_good [OF Suc a(2) lt this a(1)]
        show ?thesis
          using False Some cs pgood_number [OF a(1,2)] pgood_string [OF a(1,2) lt] a
          by (simp add: same_text_def wfb_def)
      qed
    qed
  qed
qed

subsection \<open>The entry points\<close>

lemma parse_value_enough_fuel:
  "blank item \<Longrightarrow> wfb b \<Longrightarrow> plength b - offset b < n \<Longrightarrow> pgood item b (parse_value n item b)"
  using parse_value_good pv_okD by blast

text \<open>
  What a caller sees: no crash and no lack of fuel, a position inside the text, a tree within
  the nesting limit, and an allocator that holds exactly the tree (or nothing, on an error).
\<close>

fun outcome_ok :: "nat \<Rightarrow> mem \<Rightarrow> parse_outcome \<Rightarrow> bool" where
  "outcome_ok n m (Parsed v e m') \<longleftrightarrow>
     0 < e \<and> e \<le> n \<and> live m' = live m + owned [v] \<and> nesting v \<le> CJSON_NESTING_LIMIT \<and> istring v = None
     \<and> wf_parsed v"
| "outcome_ok n m (ParseError e m') \<longleftrightarrow> (e < n \<or> e = 0) \<and> live m' = live m"

lemma parse_fail_ok: "plength b = n \<Longrightarrow> live (hooks b) = live m + 1 \<Longrightarrow> outcome_ok n m (parse_fail b)"
  by (simp add: parse_fail_def)

lemma ParseWithLengthOpts_ok:
  assumes n: "n \<le> length value"
  shows "\<exists>r. cJSON_ParseWithLengthOpts value n req m = Some r \<and> outcome_ok n m r"
proof (cases "n = 0 \<or> cJSON_New_Item m = None")
  case True
  then show ?thesis by (auto simp: cJSON_ParseWithLengthOpts_def)
next
  case False
  then obtain item m' where "cJSON_New_Item m = Some (item, m')" and pos: "0 < n" by auto
  with New_Item_Some have new: "cJSON_New_Item m = Some (zero_item, m')" and m': "live m' = live m + 1" by blast+
  define b0 where "b0 = \<lparr>content = value, plength = n, offset = 0, depth = 0, hooks = m'\<rparr>"
  obtain b1 where bom: "skip_utf8_bom b0 = Some b1"
    by (cases "skip_utf8_bom b0") (auto simp: skip_utf8_bom_def b0_def split: if_splits)
  have b1: "wfb b1" "plength b1 = n" "depth b1 = 0" "hooks b1 = m'"
    using bom n by (auto simp: skip_utf8_bom_def b0_def wfb_def can_access_at_index_def split: if_splits)
  define b2 where "b2 = buffer_skip_whitespace b1"
  have b2: "wfb b2" "plength b2 = n" "depth b2 = 0" "hooks b2 = m'" "plength b2 - offset b2 < parse_fuel n"
    using b1 by (simp_all add: b2_def parse_fuel_def)
  note g = parse_value_enough_fuel [OF blank_zero_item b2(1,5)]
  have run: "cJSON_ParseWithLengthOpts value n req m =
    (case parse_value (parse_fuel n) zero_item b2 of
       PCrash \<Rightarrow> None | PFuel \<Rightarrow> None | PFail b' \<Rightarrow> Some (parse_fail b')
     | POk v b' \<Rightarrow>
         if req then
           let b'' = buffer_skip_whitespace b'
           in if peek b'' \<noteq> Some NUL
              then Some (ParseError (if offset b'' < plength b'' then offset b'' else plength b'' - 1)
                           (cJSON_Delete [v] (hooks b'')))
              else Some (Parsed v (offset b'') (hooks b''))
         else Some (Parsed v (offset b') (hooks b')))"
    using pos new bom unfolding cJSON_ParseWithLengthOpts_def by (simp add: b0_def b2_def)
  show ?thesis
  proof (cases "parse_value (parse_fuel n) zero_item b2")
    case (POk v b')
    define b3 where "b3 = buffer_skip_whitespace b'"
    have v: "plength b' = n" "wfb b'" "0 < offset b'" "live (hooks b') = live m + owned [v]"
      "nesting v \<le> CJSON_NESTING_LIMIT" "istring v = None" "wf_parsed v"
      using g POk b2 m' by (auto simp: same_text_def zero_item_def)
    have b3: "plength b3 = n" "wfb b3" "0 < offset b3" "hooks b3 = hooks b'"
      using v skip_offset_ge [of b'] by (simp_all add: b3_def)
    from v b3 POk pos show ?thesis
      unfolding run by (simp add: b3_def [symmetric] wfb_def Let_def)
  next
    case (PFail b')
    with g b2 m' show ?thesis
      unfolding run using parse_fail_ok [of b' n m] by (simp add: same_text_def)
  qed (use g in simp_all)
qed

subsection \<open>Properties\<close>

text \<open>C3: \<open>cJSON_ParseWithLengthOpts\<close> is total and safe on every text: it never reads outside the
  stated length, never writes past the string it allocates, and returns with enough fuel. A
  success stops inside the text with a well-formed tree of nesting at most 1000 and has allocated
  exactly that tree; a failure, an exhausted allocator included, has freed everything.\<close>

theorem cJSON_ParseWithLengthOpts_safe:
  assumes "n \<le> length value"
  shows "\<exists>r. cJSON_ParseWithLengthOpts value n req m = Some r \<and> outcome_ok n m r"
  by (rule ParseWithLengthOpts_ok [OF assms])

theorem cJSON_ParseWithLengthOpts_safe_witness:
  "\<exists>r. cJSON_ParseWithLengthOpts ''[1,2'' 4 False \<lparr>budget = 5, live = 0\<rparr> = Some r
       \<and> outcome_ok 4 \<lparr>budget = 5, live = 0\<rparr> r"
  by (rule cJSON_ParseWithLengthOpts_safe) simp

end
