(* ===== verification/CJson_Access.thy ===== *)
theory CJson_Access
  imports CJson_Data
begin

text \<open>
  Reading and building trees in \<open>cJSON.c\<close>: the type tests, \<open>cJSON_GetStringValue\<close> and its
  siblings, array and object lookup, the \<open>cJSON_Create...\<close> family, the setters and
  \<open>cJSON_Duplicate\<close>. A possibly-NULL pointer is an option.
\<close>

subsection \<open>Type tests\<close>

definition type_is :: "int \<Rightarrow> cJSON option \<Rightarrow> bool" where
  "type_is t item = (case item of None \<Rightarrow> False | Some i \<Rightarrow> itype i AND 0xFF = t)"

definition cJSON_IsInvalid :: "cJSON option \<Rightarrow> bool" where "cJSON_IsInvalid = type_is cJSON_Invalid"
definition cJSON_IsFalse :: "cJSON option \<Rightarrow> bool" where "cJSON_IsFalse = type_is cJSON_False"
definition cJSON_IsTrue :: "cJSON option \<Rightarrow> bool" where "cJSON_IsTrue = type_is cJSON_True"
definition cJSON_IsBool :: "cJSON option \<Rightarrow> bool" where
  "cJSON_IsBool item =
     (case item of None \<Rightarrow> False | Some i \<Rightarrow> itype i AND (cJSON_True OR cJSON_False) \<noteq> 0)"
definition cJSON_IsNull :: "cJSON option \<Rightarrow> bool" where "cJSON_IsNull = type_is cJSON_NULL"
definition cJSON_IsNumber :: "cJSON option \<Rightarrow> bool" where "cJSON_IsNumber = type_is cJSON_Number"
definition cJSON_IsString :: "cJSON option \<Rightarrow> bool" where "cJSON_IsString = type_is cJSON_String"
definition cJSON_IsArray :: "cJSON option \<Rightarrow> bool" where "cJSON_IsArray = type_is cJSON_Array"
definition cJSON_IsObject :: "cJSON option \<Rightarrow> bool" where "cJSON_IsObject = type_is cJSON_Object"
definition cJSON_IsRaw :: "cJSON option \<Rightarrow> bool" where "cJSON_IsRaw = type_is cJSON_Raw"

lemmas Is_defs = cJSON_IsInvalid_def cJSON_IsFalse_def cJSON_IsTrue_def cJSON_IsBool_def cJSON_IsNull_def
  cJSON_IsNumber_def cJSON_IsString_def cJSON_IsArray_def cJSON_IsObject_def cJSON_IsRaw_def type_is_def

definition cJSON_GetStringValue :: "cJSON option \<Rightarrow> string option" where
  "cJSON_GetStringValue item = (if \<not> cJSON_IsString item then None else valuestring (the item))"

definition cJSON_GetNumberValue :: "cJSON option \<Rightarrow> double" where
  "cJSON_GetNumberValue item = (if \<not> cJSON_IsNumber item then DNaN else valuedouble (the item))"

subsection \<open>Array and object lookup\<close>

text \<open>The count is a \<open>size_t\<close> cast to \<open>int\<close>.\<close>

definition cJSON_GetArraySize :: "cJSON option \<Rightarrow> int" where
  "cJSON_GetArraySize array =
     (case array of None \<Rightarrow> 0 | Some a \<Rightarrow> sint (word_of_nat (length (child a)) :: 32 word))"

fun walk_index :: "cJSON list \<Rightarrow> nat \<Rightarrow> cJSON option" where
  "walk_index [] index = None"
| "walk_index (c # next) index = (if index > 0 then walk_index next (index - 1) else Some c)"

definition get_array_item :: "cJSON option \<Rightarrow> nat \<Rightarrow> cJSON option" where
  "get_array_item array index = (case array of None \<Rightarrow> None | Some a \<Rightarrow> walk_index (child a) index)"

definition cJSON_GetArrayItem :: "cJSON option \<Rightarrow> int \<Rightarrow> cJSON option" where
  "cJSON_GetArrayItem array index = (if index < 0 then None else get_array_item array (nat index))"

definition tolower :: "char \<Rightarrow> nat" where
  "tolower c = (if 65 \<le> ord c \<and> ord c \<le> 90 then ord c + 32 else ord c)"

fun strcasecmp_loop :: "string \<Rightarrow> string \<Rightarrow> int" where
  "strcasecmp_loop [] [] = 0"
| "strcasecmp_loop [] (d # ds) = - int (tolower d)"
| "strcasecmp_loop (c # cs) [] = int (tolower c)"
| "strcasecmp_loop (c # cs) (d # ds) =
     (if tolower c = tolower d then strcasecmp_loop cs ds else int (tolower c) - int (tolower d))"

definition case_insensitive_strcmp :: "string option \<Rightarrow> string option \<Rightarrow> int" where
  "case_insensitive_strcmp string1 string2 =
     (case (string1, string2) of (Some a, Some b) \<Rightarrow> strcasecmp_loop a b | _ \<Rightarrow> 1)"

fun find_case_sensitive :: "string \<Rightarrow> cJSON list \<Rightarrow> cJSON option" where
  "find_case_sensitive name [] = None"
| "find_case_sensitive name (c # next) =
     (if istring c \<noteq> None \<and> istring c \<noteq> Some name then find_case_sensitive name next else Some c)"

fun find_case_insensitive :: "string \<Rightarrow> cJSON list \<Rightarrow> cJSON option" where
  "find_case_insensitive name [] = None"
| "find_case_insensitive name (c # next) =
     (if case_insensitive_strcmp (Some name) (istring c) \<noteq> 0 then find_case_insensitive name next else Some c)"

definition get_object_item :: "cJSON option \<Rightarrow> string option \<Rightarrow> bool \<Rightarrow> cJSON option" where
  "get_object_item object name case_sensitive =
     (case (object, name) of
        (Some ob, Some nm) \<Rightarrow>
          (case (if case_sensitive then find_case_sensitive nm (child ob)
                 else find_case_insensitive nm (child ob)) of
             None \<Rightarrow> None
           | Some current_element \<Rightarrow> if istring current_element = None then None else Some current_element)
      | _ \<Rightarrow> None)"

definition cJSON_GetObjectItem :: "cJSON option \<Rightarrow> string option \<Rightarrow> cJSON option" where
  "cJSON_GetObjectItem object s = get_object_item object s False"

definition cJSON_GetObjectItemCaseSensitive :: "cJSON option \<Rightarrow> string option \<Rightarrow> cJSON option" where
  "cJSON_GetObjectItemCaseSensitive object s = get_object_item object s True"

definition cJSON_HasObjectItem :: "cJSON option \<Rightarrow> string option \<Rightarrow> bool" where
  "cJSON_HasObjectItem object s \<longleftrightarrow> cJSON_GetObjectItem object s \<noteq> None"

lemma walk_index_nth: "walk_index xs i = (if i < length xs then Some (xs ! i) else None)"
  by (induction xs i rule: walk_index.induct) auto

text \<open>Lookup finds the first child of the name, provided no child before it is nameless.\<close>

lemma find_case_sensitive_find:
  "\<forall>c \<in> set xs. istring c \<noteq> None \<Longrightarrow> find_case_sensitive nm xs = find (\<lambda>c. istring c = Some nm) xs"
  by (induction xs) auto

lemma GetObjectItemCaseSensitive_find:
  assumes "\<forall>c \<in> set (child ob). istring c \<noteq> None"
  shows "cJSON_GetObjectItemCaseSensitive (Some ob) (Some nm) = find (\<lambda>c. istring c = Some nm) (child ob)"
proof -
  have "istring c \<noteq> None" if "find (\<lambda>c. istring c = Some nm) (child ob) = Some c" for c
    using that by (auto simp: find_Some_iff)
  then show ?thesis
    using assms by (auto simp: cJSON_GetObjectItemCaseSensitive_def get_object_item_def
        find_case_sensitive_find split: option.splits)
qed

lemma find_case_sensitive_mem: "find_case_sensitive nm xs = Some c \<Longrightarrow> c \<in> set xs"
  by (induction xs) (auto split: if_splits)

lemma GetObjectItemCaseSensitive_mem:
  "cJSON_GetObjectItemCaseSensitive (Some ob) nm = Some c \<Longrightarrow> c \<in> set (child ob)"
  by (auto simp: cJSON_GetObjectItemCaseSensitive_def get_object_item_def dest: find_case_sensitive_mem
      split: option.splits if_splits)

subsection \<open>Setters and creation\<close>

definition cJSON_SetNumberHelper :: "cJSON \<Rightarrow> double \<Rightarrow> cJSON \<times> double" where
  "cJSON_SetNumberHelper ob number =
     (set_valuedouble number (set_valueint (double_to_valueint number) ob), number)"

text \<open>
  \<open>cJSON_SetValuestring\<close>: \<open>overlap\<close> is the pointer test between the argument and the item's
  own string. The result is the item, the allocator and the returned string.
\<close>

definition cJSON_SetValuestring ::
  "cJSON option \<Rightarrow> string option \<Rightarrow> bool \<Rightarrow> mem \<Rightarrow> cJSON option \<times> mem \<times> string option" where
  "cJSON_SetValuestring ob vs overlap m =
     (case ob of
        None \<Rightarrow> (ob, m, None)
      | Some item \<Rightarrow>
          if itype item AND cJSON_String = 0 \<or> itype item AND cJSON_IsReference \<noteq> 0 then (ob, m, None)
          else (case (valuestring item, vs) of
                  (Some old, Some new) \<Rightarrow>
                    if length new \<le> length old then
                      if overlap then (ob, m, None)
                      else (Some (set_valuestring (Some new) item), m, Some new)
                    else (case cJSON_strdup (Some new) m of
                            None \<Rightarrow> (ob, m, None)
                          | Some (copy, m') \<Rightarrow>
                              (Some (set_valuestring (Some copy) item), deallocate m', Some copy))
                | _ \<Rightarrow> (ob, m, None)))"

definition create_typed :: "int \<Rightarrow> mem \<Rightarrow> (cJSON \<times> mem) option" where
  "create_typed t m = map_option (\<lambda>(i, m'). (set_type t i, m')) (cJSON_New_Item m)"

definition cJSON_CreateNull :: "mem \<Rightarrow> (cJSON \<times> mem) option" where "cJSON_CreateNull = create_typed cJSON_NULL"
definition cJSON_CreateTrue :: "mem \<Rightarrow> (cJSON \<times> mem) option" where "cJSON_CreateTrue = create_typed cJSON_True"
definition cJSON_CreateFalse :: "mem \<Rightarrow> (cJSON \<times> mem) option" where "cJSON_CreateFalse = create_typed cJSON_False"
definition cJSON_CreateBool :: "bool \<Rightarrow> mem \<Rightarrow> (cJSON \<times> mem) option" where
  "cJSON_CreateBool bl = create_typed (if bl then cJSON_True else cJSON_False)"
definition cJSON_CreateArray :: "mem \<Rightarrow> (cJSON \<times> mem) option" where "cJSON_CreateArray = create_typed cJSON_Array"
definition cJSON_CreateObject :: "mem \<Rightarrow> (cJSON \<times> mem) option" where "cJSON_CreateObject = create_typed cJSON_Object"

definition cJSON_CreateNumber :: "double \<Rightarrow> mem \<Rightarrow> (cJSON \<times> mem) option" where
  "cJSON_CreateNumber num m =
     map_option (\<lambda>(i, m'). (set_valueint (double_to_valueint num) (set_valuedouble num (set_type cJSON_Number i)), m'))
       (cJSON_New_Item m)"

text \<open>A failure frees the new item: the second component is the allocator afterwards.\<close>

definition create_stringlike :: "int \<Rightarrow> string option \<Rightarrow> mem \<Rightarrow> cJSON option \<times> mem" where
  "create_stringlike t s m =
     (case cJSON_New_Item m of
        None \<Rightarrow> (None, m)
      | Some (item, m1) \<Rightarrow>
          let item = set_type t item
          in case cJSON_strdup s m1 of
               None \<Rightarrow> (None, cJSON_Delete [item] m1)
             | Some (copy, m2) \<Rightarrow> (Some (set_valuestring (Some copy) item), m2))"

definition cJSON_CreateString :: "string option \<Rightarrow> mem \<Rightarrow> cJSON option \<times> mem" where
  "cJSON_CreateString = create_stringlike cJSON_String"

definition cJSON_CreateRaw :: "string option \<Rightarrow> mem \<Rightarrow> cJSON option \<times> mem" where
  "cJSON_CreateRaw = create_stringlike cJSON_Raw"

definition cJSON_CreateStringReference :: "string option \<Rightarrow> mem \<Rightarrow> (cJSON \<times> mem) option" where
  "cJSON_CreateStringReference s m =
     map_option (\<lambda>(i, m'). (set_valuestring s (set_type (cJSON_String OR cJSON_IsReference) i), m')) (cJSON_New_Item m)"

definition cJSON_CreateObjectReference :: "cJSON list \<Rightarrow> mem \<Rightarrow> (cJSON \<times> mem) option" where
  "cJSON_CreateObjectReference ch m =
     map_option (\<lambda>(i, m'). (set_child ch (set_type (cJSON_Object OR cJSON_IsReference) i), m')) (cJSON_New_Item m)"

definition cJSON_CreateArrayReference :: "cJSON list \<Rightarrow> mem \<Rightarrow> (cJSON \<times> mem) option" where
  "cJSON_CreateArrayReference ch m =
     map_option (\<lambda>(i, m'). (set_child ch (set_type (cJSON_Array OR cJSON_IsReference) i), m')) (cJSON_New_Item m)"

text \<open>
  The array builders share their loop: \<open>mk\<close> creates an element; a failure deletes the array
  built so far.
\<close>

fun fill_array :: "('a \<Rightarrow> mem \<Rightarrow> cJSON option \<times> mem) \<Rightarrow> cJSON \<Rightarrow> 'a list \<Rightarrow> mem \<Rightarrow> cJSON option \<times> mem" where
  "fill_array mk a [] m = (Some a, m)"
| "fill_array mk a (x # xs) m =
     (case mk x m of
        (None, m') \<Rightarrow> (None, cJSON_Delete [a] m')
      | (Some n, m') \<Rightarrow> fill_array mk (set_child (child a @ [n]) a) xs m')"

definition create_array :: "('a \<Rightarrow> mem \<Rightarrow> cJSON option \<times> mem) \<Rightarrow> 'a list option \<Rightarrow> int \<Rightarrow> mem \<Rightarrow> cJSON option \<times> mem" where
  "create_array mk numbers count m =
     (case numbers of
        None \<Rightarrow> (None, m)
      | Some xs \<Rightarrow>
          if count < 0 then (None, m)
          else (case cJSON_CreateArray m of
                  None \<Rightarrow> (None, m)
                | Some (a, m') \<Rightarrow> fill_array mk a (take (nat count) xs) m'))"

definition mk_number :: "double \<Rightarrow> mem \<Rightarrow> cJSON option \<times> mem" where
  "mk_number d m = (case cJSON_CreateNumber d m of None \<Rightarrow> (None, m) | Some (i, m') \<Rightarrow> (Some i, m'))"

definition cJSON_CreateIntArray :: "int list option \<Rightarrow> int \<Rightarrow> mem \<Rightarrow> cJSON option \<times> mem" where
  "cJSON_CreateIntArray = create_array (\<lambda>n. mk_number (dbl_of_int n))"

definition cJSON_CreateDoubleArray :: "double list option \<Rightarrow> int \<Rightarrow> mem \<Rightarrow> cJSON option \<times> mem" where
  "cJSON_CreateDoubleArray = create_array mk_number"

text \<open>A \<open>float\<close> is exact as a \<open>double\<close>.\<close>

definition cJSON_CreateFloatArray :: "double list option \<Rightarrow> int \<Rightarrow> mem \<Rightarrow> cJSON option \<times> mem" where
  "cJSON_CreateFloatArray = create_array mk_number"

definition cJSON_CreateStringArray :: "string option list option \<Rightarrow> int \<Rightarrow> mem \<Rightarrow> cJSON option \<times> mem" where
  "cJSON_CreateStringArray = create_array cJSON_CreateString"

subsection \<open>Duplication\<close>

text \<open>
  \<open>copy_fields\<close> is the part of \<open>cJSON_Duplicate_rec\<close> before the children; its second
  component \<open>False\<close> is the jump to \<open>fail\<close> with the item built so far.
\<close>

definition copy_fields :: "cJSON \<Rightarrow> cJSON \<Rightarrow> mem \<Rightarrow> cJSON \<times> bool \<times> mem" where
  "copy_fields item newitem m =
     (let newitem = set_valuedouble (valuedouble item) (set_valueint (valueint item)
                      (set_type (itype item AND NOT cJSON_IsReference) newitem))
      in case (case valuestring item of None \<Rightarrow> Some (None, m)
               | Some s \<Rightarrow> map_option (\<lambda>(c, m'). (Some c, m')) (cJSON_strdup (Some s) m)) of
           None \<Rightarrow> (newitem, False, m)
         | Some (vs, m1) \<Rightarrow>
             let newitem = set_valuestring vs newitem
             in case (case istring item of None \<Rightarrow> Some (None, m1)
                      | Some k \<Rightarrow> if itype item AND cJSON_StringIsConst \<noteq> 0 then Some (Some k, m1)
                                else map_option (\<lambda>(c, m'). (Some c, m')) (cJSON_strdup (Some k) m1)) of
                  None \<Rightarrow> (newitem, False, m1)
                | Some (k, m2) \<Rightarrow> (set_string k newitem, True, m2))"

function (sequential) cJSON_Duplicate_rec :: "cJSON \<Rightarrow> nat \<Rightarrow> bool \<Rightarrow> mem \<Rightarrow> cJSON option \<times> mem"
  and duplicate_children :: "cJSON \<Rightarrow> cJSON list \<Rightarrow> nat \<Rightarrow> mem \<Rightarrow> cJSON option \<times> mem" where
  "cJSON_Duplicate_rec item depth recurse m =
     (case cJSON_New_Item m of
        None \<Rightarrow> (None, m)
      | Some (new0, m0) \<Rightarrow>
          (case copy_fields item new0 m0 of (newitem, ok, m1) \<Rightarrow>
             if \<not> ok then (None, cJSON_Delete [newitem] m1)
             else if \<not> recurse then (Some newitem, m1)
             else duplicate_children newitem (child item) depth m1))"
| "duplicate_children newitem [] depth m = (Some newitem, m)"
| "duplicate_children newitem (c # next) depth m =
     (if CJSON_CIRCULAR_LIMIT \<le> depth then (None, cJSON_Delete [newitem] m)
      else case cJSON_Duplicate_rec c (depth + 1) True m of
             (None, m1) \<Rightarrow> (None, cJSON_Delete [newitem] m1)
           | (Some newchild, m1) \<Rightarrow>
               duplicate_children (set_child (child newitem @ [newchild]) newitem) next depth m1)"
  by pat_completeness auto
termination
proof (relation "measure (\<lambda>x. case x of Inl (i, _) \<Rightarrow> 2 * size i | Inr (_, ch, _) \<Rightarrow> Suc (2 * size_list size ch))", goal_cases)
  case (2 item depth recurse m a new0 m0 x newitem ok m1)
  then show ?case by (cases item) simp
qed (auto split: prod.splits)

definition cJSON_Duplicate :: "cJSON option \<Rightarrow> bool \<Rightarrow> mem \<Rightarrow> cJSON option \<times> mem" where
  "cJSON_Duplicate item recurse m =
     (case item of None \<Rightarrow> (None, m) | Some i \<Rightarrow> cJSON_Duplicate_rec i 0 recurse m)"

declare cJSON_Duplicate_rec.simps [simp del]

text \<open>What a duplicate is: the same tree without the reference flags.\<close>

fun unreference :: "cJSON \<Rightarrow> cJSON" where
  "unreference (CJSON ty vs vi vd k ch) =
     CJSON (ty AND NOT cJSON_IsReference) vs vi vd k (map unreference ch)"

lemma flags_cleared:
  "(ty AND NOT cJSON_IsReference) AND cJSON_IsReference = 0"
  "(ty AND NOT cJSON_IsReference) AND cJSON_StringIsConst = ty AND cJSON_StringIsConst" for ty :: int
proof -
  show "(ty AND NOT cJSON_IsReference) AND cJSON_IsReference = 0"
    by (rule bit_eqI) (simp add: bit_and_iff bit_not_iff)
  have "bit cJSON_StringIsConst n \<Longrightarrow> \<not> bit cJSON_IsReference n" for n
    using bit_exp_iff [where ?'a = int, of 9 n] bit_exp_iff [where ?'a = int, of 8 n] by (simp add: type_defs)
  then show "(ty AND NOT cJSON_IsReference) AND cJSON_StringIsConst = ty AND cJSON_StringIsConst"
    by (intro bit_eqI) (auto simp: bit_and_iff bit_not_iff)
qed

text \<open>
  Duplication never leaks: a success owns exactly its copy, a failure gives back everything.
\<close>

definition balanced :: "mem \<Rightarrow> cJSON option \<times> mem \<Rightarrow> bool" where
  "balanced m r \<longleftrightarrow> live (snd r) = live m + (case fst r of None \<Rightarrow> 0 | Some i \<Rightarrow> owned [i])"

lemma strdup_live: "cJSON_strdup s m = Some (c, m') \<Longrightarrow> live m' = live m + 1 \<and> s = Some c"
  by (auto simp: cJSON_strdup_def split: option.splits dest: allocate_Some)

lemma New_Item_live: "cJSON_New_Item m = Some (i, m') \<Longrightarrow> i = zero_item \<and> live m' = live m + 1"
  by (auto simp: cJSON_New_Item_def split: option.splits dest: allocate_Some)

lemma copy_fields_balanced:
  "copy_fields item zero_item m = (newitem, ok, m') \<Longrightarrow>
   live m' + 1 = live m + owned [newitem] \<and> child newitem = []
   \<and> (ok \<longrightarrow> newitem = set_child [] (unreference item))"
  by (cases item)
    (auto simp: copy_fields_def Let_def zero_item_def flags_cleared dest!: strdup_live split: option.splits if_splits)

lemma owned_set_child:
  "itype v AND cJSON_IsReference = 0 \<Longrightarrow> owned [set_child ch v] = owned [v] - owned (child v) + owned ch"
  by (cases v) simp

definition unref :: "cJSON \<Rightarrow> bool" where
  "unref v \<longleftrightarrow> itype v AND cJSON_IsReference = 0"

lemma unref_simps [simp]: "unref (set_child ch v) = unref v" "unref (unreference v)"
  by (cases v; simp add: unref_def flags_cleared)+

lemma set_child_id [simp]: "set_child (child v) v = v"
  by (cases v) simp

lemma child_set_child [simp]: "child (set_child ch v) = ch" "set_child ch (set_child ch' v) = set_child ch v"
  by (cases v; simp)+

lemma duplicate_balanced:
  "balanced m (cJSON_Duplicate_rec item depth recurse m)"
  "unref newitem \<Longrightarrow> live m1 = live m + owned [newitem] \<Longrightarrow> balanced m (duplicate_children newitem ch depth m1)"
proof (induction item depth recurse m and newitem ch depth m1 arbitrary: and m
    rule: cJSON_Duplicate_rec_duplicate_children.induct)
  case (1 item depth recurse m)
  show ?case
  proof (cases "cJSON_New_Item m")
    case None
    then show ?thesis by (simp add: balanced_def cJSON_Duplicate_rec.simps)
  next
    case (Some p)
    then obtain m0 where p: "p = (zero_item, m0)" "live m0 = live m + 1"
      using New_Item_live by (cases p) blast
    obtain newitem ok m1 where cf: "copy_fields item zero_item m0 = (newitem, ok, m1)" by (metis prod_cases3)
    note c = copy_fields_balanced [OF cf]
    have "balanced m (duplicate_children newitem (child item) depth m1)" if "ok" "recurse"
      using "1.IH" [OF Some, of zero_item m0 newitem "(ok, m1)" ok m1 m] p cf c that by simp
    with Some p cf c show ?thesis by (auto simp: balanced_def cJSON_Duplicate_rec.simps)
  qed
next
  case (2 newitem depth m1)
  then show ?case by (simp add: balanced_def)
next
  case (3 newitem c "next" depth m1)
  show ?case
  proof (cases "CJSON_CIRCULAR_LIMIT \<le> depth")
    case True
    with "3.prems" show ?thesis by (simp add: balanced_def)
  next
    case False
    obtain r m2 where rec: "cJSON_Duplicate_rec c (depth + 1) True m1 = (r, m2)" by fastforce
    from "3.IH"(1) [OF False] have b: "balanced m1 (r, m2)" by (simp only: rec)
    show ?thesis
    proof (cases r)
      case None
      with False rec b "3.prems" show ?thesis by (simp add: balanced_def)
    next
      case (Some nc)
      have "live m2 = live m + owned [set_child (child newitem @ [nc]) newitem]"
        using b Some "3.prems" by (simp add: balanced_def owned_set_child unref_def)
      with "3.IH"(2) [OF False, of r m2 nc m] False rec Some "3.prems" show ?thesis by simp
    qed
  qed
qed

lemma foldr_max_le: "foldr max (map f xs) 0 \<le> (n :: nat) \<longleftrightarrow> (\<forall>x \<in> set xs. f x \<le> n)"
  by (induction xs) auto

text \<open>A success is the faithful copy.\<close>

lemma duplicate_copies:
  "fst (cJSON_Duplicate_rec item depth recurse m) = Some v \<Longrightarrow> recurse \<Longrightarrow> v = unreference item"
  "fst (duplicate_children newitem ch depth m) = Some v \<Longrightarrow>
     v = set_child (child newitem @ map unreference ch) newitem"
proof (induction item depth recurse m and newitem ch depth m arbitrary: v and v
    rule: cJSON_Duplicate_rec_duplicate_children.induct)
  case (1 item depth recurse m)
  then obtain m0 where new: "cJSON_New_Item m = Some (zero_item, m0)"
    using New_Item_live by (auto simp: cJSON_Duplicate_rec.simps split: option.splits)
  obtain newitem ok m1 where cf: "copy_fields item zero_item m0 = (newitem, ok, m1)" by (metis prod_cases3)
  have ok: "ok" and v: "fst (duplicate_children newitem (child item) depth m1) = Some v"
    using "1.prems" new cf by (auto simp: cJSON_Duplicate_rec.simps split: if_splits)
  have "v = set_child (child newitem @ map unreference (child item)) newitem"
    using "1.IH" [OF new, of zero_item m0 newitem "(ok, m1)" ok m1 v] cf ok v "1.prems" by simp
  with copy_fields_balanced [OF cf] ok show ?case by (cases item) simp
next
  case (2 newitem depth m)
  then show ?case by simp
next
  case (3 newitem c "next" depth m)
  obtain r m2 where rec: "cJSON_Duplicate_rec c (depth + 1) True m = (r, m2)" by fastforce
  from "3.prems" obtain nc where d: "\<not> CJSON_CIRCULAR_LIMIT \<le> depth" and r: "r = Some nc"
    and v: "fst (duplicate_children (set_child (child newitem @ [nc]) newitem) next (depth + 1) m2) = Some v
        \<or> fst (duplicate_children (set_child (child newitem @ [nc]) newitem) next depth m2) = Some v"
    using rec by (auto split: if_splits option.splits)
  have "nc = unreference c" using "3.IH"(1) [OF d, of nc] rec r by (simp only: fst_conv)
  moreover have "fst (duplicate_children (set_child (child newitem @ [nc]) newitem) next depth m2) = Some v"
    using "3.prems" d rec r by (simp del: One_nat_def)
  ultimately show ?case using "3.IH"(2) [OF d, of r m2 nc v] rec r by simp
qed


subsection \<open>Properties\<close>

text \<open>C22: \<open>cJSON_Duplicate\<close> with \<open>recurse\<close> either returns NULL with every block it allocated
  freed again, or a copy equal to the item up to the cleared \<open>cJSON_IsReference\<close> flags, with
  exactly the blocks of the copy allocated.\<close>

theorem cJSON_Duplicate_copies:
  "live (snd (cJSON_Duplicate (Some item) True m))
     = live m + (case fst (cJSON_Duplicate (Some item) True m) of None \<Rightarrow> 0 | Some v \<Rightarrow> owned [v])
   \<and> fst (cJSON_Duplicate (Some item) True m) \<in> {None, Some (unreference item)}"
proof -
  have "fst (cJSON_Duplicate_rec item 0 True m) = None
      \<or> fst (cJSON_Duplicate_rec item 0 True m) = Some (unreference item)"
    using duplicate_copies(1) by (cases "fst (cJSON_Duplicate_rec item 0 True m)") auto
  then show ?thesis
    using duplicate_balanced(1) [of m item 0 True] by (auto simp: cJSON_Duplicate_def balanced_def)
qed

end
