(* ===== verification/Telemetry.thy ===== *)
theory Telemetry
  imports CJson_Parse CJson_Access "HOL-Library.Multiset"
begin

text \<open>
  The telemetry server \<open>seance6/project/main.c\<close>: the configuration file, the monitor thread
  that watches it, the server thread with its client table and event dispatch, and the two threads
  running together over the shared configuration and the eventfd.
\<close>

subsection \<open>Constants and the shared configuration\<close>

definition CONFIG_FILE :: string where "CONFIG_FILE = ''config.json''"
definition MAX_CLIENTS :: nat where "MAX_CLIENTS = 8"

record shared_config =
  sw_version :: string
  period_sec :: int
  valid :: bool

text \<open>\<open>g_cfg\<close> before the first parse; its \<open>sw_version\<close> buffer has 64 bytes.\<close>

definition g_cfg :: shared_config where
  "g_cfg = \<lparr>sw_version = ''unknown'', period_sec = 5, valid = False\<rparr>"

definition SW_LEN :: nat where "SW_LEN = 64"

subsection \<open>parse_config_file\<close>

text \<open>
  \<open>fil\<close> is what the file at the path holds (\<open>None\<close>: it cannot be opened), \<open>m\<close> the allocator. The result
  is the success flag, the out-parameters (\<open>sw_version\<close> is written as soon as it is found) and
  the allocator; \<open>None\<close> is a crash of the parser.
\<close>

definition parse_config_file ::
  "string option \<Rightarrow> nat \<Rightarrow> string \<times> int \<Rightarrow> mem \<Rightarrow> (bool \<times> (string \<times> int) \<times> mem) option" where
  "parse_config_file fil sw_len vp m =
     (case fil of
        None \<Rightarrow> Some (False, vp, m)
      | Some bytes \<Rightarrow>
          if length bytes = 0 then Some (False, vp, m)
          else (case allocate m of
             None \<Rightarrow> Some (False, vp, m)
           | Some m1 \<Rightarrow>
               (case cJSON_Parse (Some (cstr (bytes @ [NUL]))) m1 of
                  None \<Rightarrow> None
                | Some (ParseError pos m2) \<Rightarrow> Some (False, vp, deallocate m2)
                | Some (Parsed root_item pos m2) \<Rightarrow>
                    let m3 = deallocate m2;
                        ver = cJSON_GetObjectItemCaseSensitive (Some root_item) (Some ''sw_version'');
                        per = cJSON_GetObjectItemCaseSensitive (Some root_item) (Some ''period'');
                        ver_ok = (cJSON_IsString ver \<and> valuestring (the ver) \<noteq> None);
                        per_ok = cJSON_IsNumber per;
                        version = (if ver_ok then snprintf_s sw_len (the (valuestring (the ver))) else fst vp);
                        period = (if per_ok then valueint (the per) else snd vp)
                    in Some (ver_ok \<and> per_ok, (version, period), cJSON_Delete [root_item] m3))))"

subsection \<open>Monitor thread\<close>

definition IN_CLOSE_WRITE :: "32 word" where "IN_CLOSE_WRITE = 0x8"
definition IN_MOVED_FROM :: "32 word" where "IN_MOVED_FROM = 0x40"
definition IN_MOVED_TO :: "32 word" where "IN_MOVED_TO = 0x80"
definition IN_DELETE :: "32 word" where "IN_DELETE = 0x200"

record inotify_event =
  mask :: "32 word"
  ename :: "string option"

text \<open>\<open>e->len = 0\<close> (no name) is \<open>ename = None\<close>.\<close>

text \<open>The critical section that publishes a parsed configuration.\<close>

definition publish :: "string \<Rightarrow> int \<Rightarrow> shared_config \<Rightarrow> bool \<times> shared_config" where
  "publish version period cfg =
     (period \<noteq> period_sec cfg \<or> version \<noteq> sw_version cfg,
      \<lparr>sw_version = snprintf_s SW_LEN version, period_sec = period, valid = True\<rparr>)"

definition eventfd_write :: "nat \<Rightarrow> nat \<Rightarrow> nat" where
  "eventfd_write v counter = (if counter + v \<le> 0xFFFFFFFFFFFFFFFE then counter + v else counter)"

text \<open>What the monitor wants to do with a directory event.\<close>

definition is_config_event :: "inotify_event \<Rightarrow> bool" where
  "is_config_event e \<longleftrightarrow> ename e = Some CONFIG_FILE"

definition is_removal :: "inotify_event \<Rightarrow> bool" where
  "is_removal e \<longleftrightarrow> mask e AND (IN_DELETE OR IN_MOVED_FROM) \<noteq> 0"

text \<open>
  The monitor's own state: its local \<open>version\<close> and \<open>period\<close> and the allocator. The handler of
  one event returns whether the server must be woken.
\<close>

record monitor =
  mvars :: "string \<times> int"
  mmem :: mem

definition load_config ::
  "string option \<Rightarrow> monitor \<times> shared_config \<Rightarrow> (bool \<times> bool \<times> monitor \<times> shared_config) option" where
  "load_config fil mc =
     (case mc of (mon, cfg) \<Rightarrow>
        (case parse_config_file fil SW_LEN (mvars mon) (mmem mon) of
           None \<Rightarrow> None
         | Some (ok, (version, period), m) \<Rightarrow>
             let mon' = mon\<lparr>mvars := (version, period), mmem := m\<rparr>
             in if ok then (case publish version period cfg of (changed, cfg') \<Rightarrow> Some (True, changed, mon', cfg'))
                else Some (False, False, mon', cfg)))"

text \<open>At startup the server is notified even when nothing changed.\<close>

definition initial_load ::
  "string option \<Rightarrow> monitor \<times> shared_config \<Rightarrow> (bool \<times> monitor \<times> shared_config) option" where
  "initial_load fil mc = map_option (\<lambda>(ok, changed, mc'). (ok, mc')) (load_config fil mc)"

definition handle_inotify ::
  "string option \<Rightarrow> inotify_event \<Rightarrow> monitor \<times> shared_config \<Rightarrow> (bool \<times> monitor \<times> shared_config) option" where
  "handle_inotify fil e mc =
     (if is_config_event e then
        if is_removal e then Some (False, mc)
        else map_option (\<lambda>(ok, changed, mc'). (changed, mc')) (load_config fil mc)
      else Some (False, mc))"

text \<open>The events of one \<open>read\<close>, each with the file as it is when the event is handled.\<close>

fun handle_events ::
  "(inotify_event \<times> string option) list \<Rightarrow> nat \<times> monitor \<times> shared_config \<Rightarrow> (nat \<times> monitor \<times> shared_config) option" where
  "handle_events [] s = Some s"
| "handle_events ((e, fil) # es) (efd, mc) =
     (case handle_inotify fil e mc of
        None \<Rightarrow> None
      | Some (wake, mc') \<Rightarrow> handle_events es (if wake then eventfd_write 1 efd else efd, mc'))"

subsection \<open>Client table\<close>

record client =
  fd :: int
  used :: bool

type_synonym clients = "client list"

text \<open>The result of \<open>add_client\<close>: the table, and whether the descriptor was closed instead.\<close>

fun add_client :: "clients \<Rightarrow> int \<Rightarrow> clients \<times> bool" where
  "add_client [] f = ([], True)"
| "add_client (c # cs) f =
     (if \<not> used c then (\<lparr>fd = f, used = True\<rparr> # cs, False)
      else (case add_client cs f of (cs', shut) \<Rightarrow> (c # cs', shut)))"

text \<open>The result of \<open>remove_client\<close>: the table, and whether the descriptor was found and closed.\<close>

fun remove_client :: "clients \<Rightarrow> int \<Rightarrow> clients \<times> bool" where
  "remove_client [] f = ([], False)"
| "remove_client (c # cs) f =
     (if used c \<and> fd c = f then (c\<lparr>used := False\<rparr> # cs, True)
      else (case remove_client cs f of (cs', shut) \<Rightarrow> (c # cs', shut)))"

definition used_fds :: "clients \<Rightarrow> int list" where
  "used_fds cs = map fd (filter used cs)"

subsection \<open>broadcast_telemetry\<close>

text \<open>The text that \<open>snprintf\<close> formats, and what fits the 256-byte buffer of it.\<close>

definition telemetry_text :: "64 word \<Rightarrow> int \<Rightarrow> string \<Rightarrow> int \<Rightarrow> string" where
  "telemetry_text sample_id ts version period =
     CHR ''{'' # CHR 0x22 # ''type'' @ CHR 0x22 # CHR '':'' # CHR 0x22 # ''telemetry'' @ CHR 0x22 # CHR '','' #
     CHR 0x22 # ''id'' @ CHR 0x22 # CHR '':'' # dec_nat (unat sample_id) @ CHR '','' #
     CHR 0x22 # ''ts'' @ CHR 0x22 # CHR '':'' # dec_int ts @ CHR '','' #
     CHR 0x22 # ''sw_version'' @ CHR 0x22 # CHR '':'' # CHR 0x22 # version @ CHR 0x22 # CHR '','' #
     CHR 0x22 # ''period'' @ CHR 0x22 # CHR '':'' # dec_int period @ [CHR ''}'', CHR 0x0A]"

definition MSG_SIZE :: nat where "MSG_SIZE = 256"

text \<open>
  Each used client is sent \<open>len\<close> bytes from \<open>msg\<close>: \<open>None\<close> when \<open>len\<close> (the untruncated length)
  passes the end of the buffer.
\<close>

definition broadcast_telemetry ::
  "clients \<Rightarrow> 64 word \<Rightarrow> int \<Rightarrow> string \<Rightarrow> int \<Rightarrow> ((int \<times> string) list \<times> 64 word) option" where
  "broadcast_telemetry cs sample_id ts version period =
     (let msg = telemetry_text sample_id ts version period; len = length msg
      in if MSG_SIZE < len \<and> used_fds cs \<noteq> [] then None
         else Some (map (\<lambda>f. (f, msg)) (used_fds cs), sample_id + 1))"

subsection \<open>Server thread\<close>

record server =
  listen_fd :: int
  fifo_fd :: int
  timer_fd :: int
  notify_fd :: int
  epfd :: int
  table :: clients
  period :: int
  sw_copy :: string
  timer :: int
  sample_id :: "64 word"
  opened :: "int list"
  watched :: "int list"
  sent :: "(int \<times> string) list"
  printed :: "string list"

text \<open>
  \<open>timerfd_settime\<close> with \<open>it_value = it_interval = { p, 0 }\<close>: a negative time is refused with
  \<open>EINVAL\<close> and changes nothing, \<open>0\<close> disarms the timer.
\<close>

definition timerfd_settime :: "int \<Rightarrow> int \<Rightarrow> int" where
  "timerfd_settime p armed = (if p < 0 then armed else p)"

definition close_fd :: "int \<Rightarrow> server \<Rightarrow> server" where
  "close_fd f s = s\<lparr>opened := remove1 f (opened s), watched := filter (\<lambda>g. g \<noteq> f) (watched s)\<rparr>"

definition EPOLLERR :: "32 word" where "EPOLLERR = 0x8"
definition EPOLLHUP :: "32 word" where "EPOLLHUP = 0x10"

text \<open>What the kernel answers while one event is handled.\<close>

datatype read_result = RData string | REof | RAgain | RError

record epoll_event =
  ev_fd :: int
  evs :: "32 word"
  accepted :: "int list"
  fifo_data :: "string list"
  expired :: bool
  now :: int
  client_read :: read_result

definition accept_one :: "int \<Rightarrow> server \<Rightarrow> server" where
  "accept_one cfd s =
     (let s1 = s\<lparr>opened := opened s @ [cfd], watched := watched s @ [cfd]\<rparr>
      in case add_client (table s1) cfd of
           (cs, shut) \<Rightarrow> if shut then close_fd cfd s1 else s1\<lparr>table := cs\<rparr>)"

definition drop_client :: "int \<Rightarrow> server \<Rightarrow> server" where
  "drop_client f s =
     (case remove_client (table s) f of
        (cs, found) \<Rightarrow> if found then (close_fd f s)\<lparr>table := cs\<rparr> else s)"

definition copy_config :: "shared_config \<Rightarrow> server \<Rightarrow> server" where
  "copy_config cfg s =
     s\<lparr>period := period_sec cfg, sw_copy := snprintf_s SW_LEN (sw_version cfg),
       timer := timerfd_settime (period_sec cfg) (timer s)\<rparr>"

definition on_timer :: "shared_config \<Rightarrow> epoll_event \<Rightarrow> server \<Rightarrow> server option" where
  "on_timer cfg e s =
     (if expired e then
        let s1 = s\<lparr>sw_copy := snprintf_s SW_LEN (sw_version cfg)\<rparr>
        in (case broadcast_telemetry (table s1) (sample_id s1) (now e) (sw_copy s1) (period s1) of
              None \<Rightarrow> None
            | Some (ws, n) \<Rightarrow> Some (s1\<lparr>sent := sent s1 @ ws, sample_id := n\<rparr>))
      else Some s)"

definition on_client :: "epoll_event \<Rightarrow> server \<Rightarrow> server" where
  "on_client e s =
     (if evs e AND (EPOLLHUP OR EPOLLERR) \<noteq> 0 then drop_client (ev_fd e) s
      else (case client_read e of
              RData d \<Rightarrow> s\<lparr>printed := printed s @ [cstr (take 255 d)]\<rparr>
            | REof \<Rightarrow> drop_client (ev_fd e) s
            | RAgain \<Rightarrow> s
            | RError \<Rightarrow> drop_client (ev_fd e) s))"

text \<open>
  One event of the loop. The notification is read (its counter becomes 0) before the
  configuration is copied.
\<close>

definition dispatch :: "shared_config \<Rightarrow> epoll_event \<Rightarrow> nat \<times> server \<Rightarrow> (nat \<times> server) option" where
  "dispatch cfg e es =
     (case es of (efd, s) \<Rightarrow>
        if ev_fd e = listen_fd s then Some (efd, fold accept_one (accepted e) s)
        else if ev_fd e = fifo_fd s then
          Some (efd, s\<lparr>printed := printed s @ map (\<lambda>d. cstr (take 255 d)) (fifo_data e)\<rparr>)
        else if ev_fd e = timer_fd s then map_option (Pair efd) (on_timer cfg e s)
        else if ev_fd e = notify_fd s then Some (0, copy_config cfg s)
        else Some (efd, on_client e s))"

fun dispatch_all :: "shared_config \<Rightarrow> epoll_event list \<Rightarrow> nat \<times> server \<Rightarrow> (nat \<times> server) option" where
  "dispatch_all cfg [] es = Some es"
| "dispatch_all cfg (e # rest) es =
     (case dispatch cfg e es of None \<Rightarrow> None | Some es' \<Rightarrow> dispatch_all cfg rest es')"

text \<open>
  Startup: the descriptors are obtained in order, \<open>None\<close> is a failing call; the second component
  is what stays open when the thread gives up (the third failure returns without closing).
\<close>

definition server_start ::
  "int option \<Rightarrow> int option \<Rightarrow> int option \<Rightarrow> int \<Rightarrow> int \<Rightarrow> shared_config \<Rightarrow> server option \<times> int list" where
  "server_start lfd ffd tfd nfd ep cfg =
     (case lfd of
        None \<Rightarrow> (None, [])
      | Some l \<Rightarrow>
          (case ffd of
             None \<Rightarrow> (None, [])
           | Some f \<Rightarrow>
               (case tfd of
                  None \<Rightarrow> (None, [l, f])
                | Some t \<Rightarrow>
                    (Some \<lparr>listen_fd = l, fifo_fd = f, timer_fd = t, notify_fd = nfd, epfd = ep,
                        table = replicate MAX_CLIENTS \<lparr>fd = 0, used = False\<rparr>,
                        period = period_sec cfg, sw_copy = snprintf_s SW_LEN (sw_version cfg),
                        timer = timerfd_settime (period_sec cfg) 0, sample_id = 0,
                        opened = [l, f, t, ep], watched = [l, f, t, nfd], sent = [], printed = []\<rparr>,
                     [l, f, t, ep]))))"

definition server_stop :: "server \<Rightarrow> server" where
  "server_stop s =
     (let s1 = fold close_fd (used_fds (table s)) s
      in close_fd (epfd s) (close_fd (listen_fd s) (close_fd (fifo_fd s) (close_fd (timer_fd s) s1))))"

subsection \<open>The configuration reader is total and frees what it allocates\<close>

lemma wf_parsed_child: "wf_parsed v \<Longrightarrow> c \<in> set (child v) \<Longrightarrow> wf_parsed c"
  by (cases v) auto

lemma wf_parsed_valueint: "wf_parsed v \<Longrightarrow> INT_MIN \<le> valueint v \<and> valueint v \<le> INT_MAX"
  by (cases v) auto

text \<open>What a success delivers: a version that fits its buffer and a period that is an \<open>int\<close>.\<close>

definition config_vals_ok :: "nat \<Rightarrow> string \<times> int \<Rightarrow> bool" where
  "config_vals_ok n vp \<longleftrightarrow> length (fst vp) < n \<and> INT_MIN \<le> snd vp \<and> snd vp \<le> INT_MAX"

lemma parse_config_file_total:
  fixes fil :: "string option"
  assumes "0 < n"
  obtains ok vp' m' where "parse_config_file fil n vp m = Some (ok, vp', m')"
    "live m' = live m" "ok \<Longrightarrow> config_vals_ok n vp'"
proof -
  have "\<exists>ok vp' m'. parse_config_file fil n vp m = Some (ok, vp', m')
      \<and> live m' = live m \<and> (ok \<longrightarrow> config_vals_ok n vp')"
  proof (cases "fil = None \<or> fil = Some [] \<or> allocate m = None")
    case True
    then show ?thesis by (cases fil; cases vp) (auto simp: parse_config_file_def)
  next
    case False
    then obtain bytes m1 where f: "fil = Some bytes" "bytes \<noteq> []" "allocate m = Some m1" by auto
    then have m1: "live m1 = live m + 1" using allocate_Some by blast
    let ?s = "cstr (bytes @ [NUL])"
    obtain r where r: "cJSON_Parse (Some ?s) m1 = Some r" "outcome_ok (length ?s + 1) m1 r"
      using ParseWithLengthOpts_ok [of "length ?s + 1" "?s @ [NUL]" False m1]
      by (auto simp: cJSON_Parse_def cJSON_ParseWithOpts_def)
    show ?thesis
    proof (cases r)
      case (ParseError e m2)
      with f m1 r show ?thesis by (auto simp: parse_config_file_def)
    next
      case (Parsed v e m2)
      let ?per = "cJSON_GetObjectItemCaseSensitive (Some v) (Some ''period'')"
      have "INT_MIN \<le> valueint (the ?per) \<and> valueint (the ?per) \<le> INT_MAX" if num: "cJSON_IsNumber ?per"
      proof -
        obtain c where "?per = Some c" using num by (cases ?per) (simp_all add: Is_defs)
        moreover have "wf_parsed v" using r Parsed by simp
        ultimately show ?thesis
          using wf_parsed_valueint wf_parsed_child GetObjectItemCaseSensitive_mem by (metis option.sel)
      qed
      with f m1 r Parsed show ?thesis
        by (simp add: parse_config_file_def Let_def length_snprintf_s [OF assms] config_vals_ok_def)
    qed
  qed
  with that show thesis by blast
qed

subsection \<open>Client table\<close>

lemma used_fds_Nil [simp]: "used_fds [] = []"
  and used_fds_Cons [simp]: "used_fds (c # cs) = (if used c then fd c # used_fds cs else used_fds cs)"
  by (simp_all add: used_fds_def)

lemma length_add_client [simp]: "length (fst (add_client cs f)) = length cs"
  by (induction cs f rule: add_client.induct) (auto split: prod.splits)

lemma length_remove_client [simp]: "length (fst (remove_client cs f)) = length cs"
  by (induction cs f rule: remove_client.induct) (auto split: prod.splits)

lemma add_client_used:
  "add_client cs f = (cs', shut) \<Longrightarrow>
     (shut \<longrightarrow> cs' = cs \<and> length (used_fds cs) = length cs)
   \<and> (\<not> shut \<longrightarrow> mset (used_fds cs') = add_mset f (mset (used_fds cs)))"
  by (induction cs f arbitrary: cs' rule: add_client.induct) (auto split: prod.splits if_splits)

lemma remove_client_used:
  "remove_client cs f = (cs', found) \<Longrightarrow> found = (f \<in> set (used_fds cs)) \<and> used_fds cs' = remove1 f (used_fds cs)"
  by (induction cs f arbitrary: cs' found rule: remove_client.induct) (auto split: prod.splits if_splits)

text \<open>A connection is refused only when all \<open>MAX_CLIENTS\<close> slots are in use.\<close>

lemma add_client_shut: "snd (add_client cs f) \<longleftrightarrow> (\<forall>c \<in> set cs. used c)"
  by (induction cs f rule: add_client.induct) (auto split: prod.splits)

subsection \<open>Messages fit their buffer\<close>

lemma length_dec_int: "\<bar>i\<bar> < 10 ^ k \<Longrightarrow> 0 < k \<Longrightarrow> length (dec_int i) \<le> Suc k"
proof -
  assume a: "\<bar>i\<bar> < 10 ^ k" "0 < k"
  then have "nat \<bar>i\<bar> < 10 ^ k" by (simp add: nat_less_iff)
  then have "length (dec_nat (nat \<bar>i\<bar>)) \<le> k" using a(2) by (rule length_dec_nat)
  then show ?thesis by (auto simp: dec_int_def)
qed

lemma telemetry_text_length:
  assumes "length v < 64" "INT_MIN \<le> p" "p \<le> INT_MAX" "\<bar>ts\<bar> \<le> 2 ^ 63"
  shows "length (telemetry_text n ts v p) \<le> 180"
proof -
  have "unat n < 2 ^ 64" using unsigned_less [of n, where ?'a = nat] by simp
  then have "unat n < 10 ^ 20" by simp
  then have 1: "length (dec_nat (unat n)) \<le> 20" using length_dec_nat [of "unat n" 20] by simp
  have 2: "length (dec_int ts) \<le> 20" using length_dec_int [of ts 19] assms(4) by simp
  have 3: "length (dec_int p) \<le> 11" using length_dec_int [of p 10] assms(2,3)
    by (simp add: INT_MIN_def INT_MAX_def abs_less_iff)
  show ?thesis using 1 2 3 assms(1) by (simp add: telemetry_text_def)
qed

subsection \<open>Descriptor discipline of the server thread\<close>

text \<open>
  Between two events the descriptors the thread holds open are its own four and those of the
  used client slots, each once; epoll watches the same ones with the eventfd in place of itself.
\<close>

definition own_fds :: "server \<Rightarrow> int list" where
  "own_fds s = [listen_fd s, fifo_fd s, timer_fd s, epfd s]"

definition srv_inv :: "server \<Rightarrow> bool" where
  "srv_inv s \<longleftrightarrow>
     length (table s) = MAX_CLIENTS
   \<and> distinct (notify_fd s # own_fds s @ used_fds (table s))
   \<and> mset (opened s) = mset (own_fds s) + mset (used_fds (table s))
   \<and> set (watched s) = {listen_fd s, fifo_fd s, timer_fd s, notify_fd s} \<union> set (used_fds (table s))
   \<and> length (sw_copy s) < SW_LEN \<and> INT_MIN \<le> period s \<and> period s \<le> INT_MAX"

definition cfg_inv :: "shared_config \<Rightarrow> bool" where
  "cfg_inv cfg \<longleftrightarrow> INT_MIN \<le> period_sec cfg \<and> period_sec cfg \<le> INT_MAX"

declare srv_inv_def [inv_defs] cfg_inv_def [inv_defs] own_fds_def [inv_defs]

lemma close_fd_fields [simp]:
  "table (close_fd f s) = table s" "listen_fd (close_fd f s) = listen_fd s" "fifo_fd (close_fd f s) = fifo_fd s"
  "timer_fd (close_fd f s) = timer_fd s" "epfd (close_fd f s) = epfd s" "notify_fd (close_fd f s) = notify_fd s"
  "sw_copy (close_fd f s) = sw_copy s" "period (close_fd f s) = period s"
  "opened (close_fd f s) = remove1 f (opened s)" "set (watched (close_fd f s)) = set (watched s) - {f}"
  by (auto simp: close_fd_def)

text \<open>A descriptor that \<open>accept4\<close> may return: not open in the thread, not the eventfd.\<close>

definition fresh_fd :: "int \<Rightarrow> server \<Rightarrow> bool" where
  "fresh_fd f s \<longleftrightarrow> f \<notin> set (opened s) \<and> f \<noteq> notify_fd s"

fun fresh_accepts :: "int list \<Rightarrow> server \<Rightarrow> bool" where
  "fresh_accepts [] s = True"
| "fresh_accepts (f # fs) s \<longleftrightarrow> fresh_fd f s \<and> fresh_accepts fs (accept_one f s)"

lemma accept_one_inv: "srv_inv s \<Longrightarrow> fresh_fd f s \<Longrightarrow> srv_inv (accept_one f s)"
proof -
  assume inv: "srv_inv s" and fresh: "fresh_fd f s"
  obtain cs shut where a: "add_client (table s) f = (cs, shut)" by fastforce
  note au = add_client_used [OF a]
  have l: "length cs = length (table s)" using length_add_client [of "table s" f] a by simp
  have op: "set (opened s) = set (own_fds s) \<union> set (used_fds (table s))"
    using inv by (metis srv_inv_def set_mset_mset set_mset_union)
  have f: "f \<notin> set (own_fds s)" "f \<notin> set (used_fds (table s))" "f \<noteq> notify_fd s"
    using fresh op by (auto simp: fresh_fd_def)
  show ?thesis
  proof (cases shut)
    case True
    have "remove1 f (opened s @ [f]) = opened s" using fresh by (simp add: fresh_fd_def remove1_append)
    with True inv f show ?thesis
      by (auto simp: accept_one_def a Let_def srv_inv_def own_fds_def)
  next
    case False
    then have m: "mset (used_fds cs) = add_mset f (mset (used_fds (table s)))" using au by simp
    then have "set (used_fds cs) = insert f (set (used_fds (table s)))" by (metis set_mset_mset set_mset_add_mset_insert)
    moreover have "distinct (used_fds cs)"
      using m inv f(2) by (metis distinct.simps(2) distinct_append mset.simps(2) mset_eq_imp_distinct_iff srv_inv_def)
    ultimately show ?thesis using False inv f m l
      by (auto simp: accept_one_def a Let_def srv_inv_def own_fds_def)
  qed
qed

lemma accepts_inv: "srv_inv s \<Longrightarrow> fresh_accepts fs s \<Longrightarrow> srv_inv (fold accept_one fs s)"
  by (induction fs arbitrary: s) (auto intro: accept_one_inv)

lemma drop_client_inv: "srv_inv s \<Longrightarrow> srv_inv (drop_client f s)"
proof -
  assume inv: "srv_inv s"
  obtain cs found where r: "remove_client (table s) f = (cs, found)" by fastforce
  note ru = remove_client_used [OF r]
  have l: "length cs = length (table s)" using length_remove_client [of "table s" f] r by simp
  show ?thesis
  proof (cases found)
    case False
    with inv show ?thesis by (simp add: drop_client_def r)
  next
    case True
    then have f: "f \<in> set (used_fds (table s))" and u: "used_fds cs = remove1 f (used_fds (table s))" using ru by auto
    have d: "distinct (notify_fd s # own_fds s @ used_fds (table s))" using inv by (simp add: srv_inv_def)
    then have set: "set (used_fds cs) = set (used_fds (table s)) - {f}" "distinct (used_fds cs)"
      using u by simp_all
    have "mset (remove1 f (opened s)) = mset (own_fds s) + mset (used_fds cs)"
      using inv f u by (simp add: srv_inv_def)
    with inv set f d l True show ?thesis
      by (auto simp: drop_client_def r srv_inv_def own_fds_def)
  qed
qed

lemma copy_config_inv: "srv_inv s \<Longrightarrow> cfg_inv cfg \<Longrightarrow> srv_inv (copy_config cfg s)"
  using length_snprintf_s [of SW_LEN "sw_version cfg"]
  by (simp add: copy_config_def inv_defs SW_LEN_def)

lemma on_timer_inv:
  assumes "srv_inv s" "\<bar>now e\<bar> \<le> 2 ^ 63"
  obtains s' where "on_timer cfg e s = Some s'" "srv_inv s'"
proof (cases "expired e")
  case False
  with assms that [of s] show thesis by (simp add: on_timer_def)
next
  case True
  let ?v = "snprintf_s SW_LEN (sw_version cfg)"
  have l: "length ?v < 64" using length_snprintf_s [of SW_LEN] by (simp add: SW_LEN_def)
  have "length (telemetry_text (sample_id s) (now e) ?v (period s)) \<le> 180"
    using assms l by (intro telemetry_text_length) (auto simp: srv_inv_def)
  with True assms(1) that l show thesis
    by (simp add: on_timer_def broadcast_telemetry_def Let_def MSG_SIZE_def srv_inv_def own_fds_def SW_LEN_def)
qed

definition event_ok :: "epoll_event \<Rightarrow> server \<Rightarrow> bool" where
  "event_ok e s \<longleftrightarrow> \<bar>now e\<bar> \<le> 2 ^ 63 \<and> (ev_fd e = listen_fd s \<longrightarrow> fresh_accepts (accepted e) s)"

lemma dispatch_inv:
  assumes "srv_inv s" "cfg_inv cfg" "event_ok e s"
  shows "\<exists>efd' s'. dispatch cfg e (efd, s) = Some (efd', s') \<and> srv_inv s'"
proof -
  have c: "srv_inv (on_client e s)"
    using drop_client_inv [OF assms(1)] assms(1)
    by (auto simp: on_client_def srv_inv_def own_fds_def split: read_result.split)
  obtain st where t: "on_timer cfg e s = Some st" "srv_inv st"
    using on_timer_inv [OF assms(1)] assms(3) by (auto simp: event_ok_def)
  have "srv_inv (s\<lparr>printed := ps\<rparr>)" for ps using assms(1) by (simp add: srv_inv_def own_fds_def)
  with c t accepts_inv [OF assms(1)] copy_config_inv [OF assms(1,2)] assms(3) show ?thesis
    by (simp add: dispatch_def event_ok_def)
qed

lemma closes_mset: "mset (opened (fold close_fd fs s)) = mset (opened s) - mset fs"
  by (induction fs arbitrary: s) (simp_all add: diff_diff_add_mset)

lemma closes_fields [simp]:
  "listen_fd (fold close_fd fs s) = listen_fd s" "fifo_fd (fold close_fd fs s) = fifo_fd s"
  "timer_fd (fold close_fd fs s) = timer_fd s" "epfd (fold close_fd fs s) = epfd s"
  by (induction fs arbitrary: s) simp_all

lemma server_stop_closes: "srv_inv s \<Longrightarrow> opened (server_stop s) = []"
proof -
  assume inv: "srv_inv s"
  have "mset (opened (server_stop s)) = {#}"
    using inv by (simp add: server_stop_def Let_def closes_mset srv_inv_def own_fds_def)
  then show ?thesis by simp
qed

subsection \<open>Properties\<close>



text \<open>C5: Every event the server dispatches succeeds (the telemetry message always fits its
  256-byte buffer) and keeps the descriptor discipline: the open and the watched descriptors are
  the thread's own and those of the used client slots, each exactly once.\<close>

theorem dispatch_keeps_srv_inv:
  assumes "srv_inv s" "cfg_inv cfg" "event_ok e s"
  shows "\<exists>efd' s'. dispatch cfg e (efd, s) = Some (efd', s') \<and> srv_inv s'"
  by (rule dispatch_inv [OF assms])

theorem dispatch_keeps_srv_inv_witness:
  "\<exists>efd' s'. dispatch g_cfg
       \<lparr>ev_fd = 5, evs = 1, accepted = [], fifo_data = [], expired = True, now = 1700000000, client_read = RAgain\<rparr>
       (0, the (fst (server_start (Some 3) (Some 4) (Some 5) 6 7 g_cfg))) = Some (efd', s') \<and> srv_inv s'"
  by (rule dispatch_keeps_srv_inv)
    (simp_all add: server_start_def srv_inv_def cfg_inv_def event_ok_def own_fds_def g_cfg_def MAX_CLIENTS_def
      SW_LEN_def snprintf_s_def INT_MIN_def INT_MAX_def numeral_eq_Suc)

text \<open>When the loop ends, \<open>server_stop\<close> closes every descriptor the thread still holds.\<close>

theorem server_stop_closes_all:
  assumes "srv_inv s"
  shows "opened (server_stop s) = []"
  by (rule server_stop_closes [OF assms])

theorem server_stop_closes_all_witness:
  "opened (server_stop (the (fst (server_start (Some 3) (Some 4) (Some 5) 6 7 g_cfg)))) = []"
  by (rule server_stop_closes_all)
    (simp add: server_start_def srv_inv_def own_fds_def g_cfg_def MAX_CLIENTS_def
      SW_LEN_def snprintf_s_def INT_MIN_def INT_MAX_def numeral_eq_Suc)

text \<open>The startup error path leaks: when \<open>timerfd_create\<close> fails the thread returns with its
  listening socket and its FIFO still open, while the earlier failures leave nothing open.\<close>

theorem server_start_leaks:
  "server_start None f t n ep c = (None, []) \<and> server_start (Some l) None t n ep c = (None, [])
   \<and> server_start (Some l) (Some g) None n ep c = (None, [l, g])"
  by (simp add: server_start_def)

text \<open>A connection is refused, and its descriptor closed again, exactly when all slots of the
  client table are in use; otherwise the table holds it afterwards and nothing else changed.\<close>

theorem add_client_refuses_when_full:
  "(snd (add_client cs f) \<longleftrightarrow> list_all used cs)
   \<and> mset (used_fds (fst (add_client cs f))) =
       (if snd (add_client cs f) then mset (used_fds cs) else add_mset f (mset (used_fds cs)))"
proof -
  obtain cs' shut where a: "add_client cs f = (cs', shut)" by fastforce
  from add_client_used [OF this] add_client_shut [of cs f] show ?thesis by (auto simp: a list_all_iff)
qed

end
