(* ===== verification/Telemetry_System.thy ===== *)
theory Telemetry_System
  imports Telemetry
begin

text \<open>
  The two threads of \<open>seance6/project/main.c\<close> interleaved. A step is a critical section on
  \<open>g_cfg.lock\<close> or one eventfd operation, so publishing a configuration and notifying the
  server, and reading the notification and copying the configuration, are separate steps.
\<close>

datatype mon_pc = MInit | MWait | MNotify
datatype srv_pc = SStart | SLoop | SCopy

record sys =
  cfg :: shared_config
  efd :: nat
  mpc :: mon_pc
  mon :: monitor
  spc :: srv_pc
  srv :: server

text \<open>One step of the monitor: \<open>fil\<close> is the file now, \<open>e\<close> the directory event it handles.\<close>

definition monitor_step :: "string option \<Rightarrow> inotify_event \<Rightarrow> sys \<Rightarrow> sys option" where
  "monitor_step fil e s =
     (case mpc s of
        MInit \<Rightarrow>
          (case initial_load fil (mon s, cfg s) of
             None \<Rightarrow> None
           | Some (ok, m, c) \<Rightarrow> Some (s\<lparr>mon := m, cfg := c, mpc := (if ok then MNotify else MWait)\<rparr>))
      | MWait \<Rightarrow>
          (case handle_inotify fil e (mon s, cfg s) of
             None \<Rightarrow> None
           | Some (changed, m, c) \<Rightarrow> Some (s\<lparr>mon := m, cfg := c, mpc := (if changed then MNotify else MWait)\<rparr>))
      | MNotify \<Rightarrow> Some (s\<lparr>efd := eventfd_write 1 (efd s), mpc := MWait\<rparr>))"

text \<open>
  One step of the server. The first copy happens before the loop; in the loop an event is
  dispatched, the notification in two steps.
\<close>

definition server_step :: "epoll_event \<Rightarrow> sys \<Rightarrow> sys option" where
  "server_step e s =
     (case spc s of
        SStart \<Rightarrow> Some (s\<lparr>srv := copy_config (cfg s) (srv s), spc := SLoop\<rparr>)
      | SCopy \<Rightarrow> Some (s\<lparr>srv := copy_config (cfg s) (srv s), spc := SLoop\<rparr>)
      | SLoop \<Rightarrow>
          if ev_fd e = notify_fd (srv s) then
            (if efd s = 0 then None else Some (s\<lparr>efd := 0, spc := SCopy\<rparr>))
          else (case dispatch (cfg s) e (efd s, srv s) of
                  None \<Rightarrow> None
                | Some (n, v) \<Rightarrow> Some (s\<lparr>efd := n, srv := v\<rparr>)))"

inductive tstep :: "sys \<Rightarrow> sys \<Rightarrow> bool" where
  monitor: "monitor_step fil e s = Some s' \<Longrightarrow> tstep s s'"
| server: "event_ok e (srv s) \<Longrightarrow> server_step e s = Some s' \<Longrightarrow> tstep s s'"

inductive_cases tstepE: "tstep s s'"

text \<open>
  Before the threads run: the static configuration, the eventfd at 0, the server thread's
  descriptors just opened (\<open>v\<close>), the monitor's locals arbitrary.
\<close>

definition initial :: "sys \<Rightarrow> bool" where
  "initial s \<longleftrightarrow> cfg s = g_cfg \<and> efd s = 0 \<and> mpc s = MInit \<and> spc s = SStart \<and> srv_inv (srv s)"

definition reachable :: "sys \<Rightarrow> bool" where
  "reachable s \<longleftrightarrow> (\<exists>s0. initial s0 \<and> tstep\<^sup>*\<^sup>* s0 s)"

subsection \<open>No configuration is lost\<close>

definition in_sync :: "sys \<Rightarrow> bool" where
  "in_sync s \<longleftrightarrow> period (srv s) = period_sec (cfg s) \<and> sw_copy (srv s) = sw_version (cfg s)"

definition pending :: "sys \<Rightarrow> bool" where
  "pending s \<longleftrightarrow> efd s > 0 \<or> mpc s = MNotify \<or> spc s \<noteq> SLoop"

definition shared_ok :: "shared_config \<Rightarrow> bool" where
  "shared_ok c \<longleftrightarrow> length (sw_version c) < SW_LEN \<and> cfg_inv c"

definition sys_inv :: "sys \<Rightarrow> bool" where
  "sys_inv s \<longleftrightarrow> (in_sync s \<or> pending s) \<and> shared_ok (cfg s) \<and> srv_inv (srv s)"

lemma load_config_cases:
  obtains ok changed m c' where "load_config fil (m0, c) = Some (ok, changed, m, c')"
    "live (mmem m) = live (mmem m0)"
    "shared_ok c \<longrightarrow> shared_ok c'"
    "changed \<or> (period_sec c' = period_sec c \<and> (shared_ok c \<longrightarrow> sw_version c' = sw_version c))"
    "ok \<or> c' = c" "ok \<longrightarrow> valid c'"
proof -
  obtain ok vp' m' where p: "parse_config_file fil SW_LEN (mvars m0) (mmem m0) = Some (ok, vp', m')"
    "live m' = live (mmem m0)" "ok \<Longrightarrow> config_vals_ok SW_LEN vp'"
    using parse_config_file_total [of SW_LEN] by (metis SW_LEN_def zero_less_numeral)
  obtain v q where vp: "vp' = (v, q)" by fastforce
  show thesis
  proof (cases ok)
    case True
    then have "length v < SW_LEN" "INT_MIN \<le> q" "q \<le> INT_MAX" using p(3) vp by (simp_all add: config_vals_ok_def)
    moreover have eq: "load_config fil (m0, c) = Some (True, q \<noteq> period_sec c \<or> v \<noteq> sw_version c,
        m0\<lparr>mvars := (v, q), mmem := m'\<rparr>, \<lparr>sw_version = snprintf_s SW_LEN v, period_sec = q, valid = True\<rparr>)"
      using p vp True by (simp add: load_config_def publish_def Let_def)
    ultimately show thesis
      using p(2) by (intro that [OF eq]) (auto simp: shared_ok_def cfg_inv_def snprintf_s_id)
  next
    case False
    then have eq: "load_config fil (m0, c) = Some (False, False, m0\<lparr>mvars := (v, q), mmem := m'\<rparr>, c)"
      using p vp by (simp add: load_config_def Let_def)
    show thesis using p(2) by (intro that [OF eq]) auto
  qed
qed

lemma eventfd_write_pos [simp]: "eventfd_write (Suc 0) n \<noteq> 0"
  by (simp add: eventfd_write_def)

lemma copy_config_sync:
  "shared_ok c \<Longrightarrow> period (copy_config c s) = period_sec c \<and> sw_copy (copy_config c s) = sw_version c"
  by (simp add: copy_config_def shared_ok_def snprintf_s_id)

lemma monitor_step_inv:
  assumes "sys_inv s" "monitor_step fil e s = Some s'"
  shows "sys_inv s'"
proof (cases "mpc s")
  case MNotify
  with assms show ?thesis
    by (auto simp: monitor_step_def sys_inv_def pending_def)
next
  case MInit
  obtain ok changed m c' where l: "load_config fil (mon s, cfg s) = Some (ok, changed, m, c')"
    "live (mmem m) = live (mmem (mon s))" "shared_ok (cfg s) \<longrightarrow> shared_ok c'"
    "changed \<or> (period_sec c' = period_sec (cfg s) \<and> (shared_ok (cfg s) \<longrightarrow> sw_version c' = sw_version (cfg s)))"
    "ok \<or> c' = cfg s" "ok \<longrightarrow> valid c'"
    by (rule load_config_cases [of fil "mon s" "cfg s"]) blast
  have s': "s' = s\<lparr>mon := m, cfg := c', mpc := (if ok then MNotify else MWait)\<rparr>"
    using MInit assms(2) l(1) by (simp add: monitor_step_def initial_load_def)
  have "shared_ok c'" using assms(1) l(3) by (simp add: sys_inv_def)
  then show ?thesis using assms(1) l(5) MInit s' by (cases ok) (auto simp: sys_inv_def pending_def in_sync_def)
next
  case MWait
  obtain ok changed m c' where l: "load_config fil (mon s, cfg s) = Some (ok, changed, m, c')"
    "live (mmem m) = live (mmem (mon s))" "shared_ok (cfg s) \<longrightarrow> shared_ok c'"
    "changed \<or> (period_sec c' = period_sec (cfg s) \<and> (shared_ok (cfg s) \<longrightarrow> sw_version c' = sw_version (cfg s)))"
    "ok \<or> c' = cfg s" "ok \<longrightarrow> valid c'"
    by (rule load_config_cases [of fil "mon s" "cfg s"]) blast
  have "s' = s \<or> s' = s\<lparr>mon := m, cfg := c', mpc := (if changed then MNotify else MWait)\<rparr>"
    using MWait assms(2) l(1) by (auto simp: monitor_step_def handle_inotify_def split: if_splits)
  moreover have "shared_ok c'" "shared_ok (cfg s)" using assms(1) l(3) by (simp_all add: sys_inv_def)
  ultimately show ?thesis using assms(1) l(4) MWait by (cases changed) (auto simp: sys_inv_def pending_def in_sync_def)
qed

text \<open>Dispatching anything but the notification leaves the eventfd and the period alone.\<close>

lemma accept_one_fields [simp]:
  "period (accept_one f s) = period s" "sw_copy (accept_one f s) = sw_copy s"
  by (auto simp: accept_one_def Let_def split: prod.splits)

lemma accepts_fields [simp]:
  "period (fold accept_one fs s) = period s" "sw_copy (fold accept_one fs s) = sw_copy s"
  by (induction fs arbitrary: s) simp_all

lemma drop_client_fields [simp]:
  "period (drop_client f s) = period s" "sw_copy (drop_client f s) = sw_copy s"
  by (auto simp: drop_client_def split: prod.splits)

lemma on_client_fields [simp]:
  "period (on_client e s) = period s" "sw_copy (on_client e s) = sw_copy s"
  by (auto simp: on_client_def split: read_result.splits)

lemma dispatch_keeps:
  assumes "dispatch c e (n, s) = Some (n', s')" "ev_fd e \<noteq> notify_fd s"
  shows "n' = n" "period s' = period s"
    "sw_copy s' = sw_copy s \<or> sw_copy s' = snprintf_s SW_LEN (sw_version c)"
  using assms
  by (auto simp: dispatch_def on_timer_def Let_def split: if_splits option.splits)

lemma server_step_inv:
  assumes inv: "sys_inv s" and ok: "event_ok e (srv s)" and st: "server_step e s = Some s'"
  shows "sys_inv s'"
proof (cases "spc s")
  case SLoop
  show ?thesis
  proof (cases "ev_fd e = notify_fd (srv s)")
    case True
    with SLoop inv st show ?thesis
      by (auto simp: server_step_def sys_inv_def pending_def split: if_splits)
  next
    case False
    obtain n v where d: "dispatch (cfg s) e (efd s, srv s) = Some (n, v)"
      using SLoop False st by (auto simp: server_step_def split: option.splits)
    then have s': "s' = s\<lparr>efd := n, srv := v\<rparr>" using SLoop False st by (simp add: server_step_def)
    have "srv_inv v"
      using dispatch_inv [of "srv s" "cfg s" e "efd s"] inv ok d by (auto simp: sys_inv_def shared_ok_def)
    with dispatch_keeps [OF d False] inv s' show ?thesis
      by (auto simp: sys_inv_def in_sync_def pending_def shared_ok_def snprintf_s_id)
  qed
next
  case SStart
  with inv st show ?thesis
    by (auto simp: server_step_def sys_inv_def in_sync_def copy_config_sync shared_ok_def
        intro: copy_config_inv)
next
  case SCopy
  with inv st show ?thesis
    by (auto simp: server_step_def sys_inv_def in_sync_def copy_config_sync shared_ok_def
        intro: copy_config_inv)
qed

lemma initial_inv: "initial s \<Longrightarrow> sys_inv s"
  by (simp add: initial_def sys_inv_def pending_def shared_ok_def cfg_inv_def g_cfg_def SW_LEN_def INT_MIN_def INT_MAX_def)

lemma reachable_inv: "reachable s \<Longrightarrow> sys_inv s"
proof -
  assume "reachable s"
  then obtain s0 where s0: "initial s0" and path: "tstep\<^sup>*\<^sup>* s0 s" by (auto simp: reachable_def)
  from path show "sys_inv s"
    by (induction rule: rtranclp_induct)
      (auto intro: initial_inv [OF s0] monitor_step_inv server_step_inv elim!: tstepE)
qed

subsection \<open>Properties\<close>

text \<open>A reachable state between two handovers, for the witnesses.\<close>

definition example_srv :: server where
  "example_srv = the (fst (server_start (Some 3) (Some 4) (Some 5) 6 7 g_cfg))"

definition example0 :: sys where
  "example0 = \<lparr>cfg = g_cfg, efd = 0, mpc = MInit, mon = \<lparr>mvars = ([], 0), mmem = \<lparr>budget = 9, live = 0\<rparr>\<rparr>,
     spc = SStart, srv = example_srv\<rparr>"

definition example2 :: sys where
  "example2 = example0\<lparr>mpc := MWait, spc := SLoop, srv := copy_config g_cfg example_srv\<rparr>"

lemma example2_reachable: "reachable example2"
proof -
  have init: "initial example0"
    by (simp add: initial_def example0_def example_srv_def server_start_def srv_inv_def own_fds_def g_cfg_def
        MAX_CLIENTS_def SW_LEN_def snprintf_s_def INT_MIN_def INT_MAX_def numeral_eq_Suc)
  have m: "tstep example0 (example0\<lparr>mpc := MWait\<rparr>)"
    by (rule tstep.monitor [where fil = None and e = "\<lparr>mask = 0, ename = None\<rparr>"])
      (simp add: monitor_step_def example0_def initial_load_def load_config_def parse_config_file_def Let_def)
  have s: "tstep (example0\<lparr>mpc := MWait\<rparr>) example2"
    by (rule tstep.server [where e = "\<lparr>ev_fd = 0, evs = 0, accepted = [], fifo_data = [], expired = False,
          now = 0, client_read = RAgain\<rparr>"])
      (simp_all add: server_step_def example2_def example0_def event_ok_def)
  from m s have "tstep\<^sup>*\<^sup>* example0 example2" by (meson rtranclp.simps)
  with init show ?thesis by (auto simp: reachable_def)
qed



end
