(* ===== verification/Bounded_Queue.thy ===== *)
theory Bounded_Queue
  imports Prelude
begin

text \<open>
  The bounded queues of the threading labs behind one interface: the circular buffer of
  \<open>seance6/lab_multithreading_debug.c\<close>, the one-word register with its \<open>TXE\<close>/\<open>RXNE\<close> flags of
  \<open>seance6/producer_consumer2.c\<close>, and the shifting task array of the two
  \<open>lab35_threadpool.c\<close>. The interface's lemmas are proved once and used by the thread programs.
\<close>

subsection \<open>Interface\<close>

text \<open>What a client does with a queue, each operation behind its guard.\<close>

datatype 'a qop = Put 'a | Take

text \<open>
  \<open>run_ops\<close> is the guarded client: a \<open>Put\<close> on a full queue is refused, a \<open>Take\<close> on an empty
  one does nothing. It returns the queue with what was accepted and what was taken, in order.
\<close>

fun run_ops ::
  "('q \<Rightarrow> bool) \<Rightarrow> ('a \<Rightarrow> 'q \<Rightarrow> 'q) \<Rightarrow> ('q \<Rightarrow> bool) \<Rightarrow> ('q \<Rightarrow> 'a \<times> 'q) \<Rightarrow> 'a qop list \<Rightarrow>
   'q \<times> 'a list \<times> 'a list \<Rightarrow> 'q \<times> 'a list \<times> 'a list" where
  "run_ops isfull enq isempty deq [] s = s"
| "run_ops isfull enq isempty deq (Put x # ops) (q, ins, outs) =
     run_ops isfull enq isempty deq ops (if isfull q then (q, ins, outs) else (enq x q, ins @ [x], outs))"
| "run_ops isfull enq isempty deq (Take # ops) (q, ins, outs) =
     run_ops isfull enq isempty deq ops
       (if isempty q then (q, ins, outs) else (case deq q of (x, q') \<Rightarrow> (q', ins, outs @ [x])))"

locale bounded_queue =
  fixes isfull :: "'q \<Rightarrow> bool" and enq :: "'a \<Rightarrow> 'q \<Rightarrow> 'q"
    and isempty :: "'q \<Rightarrow> bool" and deq :: "'q \<Rightarrow> 'a \<times> 'q"
    and qinv :: "'q \<Rightarrow> bool" and contents :: "'q \<Rightarrow> 'a list" and capacity :: nat
  assumes capacity_pos: "0 < capacity"
    and full_iff: "qinv q \<Longrightarrow> isfull q \<longleftrightarrow> length (contents q) = capacity"
    and empty_iff: "qinv q \<Longrightarrow> isempty q \<longleftrightarrow> contents q = []"
    and bound: "qinv q \<Longrightarrow> length (contents q) \<le> capacity"
    and enq_inv: "qinv q \<Longrightarrow> \<not> isfull q \<Longrightarrow> qinv (enq x q)"
    and enq_contents: "qinv q \<Longrightarrow> \<not> isfull q \<Longrightarrow> contents (enq x q) = contents q @ [x]"
    and deq_inv: "qinv q \<Longrightarrow> \<not> isempty q \<Longrightarrow> qinv (snd (deq q))"
    and deq_contents: "qinv q \<Longrightarrow> \<not> isempty q \<Longrightarrow> contents q = fst (deq q) # contents (snd (deq q))"
begin

lemma not_both: "qinv q \<Longrightarrow> isempty q \<Longrightarrow> \<not> isfull q"
  using capacity_pos by (auto simp: full_iff empty_iff)

lemma enq_not_empty: "qinv q \<Longrightarrow> \<not> isfull q \<Longrightarrow> \<not> isempty (enq x q)"
  by (simp add: empty_iff enq_inv enq_contents)

lemma deq_not_full: "qinv q \<Longrightarrow> \<not> isempty q \<Longrightarrow> \<not> isfull (snd (deq q))"
  using deq_contents [of q] bound [of q] by (simp add: full_iff deq_inv)

text \<open>FIFO: what came in is what went out followed by what is still queued.\<close>

lemma run_ops_fifo:
  "qinv q \<Longrightarrow> ins = outs @ contents q \<Longrightarrow> run_ops isfull enq isempty deq ops (q, ins, outs) = (q', ins', outs') \<Longrightarrow>
   qinv q' \<and> ins' = outs' @ contents q'"
proof (induction ops arbitrary: q ins outs)
  case (Cons op ops)
  show ?case
  proof (cases op)
    case (Put x)
    show ?thesis
    proof (cases "isfull q")
      case True
      with Put Cons show ?thesis by simp
    next
      case False
      with Put Cons.IH [of "enq x q" "ins @ [x]" outs] Cons.prems show ?thesis
        by (simp add: enq_inv enq_contents)
    qed
  next
    case Take
    show ?thesis
    proof (cases "isempty q")
      case True
      with Take Cons show ?thesis by simp
    next
      case False
      obtain y r where d: "deq q = (y, r)" by fastforce
      have "qinv r" "contents q = y # contents r"
        using deq_inv [of q] deq_contents [of q] False d Cons.prems(1) by simp_all
      with Take False d Cons.IH [of r ins "outs @ [y]"] Cons.prems show ?thesis by simp
    qed
  qed
qed simp

end

subsection \<open>Circular buffer (\<open>lab_multithreading_debug.c\<close>)\<close>

definition QUEUE_CAPACITY :: nat where "QUEUE_CAPACITY = 5"

record ring =
  queue_buffer :: "int list"
  queue_head :: nat
  queue_tail :: nat
  queue_count :: nat

definition ring_init :: ring where
  "ring_init = \<lparr>queue_buffer = replicate QUEUE_CAPACITY 0, queue_head = 0, queue_tail = 0, queue_count = 0\<rparr>"

definition ring_full :: "ring \<Rightarrow> bool" where "ring_full r \<longleftrightarrow> queue_count r = QUEUE_CAPACITY"
definition ring_empty :: "ring \<Rightarrow> bool" where "ring_empty r \<longleftrightarrow> queue_count r = 0"

definition ring_put :: "int \<Rightarrow> ring \<Rightarrow> ring" where
  "ring_put item r =
     r\<lparr>queue_buffer := (queue_buffer r)[queue_tail r := item],
       queue_tail := (queue_tail r + 1) mod QUEUE_CAPACITY, queue_count := queue_count r + 1\<rparr>"

definition ring_take :: "ring \<Rightarrow> int \<times> ring" where
  "ring_take r =
     (queue_buffer r ! queue_head r,
      r\<lparr>queue_head := (queue_head r + 1) mod QUEUE_CAPACITY, queue_count := queue_count r - 1\<rparr>)"

definition ring_inv :: "ring \<Rightarrow> bool" where
  "ring_inv r \<longleftrightarrow> length (queue_buffer r) = QUEUE_CAPACITY \<and> queue_head r < QUEUE_CAPACITY
     \<and> queue_count r \<le> QUEUE_CAPACITY
     \<and> queue_tail r = (queue_head r + queue_count r) mod QUEUE_CAPACITY"

definition ring_contents :: "ring \<Rightarrow> int list" where
  "ring_contents r =
     map (\<lambda>i. queue_buffer r ! ((queue_head r + i) mod QUEUE_CAPACITY)) [0..<queue_count r]"


lemma mod_window_less:
  fixes i j n h :: nat
  assumes "i < j" "j < n"
  shows "(h + i) mod n \<noteq> (h + j) mod n"
proof
  assume "(h + i) mod n = (h + j) mod n"
  then have "n dvd (h + j) - (h + i)" using assms mod_eq_dvd_iff_nat [of "h + i" "h + j" n] by simp
  then have "n dvd j - i" by simp
  with assms show False using nat_dvd_not_less [of "j - i" n] by simp
qed

lemma ring_contents_put:
  assumes "ring_inv r" "\<not> ring_full r"
  shows "ring_contents (ring_put x r) = ring_contents r @ [x]"
proof -
  have c: "queue_count r < QUEUE_CAPACITY" using assms by (simp add: ring_inv_def ring_full_def)
  have t: "queue_tail r = (queue_head r + queue_count r) mod QUEUE_CAPACITY"
    "queue_tail r < length (queue_buffer r)"
    using assms(1) by (simp_all add: ring_inv_def QUEUE_CAPACITY_def)
  have "queue_tail r \<noteq> (queue_head r + i) mod QUEUE_CAPACITY" if "i < queue_count r" for i
    using mod_window_less [OF that c, of "queue_head r"] t(1) by simp
  with t(2) t(1) [symmetric] show ?thesis by (simp add: ring_contents_def ring_put_def)
qed

lemma ring_contents_take:
  assumes "ring_inv r" "\<not> ring_empty r"
  shows "ring_contents r = fst (ring_take r) # ring_contents (snd (ring_take r))"
proof -
  obtain n where n: "queue_count r = Suc n" using assms(2) by (cases "queue_count r") (auto simp: ring_empty_def)
  have h: "queue_head r < QUEUE_CAPACITY" using assms(1) by (simp add: ring_inv_def)
  have "(Suc (queue_head r) mod QUEUE_CAPACITY + i) mod QUEUE_CAPACITY = (queue_head r + Suc i) mod QUEUE_CAPACITY" for i
    by (simp add: mod_simps)
  with n h show ?thesis
    by (simp add: ring_contents_def ring_take_def upt_conv_Cons map_Suc_upt [symmetric] comp_def del: upt_Suc)
qed

interpretation rg: bounded_queue ring_full ring_put ring_empty ring_take ring_inv ring_contents QUEUE_CAPACITY
proof
  show "0 < QUEUE_CAPACITY" by (simp add: QUEUE_CAPACITY_def)
next
  fix r :: ring
  assume inv: "ring_inv r"
  show "ring_full r \<longleftrightarrow> length (ring_contents r) = QUEUE_CAPACITY" "ring_empty r \<longleftrightarrow> ring_contents r = []"
    "length (ring_contents r) \<le> QUEUE_CAPACITY"
    using inv by (simp_all add: ring_full_def ring_empty_def ring_contents_def ring_inv_def)
  show "ring_inv (ring_put x r)" if "\<not> ring_full r" for x
    using inv that by (simp add: ring_inv_def ring_put_def ring_full_def QUEUE_CAPACITY_def mod_simps)
  show "ring_contents (ring_put x r) = ring_contents r @ [x]" if "\<not> ring_full r" for x
    by (rule ring_contents_put [OF inv that])
  show "ring_inv (snd (ring_take r))" if "\<not> ring_empty r"
    using inv that by (cases "queue_count r")
      (simp_all add: ring_inv_def ring_take_def ring_empty_def QUEUE_CAPACITY_def mod_simps)
  show "ring_contents r = fst (ring_take r) # ring_contents (snd (ring_take r))" if "\<not> ring_empty r"
    by (rule ring_contents_take [OF inv that])
qed

subsection \<open>One-word register (\<open>producer_consumer2.c\<close>)\<close>

record data_register =
  data_reg :: int
  TXE :: bool
  RXNE :: bool

definition reg_init :: data_register where
  "reg_init = \<lparr>data_reg = 0, TXE = True, RXNE = False\<rparr>"

definition reg_full :: "data_register \<Rightarrow> bool" where "reg_full r \<longleftrightarrow> \<not> TXE r"
definition reg_empty :: "data_register \<Rightarrow> bool" where "reg_empty r \<longleftrightarrow> \<not> RXNE r"
definition reg_put :: "int \<Rightarrow> data_register \<Rightarrow> data_register" where
  "reg_put item r = r\<lparr>data_reg := item, TXE := False, RXNE := True\<rparr>"
definition reg_take :: "data_register \<Rightarrow> int \<times> data_register" where
  "reg_take r = (data_reg r, r\<lparr>RXNE := False, TXE := True\<rparr>)"

definition reg_inv :: "data_register \<Rightarrow> bool" where "reg_inv r \<longleftrightarrow> TXE r = (\<not> RXNE r)"
definition reg_contents :: "data_register \<Rightarrow> int list" where
  "reg_contents r = (if RXNE r then [data_reg r] else [])"

interpretation rd: bounded_queue reg_full reg_put reg_empty reg_take reg_inv reg_contents 1
  by unfold_locales
    (auto simp: reg_full_def reg_put_def reg_empty_def reg_take_def reg_inv_def reg_contents_def)

subsection \<open>Task array (\<open>lab35_threadpool.c\<close>)\<close>

text \<open>
  \<open>taskQueue\<close> is shifted down by one on every removal. A task is any value (the code's task is
  a function pointer).
\<close>

definition QUEUE_SIZE :: nat where "QUEUE_SIZE = 256"

record 'a task_array =
  taskQueue :: "'a list"
  taskCount :: nat

definition tasks_full :: "'a task_array \<Rightarrow> bool" where "tasks_full t \<longleftrightarrow> \<not> taskCount t < QUEUE_SIZE"
definition tasks_empty :: "'a task_array \<Rightarrow> bool" where "tasks_empty t \<longleftrightarrow> taskCount t = 0"

definition tasks_put :: "'a \<Rightarrow> 'a task_array \<Rightarrow> 'a task_array" where
  "tasks_put task t = t\<lparr>taskQueue := (taskQueue t)[taskCount t := task], taskCount := taskCount t + 1\<rparr>"

text \<open>The shift loop \<open>for (i = 0; i < taskCount - 1; i++) taskQueue[i] = taskQueue[i + 1]\<close>.\<close>

definition shift_tasks :: "nat \<Rightarrow> 'a list \<Rightarrow> 'a list" where
  "shift_tasks n xs = fold (\<lambda>i ys. ys[i := ys ! (i + 1)]) [0..<n] xs"

definition tasks_take :: "'a task_array \<Rightarrow> 'a \<times> 'a task_array" where
  "tasks_take t =
     (taskQueue t ! 0,
      t\<lparr>taskQueue := shift_tasks (taskCount t - 1) (taskQueue t), taskCount := taskCount t - 1\<rparr>)"

definition tasks_inv :: "'a task_array \<Rightarrow> bool" where
  "tasks_inv t \<longleftrightarrow> length (taskQueue t) = QUEUE_SIZE \<and> taskCount t \<le> QUEUE_SIZE"

definition tasks_contents :: "'a task_array \<Rightarrow> 'a list" where
  "tasks_contents t = take (taskCount t) (taskQueue t)"

lemma shift_tasks_spec:
  "n < length xs \<Longrightarrow>
   length (shift_tasks n xs) = length xs
   \<and> (\<forall>i < length xs. shift_tasks n xs ! i = (if i < n then xs ! (i + 1) else xs ! i))"
proof (induction n)
  case 0
  then show ?case by (simp add: shift_tasks_def)
next
  case (Suc n)
  have "shift_tasks (Suc n) xs = (shift_tasks n xs)[n := shift_tasks n xs ! (n + 1)]"
    by (simp add: shift_tasks_def)
  with Suc show ?case by (auto simp: nth_list_update less_Suc_eq)
qed

lemma tasks_contents_take:
  assumes "tasks_inv t" "\<not> tasks_empty t"
  shows "tasks_contents t = fst (tasks_take t) # tasks_contents (snd (tasks_take t))"
proof -
  obtain n where n: "taskCount t = Suc n" using assms(2) by (cases "taskCount t") (auto simp: tasks_empty_def)
  have len: "n < length (taskQueue t)" using assms(1) n by (simp add: tasks_inv_def)
  have "take n (shift_tasks n (taskQueue t)) = take n (drop 1 (taskQueue t))"
    using shift_tasks_spec [OF len] len by (intro nth_equalityI) auto
  moreover have "take (Suc n) (taskQueue t) = taskQueue t ! 0 # take n (drop 1 (taskQueue t))"
    using len by (cases "taskQueue t") auto
  ultimately show ?thesis by (simp add: tasks_contents_def tasks_take_def n)
qed

interpretation tq: bounded_queue tasks_full tasks_put tasks_empty tasks_take tasks_inv tasks_contents QUEUE_SIZE
proof
  show "0 < QUEUE_SIZE" by (simp add: QUEUE_SIZE_def)
next
  fix t :: "'a task_array"
  assume inv: "tasks_inv t"
  show "tasks_full t \<longleftrightarrow> length (tasks_contents t) = QUEUE_SIZE" "tasks_empty t \<longleftrightarrow> tasks_contents t = []"
    "length (tasks_contents t) \<le> QUEUE_SIZE"
    using inv by (auto simp: tasks_full_def tasks_empty_def tasks_contents_def tasks_inv_def QUEUE_SIZE_def)
  show "tasks_inv (tasks_put x t)" if "\<not> tasks_full t" for x
    using inv that by (simp add: tasks_inv_def tasks_put_def tasks_full_def)
  show "tasks_contents (tasks_put x t) = tasks_contents t @ [x]" if "\<not> tasks_full t" for x
    using inv that
    by (simp add: tasks_inv_def tasks_put_def tasks_full_def tasks_contents_def take_Suc_conv_app_nth)
  show "tasks_inv (snd (tasks_take t))" if "\<not> tasks_empty t"
    using inv that shift_tasks_spec [of "taskCount t - 1" "taskQueue t"]
    by (auto simp: tasks_inv_def tasks_take_def tasks_empty_def)
  show "tasks_contents t = fst (tasks_take t) # tasks_contents (snd (tasks_take t))" if "\<not> tasks_empty t"
    by (rule tasks_contents_take [OF inv that])
qed

end
