(* ===== verification/Producer_Consumer.thy ===== *)
theory Producer_Consumer
  imports Bounded_Queue
begin

text \<open>
  The producer and consumer threads of \<open>seance6/lab_multithreading_debug.c\<close> and
  \<open>seance6/producer_consumer2.c\<close>. Both programs have the same thread bodies around a different
  queue, so the bodies are written once over the queue operations and instantiated for the
  circular buffer and the register. One step is one statement between two scheduling points;
  the SIGINT handler may run between any two steps.
\<close>

subsection \<open>Threads\<close>

text \<open>
  Program points, the same for both threads: the loop head, before \<open>pthread_mutex_lock\<close>, the
  test of the waiting loop, inside \<open>pthread_cond_wait\<close> before the mutex is released, blocked,
  woken and waiting for the mutex, the check of \<open>g_running\<close>, before \<open>pthread_cond_signal\<close>,
  before \<open>pthread_mutex_unlock\<close>, and returned.
\<close>

datatype pc = Top | Lock | Test | EnterWait | Blocked | Woken | Check | Signal | Unlock | Done
datatype thread = Producer | Consumer

record 'q shared =
  g_running :: bool
  owner :: "thread option"
  que :: 'q
  item :: int
  ppc :: pc
  cpc :: pc
  produced :: "int list"
  consumed :: "int list"

definition wake :: "pc \<Rightarrow> pc" where
  "wake p = (if p = Blocked then Woken else p)"

definition acquire :: "thread \<Rightarrow> 'q shared \<Rightarrow> 'q shared option" where
  "acquire t s = (if owner s = None then Some (s\<lparr>owner := Some t\<rparr>) else None)"

definition release :: "'q shared \<Rightarrow> 'q shared" where
  "release s = s\<lparr>owner := None\<rparr>"

text \<open>\<open>None\<close>: the thread cannot move (the mutex is taken, it is blocked, or it has returned).\<close>

definition producer_step :: "('q \<Rightarrow> bool) \<Rightarrow> (int \<Rightarrow> 'q \<Rightarrow> 'q) \<Rightarrow> 'q shared \<Rightarrow> 'q shared option" where
  "producer_step isfull enq s =
     (case ppc s of
        Top \<Rightarrow> Some (s\<lparr>ppc := (if g_running s then Lock else Done)\<rparr>)
      | Lock \<Rightarrow> map_option (\<lambda>s. s\<lparr>ppc := Test\<rparr>) (acquire Producer s)
      | Test \<Rightarrow> Some (s\<lparr>ppc := (if isfull (que s) \<and> g_running s then EnterWait else Check)\<rparr>)
      | EnterWait \<Rightarrow> Some (release (s\<lparr>ppc := Blocked\<rparr>))
      | Blocked \<Rightarrow> None
      | Woken \<Rightarrow> map_option (\<lambda>s. s\<lparr>ppc := Test\<rparr>) (acquire Producer s)
      | Check \<Rightarrow>
          if \<not> g_running s then Some (release (s\<lparr>ppc := Done\<rparr>))
          else Some (s\<lparr>que := enq (item s) (que s), produced := produced s @ [item s], ppc := Signal\<rparr>)
      | Signal \<Rightarrow> Some (s\<lparr>cpc := wake (cpc s), ppc := Unlock\<rparr>)
      | Unlock \<Rightarrow> Some (release (s\<lparr>item := item s + 1, ppc := Top\<rparr>))
      | Done \<Rightarrow> None)"

definition consumer_step :: "('q \<Rightarrow> bool) \<Rightarrow> ('q \<Rightarrow> int \<times> 'q) \<Rightarrow> 'q shared \<Rightarrow> 'q shared option" where
  "consumer_step isempty deq s =
     (case cpc s of
        Top \<Rightarrow> Some (s\<lparr>cpc := (if g_running s then Lock else Done)\<rparr>)
      | Lock \<Rightarrow> map_option (\<lambda>s. s\<lparr>cpc := Test\<rparr>) (acquire Consumer s)
      | Test \<Rightarrow> Some (s\<lparr>cpc := (if isempty (que s) \<and> g_running s then EnterWait else Check)\<rparr>)
      | EnterWait \<Rightarrow> Some (release (s\<lparr>cpc := Blocked\<rparr>))
      | Blocked \<Rightarrow> None
      | Woken \<Rightarrow> map_option (\<lambda>s. s\<lparr>cpc := Test\<rparr>) (acquire Consumer s)
      | Check \<Rightarrow>
          if \<not> g_running s then Some (release (s\<lparr>cpc := Done\<rparr>))
          else (case deq (que s) of (x, q) \<Rightarrow>
                  Some (s\<lparr>que := q, consumed := consumed s @ [x], cpc := Signal\<rparr>))
      | Signal \<Rightarrow> Some (s\<lparr>ppc := wake (ppc s), cpc := Unlock\<rparr>)
      | Unlock \<Rightarrow> Some (release (s\<lparr>cpc := Top\<rparr>))
      | Done \<Rightarrow> None)"

text \<open>The handler broadcasts on both conditions.\<close>

definition sigint_handler :: "'q shared \<Rightarrow> 'q shared" where
  "sigint_handler s = s\<lparr>g_running := False, ppc := wake (ppc s), cpc := wake (cpc s)\<rparr>"

definition start :: "'q \<Rightarrow> 'q shared" where
  "start q = \<lparr>g_running = True, owner = None, que = q, item = 0, ppc = Top, cpc = Top,
     produced = [], consumed = []\<rparr>"

text \<open>
  \<open>spurious\<close>: POSIX lets \<open>pthread_cond_wait\<close> return without a signal.
\<close>

inductive pc_step ::
  "('q \<Rightarrow> bool) \<Rightarrow> (int \<Rightarrow> 'q \<Rightarrow> 'q) \<Rightarrow> ('q \<Rightarrow> bool) \<Rightarrow> ('q \<Rightarrow> int \<times> 'q) \<Rightarrow> 'q shared \<Rightarrow> 'q shared \<Rightarrow> bool"
  for isfull :: "'q \<Rightarrow> bool" and enq :: "int \<Rightarrow> 'q \<Rightarrow> 'q" and isempty :: "'q \<Rightarrow> bool" and deq :: "'q \<Rightarrow> int \<times> 'q" where
  producer: "producer_step isfull enq s = Some s' \<Longrightarrow> pc_step isfull enq isempty deq s s'"
| consumer: "consumer_step isempty deq s = Some s' \<Longrightarrow> pc_step isfull enq isempty deq s s'"
| sigint: "pc_step isfull enq isempty deq s (sigint_handler s)"
| spurious_p: "pc_step isfull enq isempty deq s (s\<lparr>ppc := wake (ppc s)\<rparr>)"
| spurious_c: "pc_step isfull enq isempty deq s (s\<lparr>cpc := wake (cpc s)\<rparr>)"

inductive_cases pc_stepE: "pc_step isfull enq isempty deq s s'"

text \<open>Running a schedule, for concrete runs.\<close>

datatype turn = P | C | Sig

fun run_turns ::
  "('q \<Rightarrow> bool) \<Rightarrow> (int \<Rightarrow> 'q \<Rightarrow> 'q) \<Rightarrow> ('q \<Rightarrow> bool) \<Rightarrow> ('q \<Rightarrow> int \<times> 'q) \<Rightarrow> turn list \<Rightarrow> 'q shared \<Rightarrow> 'q shared option" where
  "run_turns isfull enq isempty deq [] s = Some s"
| "run_turns isfull enq isempty deq (t # ts) s =
     (case (case t of P \<Rightarrow> producer_step isfull enq s | C \<Rightarrow> consumer_step isempty deq s | Sig \<Rightarrow> Some (sigint_handler s)) of
        None \<Rightarrow> None
      | Some s' \<Rightarrow> run_turns isfull enq isempty deq ts s')"

lemma run_turns_steps:
  "run_turns isfull enq isempty deq ts s = Some s' \<Longrightarrow> (pc_step isfull enq isempty deq)\<^sup>*\<^sup>* s s'"
proof (induction ts arbitrary: s)
  case (Cons t ts)
  then obtain s1 where s1: "(case t of P \<Rightarrow> producer_step isfull enq s | C \<Rightarrow> consumer_step isempty deq s
      | Sig \<Rightarrow> Some (sigint_handler s)) = Some s1" "run_turns isfull enq isempty deq ts s1 = Some s'"
    by (auto split: option.splits)
  from s1(1) have "pc_step isfull enq isempty deq s s1"
    by (cases t) (auto intro: pc_step.intros)
  with Cons.IH [OF s1(2)] show ?case by (meson converse_rtranclp_into_rtranclp)
qed simp

subsection \<open>Invariant\<close>

definition critical :: "pc \<Rightarrow> bool" where
  "critical p \<longleftrightarrow> p \<in> {Test, EnterWait, Check, Signal, Unlock}"

text \<open>The thread that owns the mutex is the one inside the critical section.\<close>

definition mutex_inv :: "'q shared \<Rightarrow> bool" where
  "mutex_inv s \<longleftrightarrow> (owner s = Some Producer \<longleftrightarrow> critical (ppc s)) \<and> (owner s = Some Consumer \<longleftrightarrow> critical (cpc s))"

text \<open>
  While the program runs, a thread that found its condition false and waits is still right to
  wait, or the other thread has yet to signal it.
\<close>

definition wait_inv :: "('q \<Rightarrow> bool) \<Rightarrow> ('q \<Rightarrow> bool) \<Rightarrow> 'q shared \<Rightarrow> bool" where
  "wait_inv isfull isempty s \<longleftrightarrow>
     (ppc s = EnterWait \<longrightarrow> isfull (que s)) \<and> (cpc s = EnterWait \<longrightarrow> isempty (que s))
   \<and> (ppc s = Check \<and> g_running s \<longrightarrow> \<not> isfull (que s)) \<and> (cpc s = Check \<and> g_running s \<longrightarrow> \<not> isempty (que s))
   \<and> (ppc s = Blocked \<and> g_running s \<longrightarrow> isfull (que s) \<or> cpc s = Signal)
   \<and> (cpc s = Blocked \<and> g_running s \<longrightarrow> isempty (que s) \<or> ppc s = Signal)
   \<and> (ppc s = Done \<or> cpc s = Done \<longrightarrow> \<not> g_running s)"

definition numbered :: "int list \<Rightarrow> bool" where
  "numbered xs \<longleftrightarrow> xs = map int [0..<length xs]"

lemma numbered_Nil [simp]: "numbered []"
  by (simp add: numbered_def)

lemma numbered_snoc [simp]: "numbered (xs @ [x]) \<longleftrightarrow> numbered xs \<and> x = int (length xs)"
  by (simp add: numbered_def)

lemma numbered_snoc2 [simp]: "numbered (xs @ ys @ [x]) \<longleftrightarrow> numbered (xs @ ys) \<and> x = int (length (xs @ ys))"
  using numbered_snoc [of "xs @ ys" x] by simp

text \<open>The numbers produced so far, and that consumption is in order and without loss.\<close>

definition data_inv :: "('q \<Rightarrow> bool) \<Rightarrow> ('q \<Rightarrow> int list) \<Rightarrow> 'q shared \<Rightarrow> bool" where
  "data_inv qinv contents s \<longleftrightarrow> qinv (que s)
   \<and> produced s = consumed s @ contents (que s)
   \<and> numbered (produced s)
   \<and> int (length (produced s)) = (if ppc s \<in> {Signal, Unlock} then item s + 1 else item s)"

text \<open>The number of items begun, which is what the frame of \<open>data_inv\<close> depends on.\<close>

definition cnt :: "'q shared \<Rightarrow> int" where
  "cnt s = (if ppc s \<in> {Signal, Unlock} then item s + 1 else item s)"

lemma data_inv_cnt:
  "data_inv qinv contents s \<longleftrightarrow> qinv (que s) \<and> produced s = consumed s @ contents (que s)
    \<and> numbered (produced s) \<and> int (length (produced s)) = cnt s"
  by (simp add: data_inv_def cnt_def)

lemma data_inv_wake [simp]:
  "data_inv qinv contents (s\<lparr>ppc := wake (ppc s)\<rparr>) = data_inv qinv contents s"
  "data_inv qinv contents (s\<lparr>cpc := p\<rparr>) = data_inv qinv contents s"
  "data_inv qinv contents (sigint_handler s) = data_inv qinv contents s"
  by (simp_all add: data_inv_def sigint_handler_def wake_def)

definition pc_inv where
  "pc_inv isfull isempty qinv contents s \<longleftrightarrow>
     mutex_inv s \<and> wait_inv isfull isempty s \<and> data_inv qinv contents s"

declare critical_def [inv_defs] mutex_inv_def [inv_defs] wait_inv_def [inv_defs] data_inv_def [inv_defs]
  pc_inv_def [inv_defs]
declare wake_def [thread_defs] acquire_def [thread_defs] release_def [thread_defs]
  producer_step_def [thread_defs] consumer_step_def [thread_defs] sigint_handler_def [thread_defs]
  start_def [thread_defs]

lemma wake_simps [simp]:
  "wake p = Blocked \<longleftrightarrow> False" "wake p = Done \<longleftrightarrow> p = Done" "wake p = Check \<longleftrightarrow> p = Check"
  "wake p = EnterWait \<longleftrightarrow> p = EnterWait" "wake p = Signal \<longleftrightarrow> p = Signal" "wake p = Unlock \<longleftrightarrow> p = Unlock"
  "wake p = Test \<longleftrightarrow> p = Test" "wake p = Top \<longleftrightarrow> p = Top" "critical (wake p) = critical p"
  by (auto simp: wake_def critical_def)

lemma critical_simps [simp]:
  "critical Test" "critical EnterWait" "critical Check" "critical Signal" "critical Unlock"
  "\<not> critical Top" "\<not> critical Lock" "\<not> critical Blocked" "\<not> critical Woken" "\<not> critical Done"
  by (simp_all add: critical_def)

subsection \<open>The threads over any bounded queue of numbers\<close>

locale int_queue = bounded_queue isfull enq isempty deq qinv contents capacity
  for isfull :: "'q \<Rightarrow> bool" and enq :: "int \<Rightarrow> 'q \<Rightarrow> 'q" and isempty :: "'q \<Rightarrow> bool"
    and deq :: "'q \<Rightarrow> int \<times> 'q" and qinv :: "'q \<Rightarrow> bool" and contents :: "'q \<Rightarrow> int list" and capacity :: nat +
  fixes init :: 'q
  assumes init_inv: "qinv init" and init_contents: "contents init = []"
begin

lemma start_inv: "pc_inv isfull isempty qinv contents (start init)"
  by (simp add: start_def inv_defs init_inv init_contents)

lemma producer_inv:
  assumes "pc_inv isfull isempty qinv contents s" "producer_step isfull enq s = Some s'"
  shows "pc_inv isfull isempty qinv contents s'"
proof (cases "ppc s = Check \<and> g_running s")
  case True
  then have "qinv (que s)" "\<not> isfull (que s)" using assms(1) by (simp_all add: pc_inv_def wait_inv_def data_inv_def)
  then have q: "qinv (enq (item s) (que s))" "contents (enq (item s) (que s)) = contents (que s) @ [item s]"
    by (simp_all add: enq_inv enq_contents)
  have cons: "\<not> critical (cpc s)" using assms(1) True by (auto simp: pc_inv_def mutex_inv_def)
  have s': "s' = s\<lparr>que := enq (item s) (que s), produced := produced s @ [item s], ppc := Signal\<rparr>"
    using True assms(2) by (simp add: producer_step_def)
  have "data_inv qinv contents s" "mutex_inv s" "wait_inv isfull isempty s"
    using assms(1) by (simp_all add: pc_inv_def)
  note inv = this [unfolded data_inv_def]
  have "data_inv qinv contents s'"
    using inv(1) q True by (elim conjE) (simp add: s' data_inv_def)
  moreover have "mutex_inv s'" using inv(2) True by (auto simp: s' mutex_inv_def)
  moreover have "wait_inv isfull isempty s'" using inv(3) True cons
    by (cases "cpc s") (simp_all add: s' wait_inv_def)
  ultimately show ?thesis by (simp add: pc_inv_def)
next
  case False
  have frame: "que s' = que s" "produced s' = produced s" "consumed s' = consumed s" "cnt s' = cnt s"
    using assms(2) False by (cases "ppc s"; auto simp: producer_step_def acquire_def release_def cnt_def split: if_splits)+
  have "data_inv qinv contents s'" using assms(1) unfolding pc_inv_def data_inv_cnt frame by blast
  moreover have "mutex_inv s'" using assms(1) [unfolded pc_inv_def, THEN conjunct1] assms(2) False
    by (cases "ppc s") (auto simp: producer_step_def acquire_def release_def mutex_inv_def split: if_splits)
  moreover have "wait_inv isfull isempty s'"
    using assms(1) [unfolded pc_inv_def, THEN conjunct2, THEN conjunct1] assms(2) False
    by (cases "ppc s"; clarsimp simp: producer_step_def acquire_def release_def wait_inv_def split: if_split_asm)
  ultimately show ?thesis by (simp add: pc_inv_def)
qed

lemma consumer_inv:
  assumes "pc_inv isfull isempty qinv contents s" "consumer_step isempty deq s = Some s'"
  shows "pc_inv isfull isempty qinv contents s'"
proof (cases "cpc s = Check \<and> g_running s")
  case True
  obtain x q where d: "deq (que s) = (x, q)" by fastforce
  have "qinv (que s)" "\<not> isempty (que s)" using True assms(1) by (simp_all add: pc_inv_def wait_inv_def data_inv_def)
  then have q: "qinv q" "contents (que s) = x # contents q"
    using deq_inv [of "que s"] deq_contents [of "que s"] d by simp_all
  have prod: "\<not> critical (ppc s)" using assms(1) True by (auto simp: pc_inv_def mutex_inv_def)
  have s': "s' = s\<lparr>que := q, consumed := consumed s @ [x], cpc := Signal\<rparr>"
    using True assms(2) d by (simp add: consumer_step_def)
  have "data_inv qinv contents s" "mutex_inv s" "wait_inv isfull isempty s"
    using assms(1) by (simp_all add: pc_inv_def)
  note inv = this [unfolded data_inv_def]
  have "data_inv qinv contents s'"
    using inv(1) q True by (elim conjE) (simp add: s' data_inv_def)
  moreover have "mutex_inv s'" using inv(2) True by (auto simp: s' mutex_inv_def)
  moreover have "wait_inv isfull isempty s'" using inv(3) True prod
    by (cases "ppc s") (simp_all add: s' wait_inv_def)
  ultimately show ?thesis by (simp add: pc_inv_def)
next
  case False
  have frame: "que s' = que s" "produced s' = produced s" "consumed s' = consumed s" "cnt s' = cnt s"
    using assms(2) False by (cases "cpc s"; auto simp: consumer_step_def acquire_def release_def cnt_def split: if_splits)+
  have "data_inv qinv contents s'" using assms(1) unfolding pc_inv_def data_inv_cnt frame by blast
  moreover have "mutex_inv s'" using assms(1) [unfolded pc_inv_def, THEN conjunct1] assms(2) False
    by (cases "cpc s") (auto simp: consumer_step_def acquire_def release_def mutex_inv_def split: if_splits)
  moreover have "wait_inv isfull isempty s'"
    using assms(1) [unfolded pc_inv_def, THEN conjunct2, THEN conjunct1] assms(2) False
    by (cases "cpc s"; clarsimp simp: consumer_step_def acquire_def release_def wait_inv_def split: if_split_asm)
  ultimately show ?thesis by (simp add: pc_inv_def)
qed

lemma wakeups_inv:
  assumes "pc_inv isfull isempty qinv contents s"
  shows "pc_inv isfull isempty qinv contents (s\<lparr>ppc := wake (ppc s)\<rparr>)"
    "pc_inv isfull isempty qinv contents (s\<lparr>cpc := wake (cpc s)\<rparr>)"
    "pc_inv isfull isempty qinv contents (sigint_handler s)"
proof -
  have "data_inv qinv contents s" "mutex_inv s" "wait_inv isfull isempty s"
    using assms by (simp_all add: pc_inv_def)
  then show "pc_inv isfull isempty qinv contents (s\<lparr>ppc := wake (ppc s)\<rparr>)"
    "pc_inv isfull isempty qinv contents (s\<lparr>cpc := wake (cpc s)\<rparr>)"
    "pc_inv isfull isempty qinv contents (sigint_handler s)"
    by (simp_all add: pc_inv_def) (simp_all add: mutex_inv_def wait_inv_def sigint_handler_def)
qed

lemma step_inv:
  "pc_inv isfull isempty qinv contents s \<Longrightarrow> pc_step isfull enq isempty deq s s' \<Longrightarrow>
   pc_inv isfull isempty qinv contents s'"
  by (elim pc_stepE) (auto intro: producer_inv consumer_inv wakeups_inv)

lemma steps_inv:
  "(pc_step isfull enq isempty deq)\<^sup>*\<^sup>* (start init) s \<Longrightarrow> pc_inv isfull isempty qinv contents s"
  by (induction rule: rtranclp_induct) (auto intro: start_inv step_inv)

text \<open>While the program runs it never deadlocks, whatever the scheduler does.\<close>

lemma no_deadlock:
  assumes "(pc_step isfull enq isempty deq)\<^sup>*\<^sup>* (start init) s" "g_running s"
  shows "producer_step isfull enq s \<noteq> None \<or> consumer_step isempty deq s \<noteq> None"
proof (rule ccontr)
  assume stuck: "\<not> ?thesis"
  have inv: "pc_inv isfull isempty qinv contents s" by (rule steps_inv [OF assms(1)])
  have "ppc s = Blocked \<or> (ppc s = Lock \<or> ppc s = Woken) \<and> owner s \<noteq> None"
    using stuck inv assms(2)
    by (cases "ppc s") (auto simp: producer_step_def acquire_def pc_inv_def wait_inv_def split: if_splits)
  moreover have "cpc s = Blocked \<or> (cpc s = Lock \<or> cpc s = Woken) \<and> owner s \<noteq> None"
    using stuck inv assms(2)
    by (cases "cpc s") (auto simp: consumer_step_def acquire_def pc_inv_def wait_inv_def split: if_splits prod.splits)
  moreover have "owner s = None"
  proof (cases "owner s")
    case (Some t)
    then have "critical (ppc s) \<or> critical (cpc s)" using inv by (cases t) (auto simp: pc_inv_def mutex_inv_def)
    with calculation show ?thesis by auto
  qed
  ultimately have "ppc s = Blocked" "cpc s = Blocked" by auto
  with inv assms(2) have "isfull (que s)" "isempty (que s)" "qinv (que s)"
    by (auto simp: pc_inv_def wait_inv_def data_inv_def)
  with not_both show False by blast
qed

end

subsection \<open>The two programs\<close>

lemma ring_init_ok: "ring_inv ring_init" "ring_contents ring_init = []"
  by (simp_all add: ring_init_def ring_inv_def ring_contents_def QUEUE_CAPACITY_def)

interpretation rgp: int_queue ring_full ring_put ring_empty ring_take ring_inv ring_contents QUEUE_CAPACITY ring_init
  by unfold_locales (simp_all add: ring_init_ok)

interpretation rdp: int_queue reg_full reg_put reg_empty reg_take reg_inv reg_contents 1 reg_init
  by unfold_locales (simp_all add: reg_init_def reg_inv_def reg_contents_def)

definition ring_program :: "ring shared \<Rightarrow> bool" where
  "ring_program s \<longleftrightarrow> (pc_step ring_full ring_put ring_empty ring_take)\<^sup>*\<^sup>* (start ring_init) s"

definition reg_program :: "data_register shared \<Rightarrow> bool" where
  "reg_program s \<longleftrightarrow> (pc_step reg_full reg_put reg_empty reg_take)\<^sup>*\<^sup>* (start reg_init) s"

lemma ring_program_run:
  "run_turns ring_full ring_put ring_empty ring_take ts (start ring_init) = Some s \<Longrightarrow> ring_program s"
  unfolding ring_program_def by (rule run_turns_steps)

lemma reg_program_run:
  "run_turns reg_full reg_put reg_empty reg_take ts (start reg_init) = Some s \<Longrightarrow> reg_program s"
  unfolding reg_program_def by (rule run_turns_steps)

text \<open>A run of each program to use in witnesses: the producer delivers one item.\<close>

definition one_item :: "turn list" where "one_item = [P, P, P, P, P, P]"

definition ring_one :: "ring shared" where
  "ring_one = start ring_init\<lparr>que := ring_put 0 ring_init, item := 1, produced := [0]\<rparr>"

definition reg_one :: "data_register shared" where
  "reg_one = start reg_init\<lparr>que := reg_put 0 reg_init, item := 1, produced := [0]\<rparr>"

lemma ring_after_one:
  "run_turns ring_full ring_put ring_empty ring_take one_item (start ring_init)
     = Some ring_one"
  by (simp add: ring_one_def one_item_def thread_defs ring_full_def ring_init_def ring_put_def QUEUE_CAPACITY_def)

lemma reg_after_one:
  "run_turns reg_full reg_put reg_empty reg_take one_item (start reg_init)
     = Some reg_one"
  by (simp add: reg_one_def one_item_def thread_defs reg_full_def reg_init_def reg_put_def)

text \<open>C6: In \<open>lab_multithreading_debug.c\<close>, at every moment of every interleaving, the consumer has
  received an initial part of \<open>0, 1, 2, ...\<close> in order, and the rest of what was produced is exactly
  what the circular buffer holds, at most five items: nothing is lost, duplicated or overwritten.\<close>

theorem ring_program_fifo:
  assumes "ring_program s"
  shows "produced s = consumed s @ ring_contents (que s) \<and> produced s = map int [0..<length (produced s)]
       \<and> length (ring_contents (que s)) \<le> 5"
proof -
  have "pc_inv ring_full ring_empty ring_inv ring_contents s"
    using assms unfolding ring_program_def by (rule rgp.steps_inv)
  then have d: "data_inv ring_inv ring_contents s" by (simp add: pc_inv_def)
  then have "length (ring_contents (que s)) \<le> QUEUE_CAPACITY" by (intro rg.bound) (simp add: data_inv_def)
  with d show ?thesis unfolding data_inv_def numbered_def QUEUE_CAPACITY_def by blast
qed

theorem ring_program_fifo_witness:
  "produced ring_one = consumed ring_one @ ring_contents (que ring_one)
   \<and> produced ring_one = map int [0..<length (produced ring_one)] \<and> length (ring_contents (que ring_one)) \<le> 5"
  by (rule ring_program_fifo [OF ring_program_run [OF ring_after_one]])

text \<open>C23: While \<open>g_running\<close> is set, \<open>lab_multithreading_debug.c\<close> never deadlocks: one of the two
  threads can always take a step, whatever the scheduler and spurious wakeups do.\<close>

theorem ring_program_no_deadlock:
  assumes "ring_program s" "g_running s"
  shows "\<not> (producer_step ring_full ring_put s = None \<and> consumer_step ring_empty ring_take s = None)"
  using rgp.no_deadlock [of s] assms unfolding ring_program_def by blast

theorem ring_program_no_deadlock_witness:
  "\<not> (producer_step ring_full ring_put ring_one = None \<and> consumer_step ring_empty ring_take ring_one = None)"
  by (rule ring_program_no_deadlock [OF ring_program_run [OF ring_after_one]]) (simp add: ring_one_def start_def)

text \<open>The stop by Ctrl+C is not always clean: a SIGINT that arrives after the consumer tested
  its condition and before \<open>pthread_cond_wait\<close> released the mutex broadcasts to nobody; the producer
  returns and the consumer is blocked with no thread left to signal it.\<close>

theorem ring_program_stop_can_hang:
  "\<exists>s. ring_program s \<and> \<not> g_running s \<and> ppc s = Done \<and> cpc s = Blocked
     \<and> producer_step ring_full ring_put s = None \<and> consumer_step ring_empty ring_take s = None"
proof -
  have "run_turns ring_full ring_put ring_empty ring_take [C, C, C, Sig, C, P] (start ring_init)
      = Some (start ring_init\<lparr>g_running := False, ppc := Done, cpc := Blocked\<rparr>)"
    by (simp add: thread_defs ring_empty_def ring_init_def)
  from ring_program_run [OF this] show ?thesis
    by (intro exI [of _ "start ring_init\<lparr>g_running := False, ppc := Done, cpc := Blocked\<rparr>"])
      (simp add: thread_defs)
qed

text \<open>In \<open>producer_consumer2.c\<close> the \<open>TXE\<close>/\<open>RXNE\<close> handshake delivers every number exactly once
  and in order: at most the last one produced is not yet consumed, and then it is the word in
  \<open>data_reg\<close>.\<close>

theorem reg_program_fifo:
  assumes "reg_program s"
  shows "produced s = consumed s @ (if RXNE (que s) then [data_reg (que s)] else [])
       \<and> produced s = map int [0..<length (produced s)] \<and> TXE (que s) = (\<not> RXNE (que s))"
proof -
  have "pc_inv reg_full reg_empty reg_inv reg_contents s"
    using assms unfolding reg_program_def by (rule rdp.steps_inv)
  then have d: "data_inv reg_inv reg_contents s" by (simp add: pc_inv_def)
  then show ?thesis unfolding data_inv_def numbered_def reg_inv_def reg_contents_def by blast
qed

theorem reg_program_fifo_witness:
  "produced reg_one = consumed reg_one @ (if RXNE (que reg_one) then [data_reg (que reg_one)] else [])
   \<and> produced reg_one = map int [0..<length (produced reg_one)] \<and> TXE (que reg_one) = (\<not> RXNE (que reg_one))"
  by (rule reg_program_fifo [OF reg_program_run [OF reg_after_one]])

text \<open>\<open>producer_consumer2.c\<close> is deadlock-free while \<open>g_running\<close> is set.\<close>

theorem reg_program_no_deadlock:
  assumes "reg_program s" "g_running s"
  shows "\<not> (producer_step reg_full reg_put s = None \<and> consumer_step reg_empty reg_take s = None)"
  using rdp.no_deadlock [of s] assms unfolding reg_program_def by blast

theorem reg_program_no_deadlock_witness:
  "\<not> (producer_step reg_full reg_put reg_one = None \<and> consumer_step reg_empty reg_take reg_one = None)"
  by (rule reg_program_no_deadlock [OF reg_program_run [OF reg_after_one]]) (simp add: reg_one_def start_def)

subsection \<open>The register without a handshake (\<open>producer_consumer1.c\<close>)\<close>

text \<open>
  Its loops only write and read \<open>data_reg\<close>; a turn of a loop is one step (\<open>g_running\<close> is tested
  twice, the second test right before the access).
\<close>

record unsynced =
  running1 :: bool
  reg1 :: int
  item1 :: int
  wrote :: "int list"
  got :: "int list"

definition unsynced_init :: unsynced where
  "unsynced_init = \<lparr>running1 = True, reg1 = 0, item1 = 0, wrote = [], got = []\<rparr>"

definition produce1 :: "unsynced \<Rightarrow> unsynced" where
  "produce1 s = (if running1 s then s\<lparr>reg1 := item1 s, wrote := wrote s @ [item1 s], item1 := item1 s + 1\<rparr> else s)"

definition consume1 :: "unsynced \<Rightarrow> unsynced" where
  "consume1 s = (if running1 s then s\<lparr>got := got s @ [reg1 s]\<rparr> else s)"

fun run1 :: "turn list \<Rightarrow> unsynced \<Rightarrow> unsynced" where
  "run1 [] s = s"
| "run1 (t # ts) s =
     run1 ts (case t of P \<Rightarrow> produce1 s | C \<Rightarrow> consume1 s | Sig \<Rightarrow> s\<lparr>running1 := False\<rparr>)"

text \<open>\<open>producer_consumer1.c\<close> announces a TXE/RXNE handshake in its comments and prints its
  flags, but has none: there are schedules in which an item is read before any was written, read
  twice, or overwritten unread.\<close>

theorem unsynced_loses_and_duplicates:
  "got (run1 [C] unsynced_init) = [0] \<and> wrote (run1 [C] unsynced_init) = []
   \<and> got (run1 [P, C, C] unsynced_init) = [0, 0]
   \<and> wrote (run1 [P, P, C] unsynced_init) = [0, 1] \<and> got (run1 [P, P, C] unsynced_init) = [1]"
  by (simp add: unsynced_init_def produce1_def consume1_def)

end
