(* ===== verification/Thread_Pool.thy ===== *)
theory Thread_Pool
  imports Bounded_Queue "HOL-Library.Multiset"
begin

text \<open>
  The thread pools \<open>seance6/lab35_threadpool.c\<close> (with shutdown) and \<open>thread/lab35_threadpool.c\<close>
  (without). All shared state is accessed under the one mutex, so a critical section is one step;
  a worker that waits leaves its section in \<open>pthread_cond_wait\<close> and enters it again when woken.
  Task \<open>i\<close> is the \<open>i\<close>-th one the main thread submits.
\<close>

subsection \<open>State and steps\<close>

datatype worker = Ready | Blocked | Run nat | Exited

record pool =
  tasks :: "nat task_array"
  shutdown :: bool
  submitted :: nat
  workers :: "worker list"
  accepted :: "nat list"
  dropped :: "nat list"
  taken :: "nat list"
  executed :: "nat list"

definition pool_init :: "nat \<Rightarrow> pool" where
  "pool_init n =
     \<lparr>tasks = \<lparr>taskQueue = replicate QUEUE_SIZE 0, taskCount = 0\<rparr>, shutdown = False, submitted = 0,
       workers = replicate n Ready, accepted = [], dropped = [], taken = [], executed = []\<rparr>"

definition wake_worker :: "worker \<Rightarrow> worker" where
  "wake_worker w = (if w = Blocked then Ready else w)"

text \<open>
  \<open>pthread_cond_signal\<close> wakes one of the blocked workers, if there is one: \<open>w\<close> is the choice of
  the system.
\<close>

definition signal_ok :: "worker list \<Rightarrow> nat \<Rightarrow> bool" where
  "signal_ok ws w \<longleftrightarrow> Blocked \<in> set ws \<longrightarrow> w < length ws \<and> ws ! w = Blocked"

definition cond_signal :: "nat \<Rightarrow> worker list \<Rightarrow> worker list" where
  "cond_signal w ws = (if w < length ws then ws[w := wake_worker (ws ! w)] else ws)"

definition submitTask :: "nat \<Rightarrow> pool \<Rightarrow> pool" where
  "submitTask w p =
     (let task = submitted p; p = p\<lparr>submitted := submitted p + 1\<rparr>
      in if taskCount (tasks p) < QUEUE_SIZE
         then p\<lparr>tasks := tasks_put task (tasks p), accepted := accepted p @ [task],
                workers := cond_signal w (workers p)\<rparr>
         else p\<lparr>dropped := dropped p @ [task]\<rparr>)"

definition shutdownThreadPool :: "pool \<Rightarrow> pool" where
  "shutdownThreadPool p = p\<lparr>shutdown := True, workers := map wake_worker (workers p)\<rparr>"

text \<open>
  One turn of worker \<open>w\<close>: the critical section of \<open>startThread\<close> from the lock to the wait, the
  exit or the removal of a task, or the execution of its task. \<open>None\<close>: it cannot move.
\<close>

definition startThread_step :: "nat \<Rightarrow> pool \<Rightarrow> pool option" where
  "startThread_step w p =
     (if w < length (workers p) then
        (case workers p ! w of
           Ready \<Rightarrow>
             if taskCount (tasks p) = 0 \<and> \<not> shutdown p then Some (p\<lparr>workers := (workers p)[w := Blocked]\<rparr>)
             else if taskCount (tasks p) = 0 \<and> shutdown p then Some (p\<lparr>workers := (workers p)[w := Exited]\<rparr>)
             else (case tasks_take (tasks p) of (task, ts) \<Rightarrow>
                     Some (p\<lparr>tasks := ts, taken := taken p @ [task], workers := (workers p)[w := Run task]\<rparr>))
         | Blocked \<Rightarrow> None
         | Run task \<Rightarrow> Some (p\<lparr>executed := executed p @ [task], workers := (workers p)[w := Ready]\<rparr>)
         | Exited \<Rightarrow> None)
      else None)"

text \<open>The main thread submits \<open>n\<close> tasks, then shuts the pool down (only in the first program).\<close>

inductive pool_step :: "nat \<Rightarrow> bool \<Rightarrow> pool \<Rightarrow> pool \<Rightarrow> bool" for n :: nat and stops :: bool where
  submit: "submitted p < n \<Longrightarrow> signal_ok (workers p) w \<Longrightarrow> pool_step n stops p (submitTask w p)"
| shut: "submitted p = n \<Longrightarrow> stops \<Longrightarrow> \<not> shutdown p \<Longrightarrow> pool_step n stops p (shutdownThreadPool p)"
| work: "startThread_step w p = Some p' \<Longrightarrow> pool_step n stops p p'"

inductive_cases pool_stepE: "pool_step n stops p p'"

definition NUM_TASKS :: nat where "NUM_TASKS = 300"
definition THREAD_POOL_SIZE :: nat where "THREAD_POOL_SIZE = 1"

subsection \<open>Invariant\<close>

fun in_hand :: "worker \<Rightarrow> nat multiset" where
  "in_hand (Run t) = {#t#}"
| "in_hand _ = {#}"

definition running_tasks :: "pool \<Rightarrow> nat multiset" where
  "running_tasks p = (\<Sum>w \<in># mset (workers p). in_hand w)"

text \<open>
  Accepted tasks are taken in order; what is taken is executed or in the hands of a worker; every
  submitted task was accepted or dropped.
\<close>

definition flow_inv :: "pool \<Rightarrow> bool" where
  "flow_inv p \<longleftrightarrow> tasks_inv (tasks p) \<and> accepted p = taken p @ tasks_contents (tasks p)
     \<and> mset (taken p) = mset (executed p) + running_tasks p
     \<and> mset (accepted p) + mset (dropped p) = mset [0..<submitted p]"

text \<open>
  No wakeup is lost: while a task is queued some worker is awake, and after the shutdown no worker
  is blocked and one has exited only when the queue was empty for good.
\<close>

definition wake_inv :: "nat \<Rightarrow> pool \<Rightarrow> bool" where
  "wake_inv n p \<longleftrightarrow>
     (taskCount (tasks p) > 0 \<and> workers p \<noteq> [] \<longrightarrow> (\<exists>w \<in> set (workers p). w \<noteq> Blocked))
   \<and> (shutdown p \<longrightarrow> Blocked \<notin> set (workers p) \<and> submitted p = n)
   \<and> (Exited \<in> set (workers p) \<longrightarrow> shutdown p \<and> taskCount (tasks p) = 0)
   \<and> submitted p \<le> n"

definition pool_inv :: "nat \<Rightarrow> pool \<Rightarrow> bool" where
  "pool_inv n p \<longleftrightarrow> flow_inv p \<and> wake_inv n p"

lemma flow_invI:
  "tasks_inv (tasks p) \<Longrightarrow> accepted p = taken p @ tasks_contents (tasks p) \<Longrightarrow>
   mset (taken p) = mset (executed p) + running_tasks p \<Longrightarrow>
   mset (accepted p) + mset (dropped p) = mset [0..<submitted p] \<Longrightarrow> flow_inv p"
  by (simp add: flow_inv_def)

lemma flow_invD:
  assumes "flow_inv p"
  shows "tasks_inv (tasks p)" "taken p @ tasks_contents (tasks p) = accepted p"
    "mset (executed p) + running_tasks p = mset (taken p)"
    "mset (accepted p) + mset (dropped p) = mset [0..<submitted p]"
  using assms by (auto simp: flow_inv_def)

lemma sum_mset_update:
  "w < length xs \<Longrightarrow> (\<Sum>x \<in># mset (xs[w := y]). f x) + f (xs ! w) = (\<Sum>x \<in># mset xs. f x) + f y"
  for f :: "'a \<Rightarrow> 'b multiset"
  by (induction xs arbitrary: w) (auto split: nat.splits simp: add_ac)

lemma in_hand_wake [simp]: "in_hand (wake_worker w) = in_hand w"
  by (simp add: wake_worker_def)

lemma running_cond_signal [simp]: "(\<Sum>x \<in># mset (cond_signal w ws). in_hand x) = (\<Sum>x \<in># mset ws. in_hand x)"
  using sum_mset_update [of w ws in_hand "wake_worker (ws ! w)"] by (simp add: cond_signal_def)

lemma running_broadcast [simp]: "(\<Sum>x \<in># mset (map wake_worker ws). in_hand x) = (\<Sum>x \<in># mset ws. in_hand x)"
  by (induction ws) simp_all

lemma image_wake [simp]: "image_mset in_hand (image_mset wake_worker M) = image_mset in_hand M"
  by (simp add: image_mset.compositionality comp_def)

lemma init_pool_inv: "pool_inv n (pool_init k)"
  by (auto simp: pool_init_def pool_inv_def flow_inv_def wake_inv_def running_tasks_def tasks_inv_def
      tasks_contents_def)

lemma submit_inv:
  assumes "pool_inv n p" "submitted p < n" "signal_ok (workers p) w"
  shows "pool_inv n (submitTask w p)"
proof -
  have f: "flow_inv p" and k: "wake_inv n p" using assms(1) by (simp_all add: pool_inv_def)
  have nosd: "\<not> shutdown p" using k assms(2) by (auto simp: wake_inv_def)
  show ?thesis
  proof (cases "taskCount (tasks p) < QUEUE_SIZE")
    case True
    then have nf: "\<not> tasks_full (tasks p)" "tasks_inv (tasks p)" using f by (simp_all add: tasks_full_def flow_inv_def)
    have "flow_inv (submitTask w p)"
      using True flow_invD [OF f] tq.enq_inv [OF nf(2,1)] tq.enq_contents [OF nf(2,1)]
      by (intro flow_invI) (simp_all add: submitTask_def Let_def running_tasks_def)
    moreover have "\<exists>v \<in> set (cond_signal w (workers p)). v \<noteq> Blocked" if "workers p \<noteq> []"
    proof (cases "Blocked \<in> set (workers p)")
      case True
      then have "w < length (workers p)" "workers p ! w = Blocked" using assms(3) by (simp_all add: signal_ok_def)
      then have "Ready \<in> set (cond_signal w (workers p))"
        by (auto simp: cond_signal_def wake_worker_def intro: set_update_memI)
      then show ?thesis by blast
    next
      case False
      have "set (cond_signal w (workers p)) \<subseteq> set (workers p) \<union> {Ready}"
        using False by (auto simp: cond_signal_def wake_worker_def in_set_conv_nth nth_list_update split: if_splits)
      moreover have "cond_signal w (workers p) \<noteq> []" using that by (simp add: cond_signal_def)
      ultimately show ?thesis using False by (metis insert_iff list.set_intros(1) neq_Nil_conv subsetD Un_iff singletonD worker.distinct(1))
    qed
    moreover have "Exited \<notin> set (cond_signal w (workers p))"
      using k nosd by (auto simp: wake_inv_def cond_signal_def wake_worker_def in_set_conv_nth nth_list_update split: if_splits)
    ultimately show ?thesis using k nosd True assms(2)
      by (auto simp: pool_inv_def wake_inv_def submitTask_def Let_def cond_signal_def)
  next
    case False
    have "flow_inv (submitTask w p)"
      using False flow_invD [OF f] by (intro flow_invI) (simp_all add: submitTask_def Let_def running_tasks_def)
    with k nosd False assms(2) show ?thesis by (auto simp: pool_inv_def wake_inv_def submitTask_def Let_def)
  qed
qed

lemma shut_inv:
  assumes "pool_inv n p" "submitted p = n"
  shows "pool_inv n (shutdownThreadPool p)"
proof -
  have f: "flow_inv p" and k: "wake_inv n p" using assms(1) by (simp_all add: pool_inv_def)
  have "flow_inv (shutdownThreadPool p)"
    using flow_invD [OF f] by (intro flow_invI) (simp_all add: shutdownThreadPool_def running_tasks_def)
  moreover have "wake_inv n (shutdownThreadPool p)"
    using k assms(2) by (auto simp: wake_inv_def shutdownThreadPool_def wake_worker_def neq_Nil_conv)
  ultimately show ?thesis by (simp add: pool_inv_def)
qed

lemma update_mem: "x \<in> set (xs[w := y]) \<Longrightarrow> x = y \<or> x \<in> set xs"
  using set_update_subset_insert [of xs w y] by auto

lemma worker_inv:
  assumes "pool_inv n p" "startThread_step w p = Some p'"
  shows "pool_inv n p'"
proof -
  have f: "flow_inv p" and k: "wake_inv n p" using assms(1) by (simp_all add: pool_inv_def)
  have w: "w < length (workers p)" using assms(2) by (simp add: startThread_step_def split: if_splits)
  have upd: "(\<Sum>x \<in># mset ((workers p)[w := v]). in_hand x) + in_hand (workers p ! w) = running_tasks p + in_hand v" for v
    using sum_mset_update [OF w, of in_hand v] by (simp add: running_tasks_def)
  note fD = flow_invD [OF f]
  show ?thesis
  proof (cases "workers p ! w")
    case Ready
    consider (block) "taskCount (tasks p) = 0" "\<not> shutdown p" | (exit) "taskCount (tasks p) = 0" "shutdown p"
      | (get) "taskCount (tasks p) > 0" by auto
    then show ?thesis
    proof cases
      case block
      then have p': "p' = p\<lparr>workers := (workers p)[w := Blocked]\<rparr>"
        using assms(2) w Ready by (simp add: startThread_step_def)
      have "flow_inv p'" using fD upd [of Blocked] Ready by (intro flow_invI) (simp_all add: p' running_tasks_def)
      then show ?thesis using k block by (auto simp: p' pool_inv_def wake_inv_def dest: update_mem)
    next
      case exit
      then have p': "p' = p\<lparr>workers := (workers p)[w := Exited]\<rparr>"
        using assms(2) w Ready by (simp add: startThread_step_def)
      have "flow_inv p'" using fD upd [of Exited] Ready by (intro flow_invI) (simp_all add: p' running_tasks_def)
      then show ?thesis using k exit by (auto simp: p' pool_inv_def wake_inv_def dest: update_mem)
    next
      case get
      obtain t ts where tk: "tasks_take (tasks p) = (t, ts)" by fastforce
      have ne: "\<not> tasks_empty (tasks p)" using get by (simp add: tasks_empty_def)
      have q: "tasks_inv ts" "tasks_contents (tasks p) = t # tasks_contents ts"
        using tq.deq_inv [OF fD(1) ne] tq.deq_contents [OF fD(1) ne] tk by simp_all
      have p': "p' = p\<lparr>tasks := ts, taken := taken p @ [t], workers := (workers p)[w := Run t]\<rparr>"
        using assms(2) w Ready get tk by (simp add: startThread_step_def)
      have "flow_inv p'" using fD q upd [of "Run t"] Ready
        by (intro flow_invI) (simp_all add: p' running_tasks_def add_mset_commute)
      moreover have "Run t \<in> set ((workers p)[w := Run t])" using w by (rule set_update_memI)
      moreover have "Exited \<notin> set (workers p)" using k get by (auto simp: wake_inv_def)
      ultimately show ?thesis using k by (auto simp: p' pool_inv_def wake_inv_def dest: update_mem)
    qed
  next
    case (Run t)
    then have p': "p' = p\<lparr>executed := executed p @ [t], workers := (workers p)[w := Ready]\<rparr>"
      using assms(2) w by (simp add: startThread_step_def)
    have r: "running_tasks p = add_mset t (running_tasks p')"
      using upd [of Ready] Run by (simp add: p' running_tasks_def)
    have "tasks p' = tasks p" "taken p' = taken p" "accepted p' = accepted p" "dropped p' = dropped p"
      "submitted p' = submitted p" "executed p' = executed p @ [t]" by (simp_all add: p')
    then have "flow_inv p'" using fD r by (intro flow_invI) simp_all
    moreover have "Ready \<in> set ((workers p)[w := Ready])" using w by (rule set_update_memI)
    ultimately show ?thesis using k by (auto simp: p' pool_inv_def wake_inv_def dest: update_mem)
  qed (use assms(2) w in \<open>simp_all add: startThread_step_def\<close>)
qed

lemma pool_step_inv: "pool_inv n p \<Longrightarrow> pool_step n stops p p' \<Longrightarrow> pool_inv n p'"
  by (elim pool_stepE) (auto intro: submit_inv shut_inv worker_inv)

lemma pool_steps_inv: "(pool_step n stops)\<^sup>*\<^sup>* (pool_init k) p \<Longrightarrow> pool_inv n p"
  by (induction rule: rtranclp_induct) (auto intro: init_pool_inv pool_step_inv)

subsection \<open>Every schedule ends, with every accepted task executed\<close>

fun weight :: "worker \<Rightarrow> nat" where
  "weight Ready = 1" | "weight Blocked = 0" | "weight (Run t) = 2" | "weight Exited = 0"

definition weights :: "worker list \<Rightarrow> nat" where
  "weights ws = sum_list (map weight ws)"

lemma weights_update: "w < length ws \<Longrightarrow> weights (ws[w := v]) + weight (ws ! w) = weights ws + weight v"
  unfolding weights_def by (induction ws arbitrary: w) (auto split: nat.splits)

lemma weights_signal: "weights (cond_signal w ws) \<le> weights ws + 1"
  using weights_update [of w ws "wake_worker (ws ! w)"]
  by (cases "ws ! w") (auto simp: cond_signal_def wake_worker_def)

lemma weights_broadcast: "weights (map wake_worker ws) \<le> weights ws + length ws"
  by (induction ws) (auto simp: weights_def wake_worker_def)

definition rank :: "nat \<Rightarrow> pool \<Rightarrow> nat" where
  "rank n p = 5 * (n - submitted p) + (if shutdown p then 0 else length (workers p) + 1)
     + 3 * taskCount (tasks p) + weights (workers p)"

lemma length_cond_signal [simp]: "length (cond_signal w ws) = length ws"
  by (simp add: cond_signal_def)

lemma rank_decreases:
  assumes "pool_step n stops p p'"
  shows "rank n p' < rank n p"
  using assms
proof (cases rule: pool_step.cases)
  case (submit w)
  then show ?thesis using weights_signal [of w "workers p"]
    by (auto simp: rank_def submitTask_def Let_def tasks_put_def)
next
  case shut
  then show ?thesis using weights_broadcast [of "workers p"] by (simp add: rank_def shutdownThreadPool_def)
next
  case (work w)
  then have w: "w < length (workers p)" by (simp add: startThread_step_def split: if_splits)
  note u = weights_update [OF w]
  show ?thesis using work w u [of Ready] u [of Blocked] u [of Exited]
      u [of "Run (fst (tasks_take (tasks p)))"]
    by (cases "workers p ! w") (auto simp: startThread_step_def rank_def tasks_take_def split: if_splits)
qed

lemma pool_step_workers: "pool_step n stops p p' \<Longrightarrow> length (workers p') = length (workers p)"
  by (elim pool_stepE)
    (auto simp: submitTask_def shutdownThreadPool_def startThread_step_def Let_def split: if_splits worker.splits prod.splits)

lemma pool_steps_workers: "(pool_step n stops)\<^sup>*\<^sup>* (pool_init k) p \<Longrightarrow> length (workers p) = k"
  by (induction rule: rtranclp_induct) (auto simp: pool_init_def dest: pool_step_workers)

text \<open>Every run can be continued to its end.\<close>

lemma pool_runs_to_end: "\<exists>q. (pool_step n stops)\<^sup>*\<^sup>* p q \<and> (\<nexists>q'. pool_step n stops q q')"
proof (induction "rank n p" arbitrary: p rule: less_induct)
  case less
  show ?case
  proof (cases "\<exists>p'. pool_step n stops p p'")
    case True
    then obtain p' where p': "pool_step n stops p p'" by blast
    with less rank_decreases obtain q where "(pool_step n stops)\<^sup>*\<^sup>* p' q" "\<nexists>q'. pool_step n stops q q'" by blast
    with p' show ?thesis by (meson converse_rtranclp_into_rtranclp)
  qed blast
qed

lemma stuck_workers:
  assumes "\<nexists>p'. pool_step n stops p p'" "v \<in> set (workers p)"
  shows "v = Blocked \<or> v = Exited"
proof -
  obtain w where w: "w < length (workers p)" "workers p ! w = v" using assms(2) by (auto simp: in_set_conv_nth)
  have "startThread_step w p = None" using assms(1) pool_step.work by (metis option.exhaust)
  with w show ?thesis by (cases v) (auto simp: startThread_step_def split: if_splits prod.splits)
qed

lemma end_state:
  assumes run: "(pool_step n stops)\<^sup>*\<^sup>* (pool_init k) p" and stuck: "\<nexists>p'. pool_step n stops p p'" and "0 < k"
  shows "submitted p = n \<and> mset (executed p) = mset (accepted p)
    \<and> mset (accepted p) + mset (dropped p) = mset [0..<n]
    \<and> set (workers p) = {if stops then Exited else Blocked}"
proof -
  have f: "flow_inv p" and k: "wake_inv n p" using pool_steps_inv [OF run] by (simp_all add: pool_inv_def)
  have ne: "workers p \<noteq> []" using pool_steps_workers [OF run] assms(3) by auto
  have "\<exists>w. signal_ok (workers p) w" by (auto simp: signal_ok_def in_set_conv_nth)
  then have sub: "submitted p = n" using stuck k pool_step.submit by (metis wake_inv_def le_neq_implies_less)
  have nosd: "\<not> shutdown p" if "\<not> stops"
  proof -
    have "\<not> stops \<Longrightarrow> \<not> shutdown p"
      using run
    proof (induction rule: rtranclp_induct)
      case (step y z)
      then show ?case
        by (elim pool_stepE)
          (auto simp: submitTask_def startThread_step_def Let_def split: if_splits worker.splits prod.splits)
    qed (simp add: pool_init_def)
    with that show ?thesis by blast
  qed
  have only: "set (workers p) \<subseteq> {Blocked, Exited}" using stuck_workers [OF stuck] by auto
  have idle: "set (workers p) = {if stops then Exited else Blocked}"
  proof (cases stops)
    case True
    then have "shutdown p" using stuck sub pool_step.shut by metis
    then have "Blocked \<notin> set (workers p)" using k by (simp add: wake_inv_def)
    with only ne True show ?thesis by (cases "workers p") auto
  next
    case False
    then have "Exited \<notin> set (workers p)" using k nosd by (auto simp: wake_inv_def)
    with only ne False show ?thesis by (cases "workers p") auto
  qed
  have "taskCount (tasks p) = 0"
  proof (cases stops)
    case True
    with idle k show ?thesis by (auto simp: wake_inv_def)
  next
    case False
    with idle k ne show ?thesis by (auto simp: wake_inv_def)
  qed
  then have "accepted p = taken p" using flow_invD(2) [OF f] by (simp add: tasks_contents_def)
  moreover have "running_tasks p = {#}"
  proof -
    have "in_hand v = {#}" if "v \<in> set (workers p)" for v using that idle by (auto split: if_splits)
    then show ?thesis unfolding running_tasks_def by (induction "workers p") (auto simp: idle)
  qed
  ultimately show ?thesis using flow_invD(3,4) [OF f] sub idle by simp
qed

subsection \<open>Dropped tasks\<close>

lemma drops_when_full:
  assumes "(pool_step n stops)\<^sup>*\<^sup>* (pool_init k) p" "dropped p \<noteq> []"
  shows "QUEUE_SIZE < submitted p"
proof -
  have "dropped p \<noteq> [] \<longrightarrow> QUEUE_SIZE < submitted p"
    using assms(1)
  proof (induction rule: rtranclp_induct)
    case base
    then show ?case by (simp add: pool_init_def)
  next
    case (step p q)
    have f: "flow_inv p" using pool_steps_inv [OF step.hyps(1)] by (simp add: pool_inv_def)
    have "length (accepted p) + length (dropped p) = submitted p"
      using flow_invD(4) [OF f] by (metis size_mset size_union length_upt minus_nat.diff_0)
    moreover have "taskCount (tasks p) \<le> length (accepted p)"
      using flow_invD(1,2) [OF f] by (metis (no_types) tasks_contents_def tasks_inv_def length_append length_take
          le_add2 min.absorb2)
    ultimately have "taskCount (tasks p) \<le> submitted p" by simp
    with step show ?case
      by (elim pool_stepE)
        (auto simp: submitTask_def shutdownThreadPool_def startThread_step_def Let_def
          split: if_splits worker.splits prod.splits)
  qed
  with assms(2) show ?thesis by blast
qed

lemma submit_only:
  "m \<le> n \<Longrightarrow> \<exists>p. (pool_step n stops)\<^sup>*\<^sup>* (pool_init k) p \<and> submitted p = m \<and> workers p = replicate k Ready
     \<and> taskCount (tasks p) = min m QUEUE_SIZE \<and> length (dropped p) = m - QUEUE_SIZE"
proof (induction m)
  case 0
  show ?case by (rule exI [of _ "pool_init k"]) (simp add: pool_init_def)
next
  case (Suc m)
  then obtain p where p: "(pool_step n stops)\<^sup>*\<^sup>* (pool_init k) p" "submitted p = m" "workers p = replicate k Ready"
    "taskCount (tasks p) = min m QUEUE_SIZE" "length (dropped p) = m - QUEUE_SIZE" by auto
  have "pool_step n stops p (submitTask 0 p)"
    using p Suc.prems by (intro pool_step.submit) (auto simp: signal_ok_def)
  with p(1) have "(pool_step n stops)\<^sup>*\<^sup>* (pool_init k) (submitTask 0 p)" by (rule rtranclp.rtrancl_into_rtrancl)
  moreover have "cond_signal 0 (replicate k Ready) = replicate k Ready"
    by (cases k) (simp_all add: cond_signal_def wake_worker_def)
  ultimately show ?case using p
    by (intro exI [of _ "submitTask 0 p"]) (auto simp: submitTask_def Let_def tasks_put_def)
qed

subsection \<open>Properties\<close>

text \<open>C7: The pool of \<open>seance6/lab35_threadpool.c\<close> (at least one worker, any number of tasks) ends
  cleanly under every schedule: when no thread can move any more, every submitted task was accepted
  or dropped, every accepted task was executed exactly once, and all workers have exited, so the
  joins return. Such an end is reachable from every state.\<close>

theorem thread_pool_completes:
  assumes "(pool_step n True)\<^sup>*\<^sup>* (pool_init k) p" "\<nexists>p'. pool_step n True p p'" "0 < k"
  shows "mset (executed p) = mset (accepted p) \<and> mset (accepted p) + mset (dropped p) = mset [0..<n]
       \<and> set (workers p) = {Exited}"
  using end_state [OF assms] by simp

lemma empty_pool_end:
  "(pool_step 0 True)\<^sup>*\<^sup>* (pool_init 1) ((pool_init 1)\<lparr>shutdown := True, workers := [Exited]\<rparr>)"
  "\<nexists>p'. pool_step 0 True ((pool_init 1)\<lparr>shutdown := True, workers := [Exited]\<rparr>) p'"
proof -
  have "pool_step 0 True (pool_init 1) (shutdownThreadPool (pool_init 1))"
    by (rule pool_step.shut) (simp_all add: pool_init_def)
  moreover have "pool_step 0 True (shutdownThreadPool (pool_init 1)) ((pool_init 1)\<lparr>shutdown := True, workers := [Exited]\<rparr>)"
    by (rule pool_step.work [where w = 0]) (simp add: pool_init_def shutdownThreadPool_def startThread_step_def wake_worker_def)
  ultimately show "(pool_step 0 True)\<^sup>*\<^sup>* (pool_init 1) ((pool_init 1)\<lparr>shutdown := True, workers := [Exited]\<rparr>)"
    by (rule converse_rtranclp_into_rtranclp [OF _ r_into_rtranclp])
  have "startThread_step w ((pool_init 1)\<lparr>shutdown := True, workers := [Exited]\<rparr>) = None" for w
    by (simp add: startThread_step_def)
  then show "\<nexists>p'. pool_step 0 True ((pool_init 1)\<lparr>shutdown := True, workers := [Exited]\<rparr>) p'"
    by (simp add: pool_step.simps)
qed

theorem thread_pool_completes_witness:
  "mset (executed ((pool_init 1)\<lparr>shutdown := True, workers := [Exited]\<rparr>))
     = mset (accepted ((pool_init 1)\<lparr>shutdown := True, workers := [Exited]\<rparr>))
   \<and> mset (accepted ((pool_init 1)\<lparr>shutdown := True, workers := [Exited]\<rparr>))
       + mset (dropped ((pool_init 1)\<lparr>shutdown := True, workers := [Exited]\<rparr>)) = mset [0..<0]
   \<and> set (workers ((pool_init 1)\<lparr>shutdown := True, workers := [Exited]\<rparr>)) = {Exited}"
  by (rule thread_pool_completes [OF empty_pool_end]) simp

text \<open>Every schedule of either pool is finite: each step lowers \<open>rank\<close>.\<close>

theorem thread_pool_terminates:
  assumes "pool_step n stops p p'"
  shows "rank n p' < rank n p"
  by (rule rank_decreases [OF assms])

theorem thread_pool_terminates_witness:
  "rank 0 (shutdownThreadPool (pool_init 1)) < rank 0 (pool_init 1)"
  by (rule thread_pool_terminates [where stops = True]) (rule pool_step.shut, simp_all add: pool_init_def)

text \<open>The queue has 256 places and \<open>main\<close> submits 300 tasks without waiting: some schedule
  drops 44 of them, although \<open>main\<close> then prints that all 300 were submitted.\<close>

theorem thread_pool_can_drop:
  "\<exists>p. (pool_step NUM_TASKS True)\<^sup>*\<^sup>* (pool_init THREAD_POOL_SIZE) p \<and> submitted p = 300 \<and> length (dropped p) = 44"
  using submit_only [of 300 NUM_TASKS True THREAD_POOL_SIZE] by (auto simp: NUM_TASKS_def QUEUE_SIZE_def)

text \<open>The pool of \<open>thread/lab35_threadpool.c\<close> (60 workers, 100 tasks, no shutdown) never drops a
  task and executes each exactly once, but ends with every worker blocked in \<open>pthread_cond_wait\<close>, so
  the joins of \<open>main\<close> never return.\<close>

theorem pool_without_shutdown:
  assumes "(pool_step 100 False)\<^sup>*\<^sup>* (pool_init 60) p" "\<nexists>p'. pool_step 100 False p p'"
  shows "mset (executed p) = mset [0..<100] \<and> dropped p = [] \<and> set (workers p) = {Blocked}"
proof -
  have "submitted p = 100" using end_state [OF assms] by simp
  then have "dropped p = []" using drops_when_full [OF assms(1)] by (auto simp: QUEUE_SIZE_def)
  moreover have "mset (executed p) = mset (accepted p)" "mset (accepted p) + mset (dropped p) = mset [0..<100]"
    "set (workers p) = {Blocked}"
    using end_state [OF assms] by simp_all
  ultimately show ?thesis by (metis empty_neutral(2) mset.simps(1))
qed

text \<open>The witness: some complete run, which exists by termination.\<close>

definition pool_end :: "pool \<Rightarrow> bool" where
  "pool_end p \<longleftrightarrow> (pool_step 100 False)\<^sup>*\<^sup>* (pool_init 60) p \<and> (\<nexists>p'. pool_step 100 False p p')"

theorem pool_without_shutdown_witness:
  "\<exists>p. pool_end p \<and> mset (executed p) = mset [0..<100] \<and> dropped p = [] \<and> set (workers p) = {Blocked}"
proof -
  obtain p where e: "pool_end p" using pool_runs_to_end [of 100 False "pool_init 60"] unfolding pool_end_def by blast
  with pool_without_shutdown [of p] show ?thesis unfolding pool_end_def by blast
qed

end
