(* ===== verification/Counters.thy ===== *)
theory Counters
  imports Prelude
begin

text \<open>
  The counter labs \<open>thread/lab21_thread_racecond.c\<close> (no protection), \<open>lab22_thread_mutex.c\<close>,
  \<open>lab23_thread_spinlock.c\<close> (the unlock is commented out) and \<open>lab24_thread_atomic.c\<close>: 100 threads
  that increment a shared counter 1000 times each. A plain \<open>counter++\<close> is a load and a store.
\<close>

definition NUM_THREADS :: nat where "NUM_THREADS = 100"
definition ITERATIONS :: nat where "ITERATIONS = 1000"

subsection \<open>State\<close>

text \<open>
  Where a thread is in \<open>increment_counter\<close>: at the loop test, holding the lock before the
  increment, between load and store, after the store.
\<close>

datatype ipc = Head | Locked | Loaded int | Stored

record counting =
  counter :: int
  holder :: "nat option"
  pcs :: "ipc list"
  iters :: "nat list"

definition count_init :: "nat \<Rightarrow> counting" where
  "count_init n = \<lparr>counter = 0, holder = None, pcs = replicate n Head, iters = replicate n 0\<rparr>"

definition goto :: "nat \<Rightarrow> ipc \<Rightarrow> counting \<Rightarrow> counting" where
  "goto t p s = s\<lparr>pcs := (pcs s)[t := p]\<rparr>"

definition next_iter :: "nat \<Rightarrow> counting \<Rightarrow> counting" where
  "next_iter t s = s\<lparr>iters := (iters s)[t := iters s ! t + 1]\<rparr>"

text \<open>All threads have left their loop of \<open>k\<close> turns: \<open>main\<close>'s joins return.\<close>

definition finished :: "nat \<Rightarrow> counting \<Rightarrow> bool" where
  "finished k s \<longleftrightarrow> list_all (\<lambda>p. p = Head) (pcs s) \<and> list_all (\<lambda>i. i = k) (iters s)"

subsection \<open>One step of thread \<open>t\<close> in each program\<close>

definition race_step :: "nat \<Rightarrow> nat \<Rightarrow> counting \<Rightarrow> counting option" where
  "race_step k t s =
     (if t < length (pcs s) then
        (case pcs s ! t of
           Head \<Rightarrow> if iters s ! t < k then Some (goto t (Loaded (counter s)) s) else None
         | Loaded v \<Rightarrow> Some (next_iter t (goto t Head (s\<lparr>counter := v + 1\<rparr>)))
         | _ \<Rightarrow> None)
      else None)"

definition mutex_step :: "nat \<Rightarrow> nat \<Rightarrow> counting \<Rightarrow> counting option" where
  "mutex_step k t s =
     (if t < length (pcs s) then
        (case pcs s ! t of
           Head \<Rightarrow> if iters s ! t < k \<and> holder s = None then Some (goto t Locked (s\<lparr>holder := Some t\<rparr>)) else None
         | Locked \<Rightarrow> Some (goto t (Loaded (counter s)) s)
         | Loaded v \<Rightarrow> Some (goto t Stored (s\<lparr>counter := v + 1\<rparr>))
         | Stored \<Rightarrow> Some (next_iter t (goto t Head (s\<lparr>holder := None\<rparr>))))
      else None)"

definition spin_step :: "nat \<Rightarrow> nat \<Rightarrow> counting \<Rightarrow> counting option" where
  "spin_step k t s =
     (if t < length (pcs s) then
        (case pcs s ! t of
           Head \<Rightarrow> if iters s ! t < k \<and> holder s = None then Some (goto t Locked (s\<lparr>holder := Some t\<rparr>)) else None
         | Locked \<Rightarrow> Some (goto t (Loaded (counter s)) s)
         | Loaded v \<Rightarrow> Some (goto t Stored (s\<lparr>counter := v + 1\<rparr>))
         | Stored \<Rightarrow> Some (next_iter t (goto t Head s)))
      else None)"

definition atomic_step :: "nat \<Rightarrow> nat \<Rightarrow> counting \<Rightarrow> counting option" where
  "atomic_step k t s =
     (if t < length (pcs s) \<and> iters s ! t < k
      then Some (next_iter t (s\<lparr>counter := counter s + 1\<rparr>)) else None)"

inductive count_step :: "(nat \<Rightarrow> counting \<Rightarrow> counting option) \<Rightarrow> counting \<Rightarrow> counting \<Rightarrow> bool" for f where
  "f t s = Some s' \<Longrightarrow> count_step f s s'"

definition count_reach :: "(nat \<Rightarrow> counting \<Rightarrow> counting option) \<Rightarrow> nat \<Rightarrow> counting \<Rightarrow> bool" where
  "count_reach f n s \<longleftrightarrow> (count_step f)\<^sup>*\<^sup>* (count_init n) s"

lemma count_reach_induct [consumes 1, case_names init step]:
  assumes "count_reach f n s" "P (count_init n)"
    "\<And>t s s'. P s \<Longrightarrow> f t s = Some s' \<Longrightarrow> P s'"
  shows "P s"
  using assms(1) unfolding count_reach_def
  by (induction rule: rtranclp_induct) (auto elim: count_step.cases intro: assms(2,3))

lemma count_reach_init: "count_reach f n (count_init n)"
  by (simp add: count_reach_def)

lemma count_reach_step: "count_reach f n s \<Longrightarrow> f t s = Some s' \<Longrightarrow> count_reach f n s'"
  unfolding count_reach_def by (meson count_step.intros rtranclp.rtrancl_into_rtrancl)

declare goto_def [thread_defs] next_iter_def [thread_defs] race_step_def [thread_defs]
  mutex_step_def [thread_defs] spin_step_def [thread_defs] atomic_step_def [thread_defs]
  count_init_def [thread_defs]

lemma sum_list_incr: "t < length xs \<Longrightarrow> sum_list (xs[t := Suc (xs ! t)]) = Suc (sum_list xs)"
  by (induction xs arbitrary: t) (auto split: nat.splits)

lemma sum_list_all: "list_all (\<lambda>i. i = k) xs \<Longrightarrow> sum_list xs = k * length xs"
  by (induction xs) auto

lemma finished_sum: "finished k s \<Longrightarrow> sum_list (iters s) = length (iters s) * k"
  by (simp add: finished_def sum_list_all mult.commute)

subsection \<open>The atomic counter\<close>

definition atomic_inv :: "nat \<Rightarrow> counting \<Rightarrow> bool" where
  "atomic_inv n s \<longleftrightarrow> length (pcs s) = n \<and> length (iters s) = n \<and> counter s = int (sum_list (iters s))"

lemma atomic_reach_inv: "count_reach (atomic_step k) n s \<Longrightarrow> atomic_inv n s"
  by (induction rule: count_reach_induct)
    (auto simp: thread_defs atomic_inv_def sum_list_incr sum_list_replicate split: if_splits)

subsection \<open>The mutex\<close>

text \<open>
  The holder is the one thread past the loop test; what it has loaded is still the counter, and
  its stored increment is the only one not yet counted as a finished turn.
\<close>

definition turn_state :: "nat \<Rightarrow> counting \<Rightarrow> bool" where
  "turn_state t s \<longleftrightarrow>
     ((pcs s ! t = Locked \<or> pcs s ! t = Loaded (counter s)) \<and> counter s = int (sum_list (iters s)))
   \<or> (pcs s ! t = Stored \<and> counter s = int (sum_list (iters s)) + 1)"

definition mutex_inv :: "nat \<Rightarrow> counting \<Rightarrow> bool" where
  "mutex_inv n s \<longleftrightarrow> length (pcs s) = n \<and> length (iters s) = n
     \<and> (case holder s of
          None \<Rightarrow> (\<forall>u < n. pcs s ! u = Head) \<and> counter s = int (sum_list (iters s))
        | Some t \<Rightarrow> t < n \<and> (\<forall>u < n. u \<noteq> t \<longrightarrow> pcs s ! u = Head) \<and> turn_state t s)"

lemma mutex_step_inv:
  assumes inv: "mutex_inv n s" and st: "mutex_step k t s = Some s'"
  shows "mutex_inv n s'"
proof -
  have t: "t < n" "length (pcs s) = n" "length (iters s) = n"
    using inv st by (simp_all add: mutex_inv_def mutex_step_def split: if_splits)
  show ?thesis
  proof (cases "holder s")
    case None
    then have h: "pcs s ! t = Head" "\<forall>u < n. pcs s ! u = Head" "counter s = int (sum_list (iters s))"
      using inv t(1) by (simp_all add: mutex_inv_def)
    then have "s' = goto t Locked (s\<lparr>holder := Some t\<rparr>)"
      using st t None by (simp add: mutex_step_def split: if_splits)
    with h t show ?thesis by (simp add: goto_def mutex_inv_def turn_state_def)
  next
    case (Some w)
    then have h: "w < n" "\<forall>u < n. u \<noteq> w \<longrightarrow> pcs s ! u = Head" "turn_state w s"
      using inv by (simp_all add: mutex_inv_def)
    have w: "t = w" using st t h(2) Some by (cases "t = w") (simp_all add: mutex_step_def)
    from h(3) show ?thesis
      unfolding turn_state_def
    proof (elim disjE conjE)
      assume a: "pcs s ! w = Locked" "counter s = int (sum_list (iters s))"
      then have "s' = goto t (Loaded (counter s)) s" using st t w by (simp add: mutex_step_def)
      with a h t w Some show ?thesis by (simp add: goto_def mutex_inv_def turn_state_def)
    next
      assume a: "pcs s ! w = Loaded (counter s)" "counter s = int (sum_list (iters s))"
      then have "s' = goto t Stored (s\<lparr>counter := counter s + 1\<rparr>)" using st t w by (simp add: mutex_step_def)
      with a h t w Some show ?thesis by (simp add: goto_def mutex_inv_def turn_state_def)
    next
      assume a: "pcs s ! w = Stored" "counter s = int (sum_list (iters s)) + 1"
      then have "s' = next_iter t (goto t Head (s\<lparr>holder := None\<rparr>))" using st t w by (simp add: mutex_step_def)
      with a h t w show ?thesis
        by (simp add: goto_def next_iter_def mutex_inv_def sum_list_incr nth_list_update)
    qed
  qed
qed

lemma mutex_reach_inv: "count_reach (mutex_step k) n s \<Longrightarrow> mutex_inv n s"
proof (induction rule: count_reach_induct)
  case init
  show ?case by (simp add: count_init_def mutex_inv_def sum_list_replicate)
qed (rule mutex_step_inv)

subsection \<open>The spinlock that is never unlocked\<close>

text \<open>Once a thread holds it nobody can take it again, so the counter stops at 1.\<close>

definition spin_inv :: "nat \<Rightarrow> counting \<Rightarrow> bool" where
  "spin_inv n s \<longleftrightarrow> length (pcs s) = n \<and> length (iters s) = n
     \<and> (case holder s of
          None \<Rightarrow> (\<forall>u < n. pcs s ! u = Head \<and> iters s ! u = 0) \<and> counter s = 0
        | Some t \<Rightarrow> t < n \<and> (\<forall>u < n. u \<noteq> t \<longrightarrow> pcs s ! u = Head \<and> iters s ! u = 0)
            \<and> (pcs s ! t = Locked \<and> iters s ! t = 0 \<and> counter s = 0
             \<or> pcs s ! t = Loaded 0 \<and> iters s ! t = 0 \<and> counter s = 0
             \<or> pcs s ! t = Stored \<and> iters s ! t = 0 \<and> counter s = 1
             \<or> pcs s ! t = Head \<and> iters s ! t = 1 \<and> counter s = 1))"

lemma spin_step_inv:
  assumes inv: "spin_inv n s" and st: "spin_step k t s = Some s'"
  shows "spin_inv n s'"
proof -
  have t: "t < n" "length (pcs s) = n" "length (iters s) = n"
    using inv st by (simp_all add: spin_inv_def spin_step_def split: if_splits)
  show ?thesis
  proof (cases "holder s")
    case None
    then have h: "\<forall>u < n. pcs s ! u = Head \<and> iters s ! u = 0" "counter s = 0"
      using inv by (simp_all add: spin_inv_def)
    then have "s' = goto t Locked (s\<lparr>holder := Some t\<rparr>)"
      using st t None by (simp add: spin_step_def split: if_splits)
    with h t show ?thesis by (simp add: goto_def spin_inv_def)
  next
    case (Some w)
    then have h: "w < n" "\<forall>u < n. u \<noteq> w \<longrightarrow> pcs s ! u = Head \<and> iters s ! u = 0"
      and c: "pcs s ! w = Locked \<and> iters s ! w = 0 \<and> counter s = 0
             \<or> pcs s ! w = Loaded 0 \<and> iters s ! w = 0 \<and> counter s = 0
             \<or> pcs s ! w = Stored \<and> iters s ! w = 0 \<and> counter s = 1
             \<or> pcs s ! w = Head \<and> iters s ! w = 1 \<and> counter s = 1"
      using inv by (simp_all add: spin_inv_def)
    have w: "t = w" using st t h(2) Some by (cases "t = w") (simp_all add: spin_step_def)
    from c show ?thesis
    proof (elim disjE)
      assume a: "pcs s ! w = Locked \<and> iters s ! w = 0 \<and> counter s = 0"
      then have "s' = goto w (Loaded (counter s)) s" using st t w by (simp add: spin_step_def)
      with a h t w Some show ?thesis by (simp add: goto_def spin_inv_def)
    next
      assume a: "pcs s ! w = Loaded 0 \<and> iters s ! w = 0 \<and> counter s = 0"
      then have "s' = goto w Stored (s\<lparr>counter := 1\<rparr>)" using st t w by (simp add: spin_step_def)
      with a h t w Some show ?thesis by (simp add: goto_def spin_inv_def)
    next
      assume a: "pcs s ! w = Stored \<and> iters s ! w = 0 \<and> counter s = 1"
      then have "s' = next_iter w (goto w Head s)" using st t w by (simp add: spin_step_def)
      with a h t w Some show ?thesis by (simp add: goto_def next_iter_def spin_inv_def)
    next
      assume a: "pcs s ! w = Head \<and> iters s ! w = 1 \<and> counter s = 1"
      then show ?thesis using st t w Some by (simp add: spin_step_def)
    qed
  qed
qed

lemma spin_reach_inv: "count_reach (spin_step k) n s \<Longrightarrow> spin_inv n s"
proof (induction rule: count_reach_induct)
  case init
  show ?case by (simp add: count_init_def spin_inv_def)
qed (rule spin_step_inv)

subsection \<open>The unprotected counter\<close>

definition race_inv :: "nat \<Rightarrow> counting \<Rightarrow> bool" where
  "race_inv n s \<longleftrightarrow> length (pcs s) = n \<and> length (iters s) = n \<and> counter s \<le> int (sum_list (iters s))
     \<and> (\<forall>u < n. \<forall>v. pcs s ! u = Loaded v \<longrightarrow> v \<le> int (sum_list (iters s)))"

lemma race_step_inv:
  assumes inv: "race_inv n s" and st: "race_step k t s = Some s'"
  shows "race_inv n s'"
proof -
  have t: "t < n" "length (pcs s) = n" "length (iters s) = n"
    using inv st by (simp_all add: race_inv_def race_step_def split: if_splits)
  have c: "counter s \<le> int (sum_list (iters s))" using inv by (simp add: race_inv_def)
  have l: "v \<le> int (sum_list (iters s))" if "u < n" "pcs s ! u = Loaded v" for u v
    using inv that by (simp add: race_inv_def)
  show ?thesis
  proof (cases "pcs s ! t")
    case Head
    then have "s' = goto t (Loaded (counter s)) s" using st t by (simp add: race_step_def split: if_splits)
    with t c l show ?thesis by (auto simp: goto_def race_inv_def nth_list_update)
  next
    case (Loaded v)
    then have s': "s' = next_iter t (goto t Head (s\<lparr>counter := v + 1\<rparr>))" using st t by (simp add: race_step_def)
    have "x \<le> int (Suc (sum_list (iters s)))" if "u < n" "pcs s ! u = Loaded x" for u x
      using l [OF that] by simp
    with l [OF t(1) Loaded] t show ?thesis
      by (auto simp: s' goto_def next_iter_def race_inv_def nth_list_update sum_list_incr)
  qed (use st t in \<open>simp_all add: race_step_def\<close>)
qed

lemma race_reach_inv: "count_reach (race_step k) n s \<Longrightarrow> race_inv n s"
proof (induction rule: count_reach_induct)
  case init
  show ?case by (simp add: count_init_def race_inv_def)
qed (rule race_step_inv)

text \<open>All threads load before any stores: a whole round counts as one increment.\<close>

definition level :: "nat \<Rightarrow> nat \<Rightarrow> int \<Rightarrow> counting" where
  "level n i c = \<lparr>counter = c, holder = None, pcs = replicate n Head, iters = replicate n i\<rparr>"

lemma replicate_update:
  "m < n \<Longrightarrow> (replicate m a @ replicate (n - m) b)[m := a] = replicate (Suc m) a @ replicate (n - Suc m) b"
proof -
  assume "m < n"
  then have "replicate (n - m) b = b # replicate (n - Suc m) b" by (simp add: Suc_diff_Suc [symmetric])
  then show ?thesis by (simp add: list_update_append replicate_app_Cons_same)
qed

lemma loads:
  assumes "count_reach (race_step k) n (level n i c)" "i < k"
  shows "m \<le> n \<Longrightarrow> count_reach (race_step k) n
    ((level n i c)\<lparr>pcs := replicate m (Loaded c) @ replicate (n - m) Head\<rparr>)"
proof (induction m)
  case 0
  have "(level n i c)\<lparr>pcs := replicate n Head\<rparr> = level n i c" by (simp add: level_def)
  with assms show ?case by simp
next
  case (Suc m)
  let ?s = "(level n i c)\<lparr>pcs := replicate m (Loaded c) @ replicate (n - m) Head\<rparr>"
  have r: "count_reach (race_step k) n ?s" using Suc by simp
  have m: "m < n" using Suc.prems by simp
  have "race_step k m ?s = Some ((level n i c)\<lparr>pcs := replicate (Suc m) (Loaded c) @ replicate (n - Suc m) Head\<rparr>)"
    using m assms(2) replicate_update [OF m, of "Loaded c" Head]
    by (simp add: race_step_def level_def goto_def nth_append)
  with r show ?case by (rule count_reach_step)
qed

lemma stores:
  assumes "count_reach (race_step k) n ((level n i c)\<lparr>pcs := replicate n (Loaded c)\<rparr>)"
  shows "m \<le> n \<Longrightarrow> count_reach (race_step k) n
    \<lparr>counter = (if m = 0 then c else c + 1), holder = None, pcs = replicate m Head @ replicate (n - m) (Loaded c),
      iters = replicate m (i + 1) @ replicate (n - m) i\<rparr>"
proof (induction m)
  case 0
  with assms show ?case by (simp add: level_def)
next
  case (Suc m)
  have m: "m < n" using Suc.prems by simp
  have "race_step k m \<lparr>counter = (if m = 0 then c else c + 1), holder = None,
      pcs = replicate m Head @ replicate (n - m) (Loaded c), iters = replicate m (i + 1) @ replicate (n - m) i\<rparr>
    = Some \<lparr>counter = (if Suc m = 0 then c else c + 1), holder = None,
        pcs = replicate (Suc m) Head @ replicate (n - Suc m) (Loaded c),
        iters = replicate (Suc m) (i + 1) @ replicate (n - Suc m) i\<rparr>"
    using m replicate_update [OF m, of Head "Loaded c"] replicate_update [OF m, of "i + 1" i]
    by (simp add: race_step_def goto_def next_iter_def nth_append)
  with Suc m show ?case using count_reach_step by (meson Suc_leD)
qed

lemma lockstep: "0 < n \<Longrightarrow> i \<le> k \<Longrightarrow> count_reach (race_step k) n (level n i (int i))"
proof (induction i)
  case 0
  have "level n 0 (int 0) = count_init n" by (simp add: level_def count_init_def)
  then show ?case by (simp only: count_reach_init)
next
  case (Suc i)
  then have "count_reach (race_step k) n (level n i (int i))" "i < k" by simp_all
  from loads [OF this, of n] have "count_reach (race_step k) n ((level n i (int i))\<lparr>pcs := replicate n (Loaded (int i))\<rparr>)"
    by simp
  from stores [OF this, of n] Suc.prems show ?case by (simp add: level_def add.commute)
qed

subsection \<open>Properties\<close>

text \<open>With the mutex of \<open>lab22_thread_mutex.c\<close>, whenever all threads have finished their loops
  the counter is exactly the number of threads times the number of iterations.\<close>

theorem mutex_counter_exact:
  assumes "count_reach (mutex_step k) n s" "finished k s"
  shows "counter s = int (n * k)"
proof -
  have inv: "mutex_inv n s" by (rule mutex_reach_inv [OF assms(1)])
  have "pcs s ! t = Head" if "t < n" for t
    using assms(2) inv that by (simp add: finished_def mutex_inv_def list_all_length)
  with inv have "counter s = int (sum_list (iters s))"
    by (auto simp: mutex_inv_def turn_state_def split: option.splits)
  moreover have "length (iters s) = n" using inv by (simp add: mutex_inv_def)
  ultimately show ?thesis using finished_sum [OF assms(2)] by simp
qed

lemma mutex_one_thread: "count_reach (mutex_step 1) 1 \<lparr>counter = 1, holder = None, pcs = [Head], iters = [1]\<rparr>"
proof -
  have 1: "count_reach (mutex_step 1) 1 \<lparr>counter = 0, holder = Some 0, pcs = [Locked], iters = [0]\<rparr>"
    by (rule count_reach_step [OF count_reach_init, where t = 0]) (simp add: thread_defs)
  have 2: "count_reach (mutex_step 1) 1 \<lparr>counter = 0, holder = Some 0, pcs = [Loaded 0], iters = [0]\<rparr>"
    by (rule count_reach_step [OF 1, where t = 0]) (simp add: thread_defs)
  have 3: "count_reach (mutex_step 1) 1 \<lparr>counter = 1, holder = Some 0, pcs = [Stored], iters = [0]\<rparr>"
    by (rule count_reach_step [OF 2, where t = 0]) (simp add: thread_defs)
  show ?thesis by (rule count_reach_step [OF 3, where t = 0]) (simp add: thread_defs)
qed

theorem mutex_counter_exact_witness:
  "counter \<lparr>counter = 1, holder = None, pcs = [Head], iters = [1]\<rparr> = int (1 * 1)"
  by (rule mutex_counter_exact [OF mutex_one_thread]) (simp add: finished_def)

text \<open>So it is with the atomic increments of \<open>lab24_thread_atomic.c\<close>.\<close>

theorem atomic_counter_exact:
  assumes "count_reach (atomic_step k) n s" "finished k s"
  shows "counter s = int (n * k)"
  using atomic_reach_inv [OF assms(1)] finished_sum [OF assms(2)] by (simp add: atomic_inv_def)

theorem atomic_counter_exact_witness:
  "counter \<lparr>counter = 1, holder = None, pcs = [Head], iters = [1]\<rparr> = int (1 * 1)"
proof (rule atomic_counter_exact)
  show "count_reach (atomic_step 1) 1 \<lparr>counter = 1, holder = None, pcs = [Head], iters = [1]\<rparr>"
    by (rule count_reach_step [OF count_reach_init, where t = 0]) (simp add: thread_defs)
qed (simp add: finished_def)

text \<open>Without protection (\<open>lab21_thread_racecond.c\<close>) the final counter never exceeds the number
  of increments, and the 100 threads can finish with as little as 1000 of their 100000.\<close>

theorem race_counter_loses:
  "\<not> (\<exists>s. count_reach (race_step ITERATIONS) NUM_THREADS s \<and> finished ITERATIONS s \<and> 100000 < counter s)
   \<and> (\<exists>s. count_reach (race_step ITERATIONS) NUM_THREADS s \<and> finished ITERATIONS s \<and> counter s = 1000)"
proof (intro conjI notI)
  assume "\<exists>s. count_reach (race_step ITERATIONS) NUM_THREADS s \<and> finished ITERATIONS s \<and> 100000 < counter s"
  then show False
    using race_reach_inv by (fastforce simp: race_inv_def finished_def sum_list_all NUM_THREADS_def ITERATIONS_def)
next
  have "count_reach (race_step ITERATIONS) NUM_THREADS (level NUM_THREADS ITERATIONS (int ITERATIONS))"
    by (rule lockstep) (simp_all add: NUM_THREADS_def)
  moreover have "finished ITERATIONS (level NUM_THREADS ITERATIONS (int ITERATIONS))"
    by (simp add: finished_def level_def list_all_iff)
  moreover have "counter (level NUM_THREADS ITERATIONS (int ITERATIONS)) = 1000"
    by (simp add: level_def ITERATIONS_def)
  ultimately show "\<exists>s. count_reach (race_step ITERATIONS) NUM_THREADS s \<and> finished ITERATIONS s \<and> counter s = 1000"
    by blast
qed

text \<open>In \<open>lab23_thread_spinlock.c\<close> the unlock is commented out: in every reachable state the
  counter is at most 1, and the threads never all finish, so \<open>main\<close> waits in \<open>pthread_join\<close>
  forever.\<close>

theorem spinlock_never_finishes:
  assumes "count_reach (spin_step ITERATIONS) NUM_THREADS s"
  shows "counter s \<le> 1 \<and> \<not> finished ITERATIONS s"
proof -
  have inv: "spin_inv 100 s" using spin_reach_inv [OF assms] by (simp add: NUM_THREADS_def)
  have "iters s ! 0 \<le> 1"
    using inv by (cases "holder s"; cases "holder s = Some 0") (auto simp: spin_inv_def)
  moreover have "0 < length (iters s)" using inv by (auto simp: spin_inv_def)
  ultimately have "\<not> finished ITERATIONS s" by (auto simp: finished_def list_all_length ITERATIONS_def)
  moreover have "counter s \<le> 1" using inv by (auto simp: spin_inv_def split: option.splits)
  ultimately show ?thesis by simp
qed

theorem spinlock_never_finishes_witness:
  "counter (count_init NUM_THREADS) \<le> 1 \<and> \<not> finished ITERATIONS (count_init NUM_THREADS)"
  by (rule spinlock_never_finishes [OF count_reach_init])

end
