(* ===== verification/Sync_Labs.thy ===== *)
theory Sync_Labs
  imports Prelude
begin

text \<open>
  Lock ordering: the two mutexes of \<open>thread/lab25_thread_deadlock.c\<close>, taken in opposite orders by the two
  threads.
\<close>

subsection \<open>Two mutexes in opposite order (\<open>lab25\<close>)\<close>

datatype mutex = mutex1 | mutex2
datatype lock_op = Acq mutex | Rel mutex

definition thread_func1 :: "lock_op list" where "thread_func1 = [Acq mutex1, Acq mutex2, Rel mutex2, Rel mutex1]"
definition thread_func2 :: "lock_op list" where "thread_func2 = [Acq mutex2, Acq mutex1, Rel mutex1, Rel mutex2]"

text \<open>Each thread's program counter and each mutex's owner (thread 1 or 2).\<close>

record abba =
  at1 :: nat
  at2 :: nat
  owner1 :: "nat option"
  owner2 :: "nat option"

definition abba_init :: abba where "abba_init = \<lparr>at1 = 0, at2 = 0, owner1 = None, owner2 = None\<rparr>"

fun lock_step :: "nat \<Rightarrow> lock_op \<Rightarrow> abba \<Rightarrow> abba option" where
  "lock_step t (Acq mutex1) s = (if owner1 s = None then Some (s\<lparr>owner1 := Some t\<rparr>) else None)"
| "lock_step t (Acq mutex2) s = (if owner2 s = None then Some (s\<lparr>owner2 := Some t\<rparr>) else None)"
| "lock_step t (Rel mutex1) s = Some (s\<lparr>owner1 := None\<rparr>)"
| "lock_step t (Rel mutex2) s = Some (s\<lparr>owner2 := None\<rparr>)"

definition abba_step1 :: "abba \<Rightarrow> abba option" where
  "abba_step1 s =
     (if at1 s < length thread_func1
      then map_option (\<lambda>s. s\<lparr>at1 := at1 s + 1\<rparr>) (lock_step 1 (thread_func1 ! at1 s) s) else None)"

definition abba_step2 :: "abba \<Rightarrow> abba option" where
  "abba_step2 s =
     (if at2 s < length thread_func2
      then map_option (\<lambda>s. s\<lparr>at2 := at2 s + 1\<rparr>) (lock_step 2 (thread_func2 ! at2 s) s) else None)"

inductive abba_reach :: "abba \<Rightarrow> bool" where
  init: "abba_reach abba_init"
| one: "abba_reach s \<Longrightarrow> abba_step1 s = Some s' \<Longrightarrow> abba_reach s'"
| two: "abba_reach s \<Longrightarrow> abba_step2 s = Some s' \<Longrightarrow> abba_reach s'"

text \<open>Who owns what follows from the program counters; both cannot be past a contended lock.\<close>

definition abba_states :: "abba list" where
  "abba_states =
     [\<lparr>at1 = 0, at2 = 0, owner1 = None, owner2 = None\<rparr>, \<lparr>at1 = 0, at2 = 1, owner1 = None, owner2 = Some 2\<rparr>,
      \<lparr>at1 = 0, at2 = 2, owner1 = Some 2, owner2 = Some 2\<rparr>, \<lparr>at1 = 0, at2 = 3, owner1 = None, owner2 = Some 2\<rparr>,
      \<lparr>at1 = 0, at2 = 4, owner1 = None, owner2 = None\<rparr>,
      \<lparr>at1 = 1, at2 = 0, owner1 = Some 1, owner2 = None\<rparr>, \<lparr>at1 = 1, at2 = 1, owner1 = Some 1, owner2 = Some 2\<rparr>,
      \<lparr>at1 = 1, at2 = 3, owner1 = Some 1, owner2 = Some 2\<rparr>, \<lparr>at1 = 1, at2 = 4, owner1 = Some 1, owner2 = None\<rparr>,
      \<lparr>at1 = 2, at2 = 0, owner1 = Some 1, owner2 = Some 1\<rparr>, \<lparr>at1 = 2, at2 = 4, owner1 = Some 1, owner2 = Some 1\<rparr>,
      \<lparr>at1 = 3, at2 = 0, owner1 = Some 1, owner2 = None\<rparr>, \<lparr>at1 = 3, at2 = 1, owner1 = Some 1, owner2 = Some 2\<rparr>,
      \<lparr>at1 = 3, at2 = 4, owner1 = Some 1, owner2 = None\<rparr>,
      \<lparr>at1 = 4, at2 = 0, owner1 = None, owner2 = None\<rparr>, \<lparr>at1 = 4, at2 = 1, owner1 = None, owner2 = Some 2\<rparr>,
      \<lparr>at1 = 4, at2 = 2, owner1 = Some 2, owner2 = Some 2\<rparr>, \<lparr>at1 = 4, at2 = 3, owner1 = None, owner2 = Some 2\<rparr>,
      \<lparr>at1 = 4, at2 = 4, owner1 = None, owner2 = None\<rparr>]"

lemma abba_closed:
  "list_all (\<lambda>s. (case abba_step1 s of None \<Rightarrow> True | Some s' \<Rightarrow> s' \<in> set abba_states)
     \<and> (case abba_step2 s of None \<Rightarrow> True | Some s' \<Rightarrow> s' \<in> set abba_states)
     \<and> ((abba_step1 s = None \<and> abba_step2 s = None) = (s = \<lparr>at1 = 4, at2 = 4, owner1 = None, owner2 = None\<rparr>
         \<or> s = \<lparr>at1 = 1, at2 = 1, owner1 = Some 1, owner2 = Some 2\<rparr>))) abba_states"
  by (simp add: abba_states_def abba_step1_def abba_step2_def thread_func1_def thread_func2_def
      nth_Cons')

lemma abba_reach_states: "abba_reach s \<Longrightarrow> s \<in> set abba_states"
proof (induction rule: abba_reach.induct)
  case init
  show ?case by (simp add: abba_init_def abba_states_def)
qed (use abba_closed in \<open>fastforce simp: list_all_iff\<close>)+

text \<open>Any interleaving that runs thread 1 to its end, then thread 2, is a run without deadlock.\<close>

lemma abba_one_by_one:
  "abba_reach \<lparr>at1 = 4, at2 = 4, owner1 = None, owner2 = None\<rparr>"
proof -
  have 1: "abba_reach \<lparr>at1 = 1, at2 = 0, owner1 = Some 1, owner2 = None\<rparr>"
    by (rule abba_reach.one [OF abba_reach.init]) (simp add: abba_step1_def abba_init_def thread_func1_def)
  have 2: "abba_reach \<lparr>at1 = 2, at2 = 0, owner1 = Some 1, owner2 = Some 1\<rparr>"
    by (rule abba_reach.one [OF 1]) (simp add: abba_step1_def thread_func1_def)
  have 3: "abba_reach \<lparr>at1 = 3, at2 = 0, owner1 = Some 1, owner2 = None\<rparr>"
    by (rule abba_reach.one [OF 2]) (simp add: abba_step1_def thread_func1_def)
  have 4: "abba_reach \<lparr>at1 = 4, at2 = 0, owner1 = None, owner2 = None\<rparr>"
    by (rule abba_reach.one [OF 3]) (simp add: abba_step1_def thread_func1_def)
  have 5: "abba_reach \<lparr>at1 = 4, at2 = 1, owner1 = None, owner2 = Some 2\<rparr>"
    by (rule abba_reach.two [OF 4]) (simp add: abba_step2_def thread_func2_def)
  have 6: "abba_reach \<lparr>at1 = 4, at2 = 2, owner1 = Some 2, owner2 = Some 2\<rparr>"
    by (rule abba_reach.two [OF 5]) (simp add: abba_step2_def thread_func2_def)
  have 7: "abba_reach \<lparr>at1 = 4, at2 = 3, owner1 = None, owner2 = Some 2\<rparr>"
    by (rule abba_reach.two [OF 6]) (simp add: abba_step2_def thread_func2_def)
  show ?thesis by (rule abba_reach.two [OF 7]) (simp add: abba_step2_def thread_func2_def)
qed

lemma abba_crossed: "abba_reach \<lparr>at1 = 1, at2 = 1, owner1 = Some 1, owner2 = Some 2\<rparr>"
proof -
  have "abba_reach \<lparr>at1 = 1, at2 = 0, owner1 = Some 1, owner2 = None\<rparr>"
    by (rule abba_reach.one [OF abba_reach.init]) (simp add: abba_step1_def abba_init_def thread_func1_def)
  then show ?thesis by (rule abba_reach.two) (simp add: abba_step2_def thread_func2_def)
qed

lemma abba_stuck:
  "abba_reach s \<Longrightarrow> abba_step1 s = None \<Longrightarrow> abba_step2 s = None \<Longrightarrow>
     s = \<lparr>at1 = 4, at2 = 4, owner1 = None, owner2 = None\<rparr>
   \<or> s = \<lparr>at1 = 1, at2 = 1, owner1 = Some 1, owner2 = Some 2\<rparr>"
  using abba_reach_states abba_closed unfolding list_all_iff by blast

text \<open>\<open>lab25_thread_deadlock.c\<close> can deadlock, and in only one way: the reachable states in which
  neither thread can move are the end of both threads and the state in which each holds its first
  mutex and waits for the other's.\<close>

theorem abba_deadlock_exact:
  "{s. abba_reach s \<and> abba_step1 s = None \<and> abba_step2 s = None}
   = {\<lparr>at1 = 4, at2 = 4, owner1 = None, owner2 = None\<rparr>, \<lparr>at1 = 1, at2 = 1, owner1 = Some 1, owner2 = Some 2\<rparr>}"
proof (intro equalityI subsetI)
  fix s
  assume "s \<in> {s. abba_reach s \<and> abba_step1 s = None \<and> abba_step2 s = None}"
  then show "s \<in> {\<lparr>at1 = 4, at2 = 4, owner1 = None, owner2 = None\<rparr>,
      \<lparr>at1 = 1, at2 = 1, owner1 = Some 1, owner2 = Some 2\<rparr>}"
    using abba_stuck [of s] by simp
qed (use abba_one_by_one abba_crossed in
    \<open>auto simp: abba_step1_def abba_step2_def thread_func1_def thread_func2_def\<close>)

end
