(* ===== verification/CJson_Print.thy ===== *)
theory CJson_Print
  imports CJson_String
begin

text \<open>
  Printing in \<open>seance6/project/cJSON.c\<close>: the growing (or caller-supplied) output buffer, numbers,
  strings, arrays and objects, and the entry points. The buffer is memory: a cell is \<open>None\<close>
  until it is written, a write past its end and a \<open>strlen\<close> over unwritten bytes are memory errors
  (\<open>None\<close> of the outer option). \<open>render\<close> is the text a value denotes; the printer either leaves
  exactly that text in the buffer or fails without a memory error.
\<close>

subsection \<open>Number formatting: \<open>%1.15g\<close> and \<open>%1.17g\<close>\<close>

text \<open>\<open>dec_exp a\<close> is the exponent \<open>e\<close> with \<open>10 ^ e \<le> a < 10 ^ (e + 1)\<close>, for \<open>a > 0\<close>.\<close>

definition dec_exp :: "rat \<Rightarrow> int" where
  "dec_exp a =
     (if 1 \<le> a then int (length (dec_nat (nat \<lfloor>a\<rfloor>))) - 1
      else - int (length (dec_nat (nat (\<lceil>1 / a\<rceil> - 1)))))"

definition strip_zeros :: "string \<Rightarrow> string" where
  "strip_zeros ds = rev (dropWhile (\<lambda>c. c = CHR ''0'') (rev ds))"

definition with_point :: "string \<Rightarrow> string \<Rightarrow> string" where
  "with_point ip fp = (if strip_zeros fp = [] then ip else ip @ CHR ''.'' # strip_zeros fp)"

text \<open>
  C's \<open>%.Pg\<close>: \<open>P\<close> significant digits, rounded half to even; the exponent \<open>X\<close> of the rounded value
  chooses the fixed (\<open>-4 \<le> X < P\<close>) or the exponent style; trailing zeros are removed.
\<close>

definition fmt_g :: "nat \<Rightarrow> rat \<Rightarrow> string" where
  "fmt_g P q =
     (if q = 0 then ''0''
      else let a = \<bar>q\<bar>; e = dec_exp a; n = nat (round_even (a / 10 powi (e - int P + 1)));
               X = (if 10 ^ P \<le> n then e + 1 else e);
               ds = dec_nat (if 10 ^ P \<le> n then n div 10 else n);
               body = (if - 4 \<le> X \<and> X < int P then
                         (if 0 \<le> X then with_point (take (nat X + 1) ds) (drop (nat X + 1) ds)
                          else with_point ''0'' (replicate (nat (- X - 1)) (CHR ''0'') @ ds))
                       else with_point (take 1 ds) (drop 1 ds) @
                         CHR ''e'' # (if X < 0 then CHR ''-'' else CHR ''+'') #
                         (if \<bar>X\<bar> < 10 then CHR ''0'' # dec_nat (nat \<bar>X\<bar>) else dec_nat (nat \<bar>X\<bar>)))
           in (if q < 0 then [CHR ''-''] else []) @ body)"

text \<open>The text \<open>print_number\<close> writes into its 26-byte \<open>number_buffer\<close>.\<close>

definition number_text :: "cJSON \<Rightarrow> string" where
  "number_text item =
     (case valuedouble item of
        DNum q \<Rightarrow>
          if deq (DNum q) (dbl_of_int (valueint item)) then dec_int (valueint item)
          else let t15 = fmt_g 15 q; (test, used) = strtod t15
               in if used = 0 \<or> \<not> compare_double test (DNum q) then fmt_g 17 q else t15
      | _ \<Rightarrow> ''null'')"

definition NUMBER_BUFFER :: nat where "NUMBER_BUFFER = 26"

subsection \<open>The output buffer\<close>

record printbuffer =
  pbuf :: "char option list option"
  plen :: nat
  poff :: nat
  pdepth :: nat
  noalloc :: bool
  pformat :: bool
  has_realloc :: bool
  pmem :: mem

text \<open>A statement: \<open>None\<close> is a memory error, otherwise the C result and the buffer after it.\<close>

type_synonym pstep = "printbuffer \<Rightarrow> (bool \<times> printbuffer) option"

definition reallocate :: "mem \<Rightarrow> mem option" where
  "reallocate m = map_option deallocate (allocate m)"

text \<open>The buffer is freed when it cannot grow.\<close>

definition drop_buffer :: "printbuffer \<Rightarrow> printbuffer" where
  "drop_buffer p = p\<lparr>pbuf := None, plen := 0, pmem := deallocate (pmem p)\<rparr>"

definition resize :: "nat \<Rightarrow> pstep" where
  "resize newsize p =
     (case pbuf p of
        None \<Rightarrow> None
      | Some b \<Rightarrow>
          if has_realloc p then
            (case reallocate (pmem p) of
               None \<Rightarrow> Some (False, drop_buffer p)
             | Some m \<Rightarrow> Some (True, p\<lparr>pbuf := Some (take newsize (b @ replicate newsize None)), plen := newsize, pmem := m\<rparr>))
          else
            (case allocate (pmem p) of
               None \<Rightarrow> Some (False, drop_buffer p)
             | Some m \<Rightarrow>
                 if length b < poff p + 1 \<or> newsize < poff p + 1 then None
                 else Some (True, p\<lparr>pbuf := Some (take newsize (take (poff p + 1) b @ replicate newsize None)),
                        plen := newsize, pmem := deallocate m\<rparr>)))"

definition ensure :: "nat \<Rightarrow> pstep" where
  "ensure needed p =
     (if pbuf p = None then Some (False, p)
      else if plen p > 0 \<and> poff p \<ge> plen p then Some (False, p)
      else if needed > nat INT_MAX then Some (False, p)
      else let needed = needed + poff p + 1
           in if needed \<le> plen p then Some (True, p)
              else if noalloc p then Some (False, p)
              else if needed > nat INT_MAX div 2 then
                (if needed \<le> nat INT_MAX then resize (nat INT_MAX) p else Some (False, p))
              else resize (needed * 2) p)"

text \<open>Writing bytes at \<open>output_pointer = buffer + offset\<close>.\<close>

definition put :: "string \<Rightarrow> printbuffer \<Rightarrow> printbuffer option" where
  "put s p =
     (case pbuf p of
        None \<Rightarrow> None
      | Some b \<Rightarrow>
          if length b < poff p + length s then None
          else Some (p\<lparr>pbuf := Some (take (poff p) b @ map Some s @ drop (poff p + length s) b)\<rparr>))"

definition shift :: "nat \<Rightarrow> printbuffer \<Rightarrow> printbuffer" where
  "shift n p = p\<lparr>poff := poff p + n\<rparr>"

text \<open>Reserve \<open>needed\<close> bytes, write \<open>s\<close> at the offset, advance it by \<open>n\<close>.\<close>

definition emit :: "nat \<Rightarrow> string \<Rightarrow> nat \<Rightarrow> pstep" where
  "emit needed s n p =
     (case ensure needed p of
        None \<Rightarrow> None
      | Some (False, p) \<Rightarrow> Some (False, p)
      | Some (True, p) \<Rightarrow> (case put s p of None \<Rightarrow> None | Some p \<Rightarrow> Some (True, shift n p)))"

text \<open>\<open>strlen\<close> of the bytes from a position: \<open>None\<close> when it meets an unwritten byte or the end.\<close>

fun strlen :: "char option list \<Rightarrow> nat option" where
  "strlen [] = None"
| "strlen (None # _) = None"
| "strlen (Some c # r) = (if c = NUL then Some 0 else map_option Suc (strlen r))"

definition update_offset :: "printbuffer \<Rightarrow> printbuffer option" where
  "update_offset p =
     (case pbuf p of
        None \<Rightarrow> Some p
      | Some b \<Rightarrow> (case strlen (drop (poff p) b) of None \<Rightarrow> None | Some n \<Rightarrow> Some (shift n p)))"

text \<open>Sequencing: a statement that fails returns \<open>false\<close> at once.\<close>

definition andthen :: "pstep \<Rightarrow> pstep \<Rightarrow> pstep" where
  "andthen f g p =
     (case f p of None \<Rightarrow> None | Some (False, p) \<Rightarrow> Some (False, p) | Some (True, p) \<Rightarrow> g p)"

definition set_depth :: "(nat \<Rightarrow> nat) \<Rightarrow> pstep" where
  "set_depth f p = Some (True, p\<lparr>pdepth := f (pdepth p)\<rparr>)"

definition updated :: "pstep" where
  "updated p = map_option (Pair True) (update_offset p)"

subsection \<open>Printing\<close>

definition print_number :: "cJSON \<Rightarrow> pstep" where
  "print_number item p =
     (let number_buffer = number_text item; len = length number_buffer
      in if NUMBER_BUFFER < len + 1 then None
         else if len > NUMBER_BUFFER - 1 then Some (False, p)
         else emit (len + 1)
                (map (\<lambda>c. if c = get_decimal_point then CHR ''.'' else c) number_buffer @ [NUL]) len p)"

text \<open>
  The closing quote and the NUL go to \<open>output[output_length + 1]\<close> and after, wherever the copying
  loop stopped.
\<close>

definition print_string_ptr :: "string option \<Rightarrow> pstep" where
  "print_string_ptr input p =
     (case input of
        None \<Rightarrow> emit 3 [CHR 0x22, CHR 0x22, NUL] 0 p
      | Some s \<Rightarrow>
          let escapes = escape_characters s; output_length = length s + escapes;
              body = (if escapes = 0 then s else escape_string s)
          in emit (output_length + 3) (take (output_length + 1) (CHR 0x22 # body) @ [CHR 0x22, NUL]) 0 p)"

definition print_string :: "cJSON \<Rightarrow> pstep" where
  "print_string item = print_string_ptr (valuestring item)"

definition tabs :: "nat \<Rightarrow> string" where
  "tabs n = replicate n (CHR 0x09)"

text \<open>\<open>nxt\<close> is \<open>current->next \<noteq> NULL\<close>. One turn of each loop around the printing of the value.\<close>

definition array_open :: pstep where
  "array_open = andthen (emit 1 ''['' 1) (set_depth Suc)"

definition array_comma :: "bool \<Rightarrow> pstep" where
  "array_comma nxt p =
     (if nxt then
        (let n = (if pformat p then 2 else 1)
         in emit (n + 1) (CHR '','' # (if pformat p then '' '' else []) @ [NUL]) n p)
      else Some (True, p))"

definition array_close :: pstep where
  "array_close = andthen (emit 2 (CHR '']'' # [NUL]) 0) (set_depth (\<lambda>d. d - 1))"

definition object_open :: pstep where
  "object_open p =
     (let n = (if pformat p then 2 else 1)
      in andthen (emit (n + 1) (CHR ''{'' # (if pformat p then [CHR 0x0A] else [])) n) (set_depth Suc) p)"

definition object_indent :: pstep where
  "object_indent p = (if pformat p then emit (pdepth p) (tabs (pdepth p)) (pdepth p) p else Some (True, p))"

definition object_colon :: pstep where
  "object_colon p =
     (let n = (if pformat p then 2 else 1) in emit n (CHR '':'' # (if pformat p then [CHR 0x09] else [])) n p)"

definition object_comma :: "bool \<Rightarrow> pstep" where
  "object_comma nxt p =
     (let n = (if pformat p then 1 else 0) + (if nxt then 1 else 0)
      in emit (n + 1) ((if nxt then '','' else []) @ (if pformat p then [CHR 0x0A] else []) @ [NUL]) n p)"

definition object_close :: pstep where
  "object_close p =
     andthen (emit (if pformat p then pdepth p + 1 else 2)
                ((if pformat p then tabs (pdepth p - 1) else []) @ CHR ''}'' # [NUL]) 0)
       (set_depth (\<lambda>d. d - 1)) p"

text \<open>
  \<open>print_value\<close> with \<open>print_array\<close> and \<open>print_object\<close>; the loops are \<open>print_elements\<close> and
  \<open>print_members\<close>.
\<close>

function print_value :: "cJSON \<Rightarrow> pstep"
  and print_elements :: "cJSON list \<Rightarrow> pstep"
  and print_members :: "cJSON list \<Rightarrow> pstep" where
  "print_value (CJSON ty vs vi vd k ch) p =
     (let t = ty AND 0xFF
      in if t = cJSON_NULL then emit 5 (''null'' @ [NUL]) 0 p
         else if t = cJSON_False then emit 6 (''false'' @ [NUL]) 0 p
         else if t = cJSON_True then emit 5 (''true'' @ [NUL]) 0 p
         else if t = cJSON_Number then print_number (CJSON ty vs vi vd k ch) p
         else if t = cJSON_Raw then
           (case vs of None \<Rightarrow> Some (False, p) | Some s \<Rightarrow> emit (length s + 1) (s @ [NUL]) 0 p)
         else if t = cJSON_String then print_string (CJSON ty vs vi vd k ch) p
         else if t = cJSON_Array then
           (if pdepth p \<ge> CJSON_NESTING_LIMIT then Some (False, p)
            else andthen array_open (andthen (print_elements ch) array_close) p)
         else if t = cJSON_Object then
           (if pdepth p \<ge> CJSON_NESTING_LIMIT then Some (False, p)
            else andthen object_open (andthen (print_members ch) object_close) p)
         else Some (False, p))"
| "print_elements [] p = Some (True, p)"
| "print_elements (c # cs) p =
     andthen (print_value c) (andthen updated (andthen (array_comma (cs \<noteq> [])) (print_elements cs))) p"
| "print_members [] p = Some (True, p)"
| "print_members (c # cs) p =
     andthen object_indent (andthen (print_string_ptr (istring c)) (andthen updated (andthen object_colon
       (andthen (print_value c) (andthen updated (andthen (object_comma (cs \<noteq> [])) (print_members cs))))))) p"
  by pat_completeness auto
termination
  by (relation "measure (\<lambda>s. case s of Inl (v, _) \<Rightarrow> size v | Inr (Inl (cs, _)) \<Rightarrow> size_list size cs
        | Inr (Inr (cs, _)) \<Rightarrow> size_list size cs)") auto

subsection \<open>The text a value denotes\<close>

definition quoted :: "string option \<Rightarrow> string" where
  "quoted s = CHR 0x22 # (case s of None \<Rightarrow> [] | Some t \<Rightarrow> escape_string t) @ [CHR 0x22]"

definition sep :: "bool \<Rightarrow> string \<Rightarrow> string" where
  "sep b s = (if b then s else [])"

function render :: "bool \<Rightarrow> nat \<Rightarrow> cJSON \<Rightarrow> string option"
  and render_elements :: "bool \<Rightarrow> nat \<Rightarrow> cJSON list \<Rightarrow> string option"
  and render_members :: "bool \<Rightarrow> nat \<Rightarrow> cJSON list \<Rightarrow> string option" where
  "render fmt d (CJSON ty vs vi vd k ch) =
     (let t = ty AND 0xFF
      in if t = cJSON_NULL then Some ''null''
         else if t = cJSON_False then Some ''false''
         else if t = cJSON_True then Some ''true''
         else if t = cJSON_Number then Some (number_text (CJSON ty vs vi vd k ch))
         else if t = cJSON_Raw then vs
         else if t = cJSON_String then Some (quoted vs)
         else if t = cJSON_Array then
           (if d \<ge> CJSON_NESTING_LIMIT then None
            else map_option (\<lambda>s. CHR ''['' # s @ '']'') (render_elements fmt (Suc d) ch))
         else if t = cJSON_Object then
           (if d \<ge> CJSON_NESTING_LIMIT then None
            else map_option (\<lambda>s. CHR ''{'' # sep fmt [CHR 0x0A] @ s @ sep fmt (tabs d) @ ''}'')
                   (render_members fmt (Suc d) ch))
         else None)"
| "render_elements fmt d [] = Some []"
| "render_elements fmt d (c # cs) =
     (case render fmt d c of
        None \<Rightarrow> None
      | Some s \<Rightarrow> map_option (\<lambda>r. s @ sep (cs \<noteq> []) (CHR '','' # sep fmt '' '') @ r) (render_elements fmt d cs))"
| "render_members fmt d [] = Some []"
| "render_members fmt d (c # cs) =
     (case render fmt d c of
        None \<Rightarrow> None
      | Some s \<Rightarrow>
          map_option (\<lambda>r. sep fmt (tabs d) @ quoted (istring c) @ CHR '':'' # sep fmt [CHR 0x09] @ s @
              sep (cs \<noteq> []) '','' @ sep fmt [CHR 0x0A] @ r) (render_members fmt d cs))"
  by pat_completeness auto
termination
  by (relation "measure (\<lambda>s. case s of Inl (_, _, v) \<Rightarrow> size v | Inr (Inl (_, _, cs)) \<Rightarrow> size_list size cs
        | Inr (Inr (_, _, cs)) \<Rightarrow> size_list size cs)") auto

subsection \<open>Buffer states\<close>

text \<open>
  \<open>holds p s\<close>: the buffer starts with \<open>s\<close>. \<open>wrote p pre\<close>: the offset is after \<open>pre\<close>. \<open>shown p pre t\<close>:
  \<open>pre @ t\<close> and a NUL are in the buffer and the offset has not passed \<open>t\<close>.
\<close>

definition sized :: "printbuffer \<Rightarrow> bool" where
  "sized p \<longleftrightarrow> map_option length (pbuf p) = Some (plen p) \<and> plen p \<le> nat INT_MAX
     \<and> (plen p = 0 \<longrightarrow> noalloc p \<or> has_realloc p)"

definition holds :: "printbuffer \<Rightarrow> string \<Rightarrow> bool" where
  "holds p s \<longleftrightarrow> (case pbuf p of None \<Rightarrow> False | Some b \<Rightarrow> take (length s) b = map Some s)"

definition wrote :: "printbuffer \<Rightarrow> string \<Rightarrow> bool" where
  "wrote p pre \<longleftrightarrow> sized p \<and> holds p pre \<and> poff p = length pre \<and> (poff p < plen p \<or> pre = [])"

definition shown :: "printbuffer \<Rightarrow> string \<Rightarrow> string \<Rightarrow> bool" where
  "shown p pre t \<longleftrightarrow> sized p \<and> holds p (pre @ t @ [NUL]) \<and> length pre \<le> poff p \<and> poff p \<le> length pre + length t"

text \<open>
  \<open>kept\<close>: what a success leaves unchanged; \<open>dropped\<close>: a failure has freed the buffer or left it;
  \<open>refused p p' l\<close>: the reason of a failure when \<open>l\<close> bytes were enough.
\<close>

definition kept :: "printbuffer \<Rightarrow> printbuffer \<Rightarrow> bool" where
  "kept p p' \<longleftrightarrow> noalloc p' = noalloc p \<and> pformat p' = pformat p \<and> has_realloc p' = has_realloc p
     \<and> live (pmem p') = live (pmem p)
     \<and> (noalloc p \<longrightarrow> plen p' = plen p \<and> map_option length (pbuf p') = map_option length (pbuf p))"

definition dropped :: "printbuffer \<Rightarrow> printbuffer \<Rightarrow> bool" where
  "dropped p p' \<longleftrightarrow> has_realloc p' = has_realloc p
     \<and> live (pmem p') = live (pmem p) - (if pbuf p' = None then 1 else 0)
     \<and> (noalloc p \<longrightarrow> map_option length (pbuf p') = map_option length (pbuf p))"

definition refused :: "printbuffer \<Rightarrow> printbuffer \<Rightarrow> nat \<Rightarrow> bool" where
  "refused p p' l \<longleftrightarrow> (if noalloc p then plen p < l else budget (pmem p') = 0 \<or> nat INT_MAX < l)"

definition outcome :: "printbuffer \<Rightarrow> nat option \<Rightarrow> (bool \<times> printbuffer) option \<Rightarrow> (printbuffer \<Rightarrow> bool) \<Rightarrow> bool" where
  "outcome p L r Q \<longleftrightarrow>
     (case r of None \<Rightarrow> False
      | Some (True, p') \<Rightarrow> kept p p' \<and> Q p'
      | Some (False, p') \<Rightarrow> dropped p p' \<and> (case L of None \<Rightarrow> True | Some l \<Rightarrow> refused p p' l))"

definition upto_lim :: "nat \<Rightarrow> nat option \<Rightarrow> bool" where
  "upto_lim n L \<longleftrightarrow> (case L of None \<Rightarrow> True | Some l \<Rightarrow> n \<le> l)"

lemma upto_lim_simps [simp]: "upto_lim n None" "upto_lim n (Some l) = (n \<le> l)"
  by (simp_all add: upto_lim_def)

lemma outcome_simps [simp]:
  "\<not> outcome p L None Q"
  "outcome p L (Some (True, p')) Q \<longleftrightarrow> kept p p' \<and> Q p'"
  "outcome p L (Some (False, p')) Q \<longleftrightarrow> dropped p p' \<and> (case L of None \<Rightarrow> True | Some l \<Rightarrow> refused p p' l)"
  by (simp_all add: outcome_def)

lemma kept_refl [simp]: "kept p p"
  by (simp add: kept_def)

lemma outcome_cases:
  "outcome p L r Q \<Longrightarrow>
     (\<exists>p'. r = Some (True, p') \<and> kept p p' \<and> Q p')
   \<or> (\<exists>p'. r = Some (False, p') \<and> dropped p p' \<and> (case L of None \<Rightarrow> True | Some l \<Rightarrow> refused p p' l))"
  by (auto simp: outcome_def split: option.splits prod.splits bool.splits)

lemma outcome_weaken:
  assumes "outcome p L r Q" "L = None \<longrightarrow> L' = None" "\<And>l. L = Some l \<Longrightarrow> upto_lim l L'" "\<And>p'. Q p' \<Longrightarrow> R p'"
  shows "outcome p L' r R"
  using outcome_cases [OF assms(1)] assms(2-)
  by (cases L; cases L') (auto simp: refused_def split: if_splits)

lemma outcome_andthen:
  assumes "outcome p L (f p) Q" "\<And>p'. kept p p' \<Longrightarrow> Q p' \<Longrightarrow> outcome p' L (g p') R"
  shows "outcome p L (andthen f g p) R"
  using outcome_cases [OF assms(1)]
proof
  assume "\<exists>p'. f p = Some (True, p') \<and> kept p p' \<and> Q p'"
  then obtain p' where f: "f p = Some (True, p')" "kept p p'" "Q p'" by blast
  have e: "andthen f g p = g p'" using f(1) by (simp add: andthen_def)
  from outcome_cases [OF assms(2) [OF f(2,3)]] show ?thesis
    using f(2) unfolding e
    by (cases L) (auto simp: kept_def dropped_def refused_def split: if_splits)
next
  assume "\<exists>p'. f p = Some (False, p') \<and> dropped p p' \<and> (case L of None \<Rightarrow> True | Some l \<Rightarrow> refused p p' l)"
  then show ?thesis by (auto simp: andthen_def)
qed

subsection \<open>The buffer primitives\<close>

lemma holds_prefix: "holds p (s @ t) \<Longrightarrow> holds p s"
proof -
  assume "holds p (s @ t)"
  then obtain b where b: "pbuf p = Some b" "take (length s + length t) b = map Some s @ map Some t"
    by (auto simp: holds_def split: option.splits)
  from arg_cong [OF b(2), of "take (length s)"] have "take (length s) b = map Some s" by (simp add: min_def)
  then show ?thesis by (simp add: holds_def b(1))
qed

lemma holds_length: "holds p s \<Longrightarrow> sized p \<Longrightarrow> length s \<le> plen p"
proof -
  assume "holds p s" "sized p"
  then obtain b where b: "pbuf p = Some b" "take (length s) b = map Some s" "length b = plen p"
    by (auto simp: holds_def sized_def split: option.splits)
  from arg_cong [OF b(2), of length] b(3) show ?thesis by simp
qed

lemma take_grown: "n \<le> length b \<Longrightarrow> n \<le> m \<Longrightarrow> take n (take m (b @ r)) = take n b"
  by (simp add: min_def)

lemma resize_outcome:
  assumes "wrote p pre" "\<not> noalloc p" "plen p < n" "n \<le> nat INT_MAX"
  shows "outcome p L (resize n p) (\<lambda>p'. wrote p' pre \<and> pdepth p' = pdepth p \<and> plen p' = n)"
proof -
  obtain b where b: "pbuf p = Some b" "length b = plen p" "take (length pre) b = map Some pre"
    using assms(1) by (auto simp: wrote_def sized_def holds_def split: option.splits)
  have off: "poff p = length pre" "poff p \<le> plen p" "plen p \<noteq> 0 \<longrightarrow> poff p < plen p" "plen p = 0 \<longrightarrow> has_realloc p"
    using assms(1,2) by (auto simp: wrote_def sized_def)
  have fail: "outcome p L (Some (False, drop_buffer p)) Q" if "budget (pmem p) = 0" for Q
    using that assms(2) by (auto simp: dropped_def refused_def drop_buffer_def split: option.split)
  show ?thesis
  proof (cases "budget (pmem p) = 0")
    case True
    with fail b show ?thesis by (simp add: resize_def reallocate_def allocate_def)
  next
    case False
    then obtain m where m: "allocate (pmem p) = Some m" "live m = live (pmem p) + 1"
      by (simp add: allocate_def)
    have le: "length pre \<le> length b" "length pre < n" "Suc (length pre) \<le> n" using off b(2) assms(3) by auto
    have t: "take (length pre) (take n (b @ r)) = map Some pre"
      "take (length pre) (take n (take (Suc (length pre)) b @ r)) = map Some pre" for r
      using le b(3) by (simp_all add: min_def)
    show ?thesis
    proof (cases "has_realloc p")
      case True
      then have "resize n p = Some (True, p\<lparr>pbuf := Some (take n (b @ replicate n None)), plen := n, pmem := deallocate m\<rparr>)"
        using b(1) m(1) by (simp add: resize_def reallocate_def)
      then show ?thesis using off m(2) le t(1) assms
        by (simp add: kept_def wrote_def sized_def holds_def)
    next
      case False
      then have l: "Suc (length pre) \<le> length b" using off b(2) by auto
      then have "resize n p = Some (True, p\<lparr>pbuf := Some (take n (take (Suc (length pre)) b @ replicate n None)),
          plen := n, pmem := deallocate m\<rparr>)"
        using b(1) m(1) False off(1) le by (simp add: resize_def)
      then show ?thesis using off m(2) le t(2) l assms False
        by (simp add: kept_def wrote_def sized_def holds_def)
    qed
  qed
qed

lemma ensure_outcome:
  assumes "wrote p pre"
  shows "outcome p (Some (length pre + needed + 1)) (ensure needed p)
           (\<lambda>p'. wrote p' pre \<and> pdepth p' = pdepth p \<and> length pre + needed + 1 \<le> plen p')"
proof -
  have w: "pbuf p \<noteq> None" "poff p = length pre" "plen p = 0 \<or> poff p < plen p" "plen p \<le> nat INT_MAX"
    using assms by (auto simp: wrote_def sized_def)
  have no: "dropped p p" using w(1) by (simp add: dropped_def)
  have grow: "outcome p (Some (length pre + needed + 1)) (resize n p)
           (\<lambda>p'. wrote p' pre \<and> pdepth p' = pdepth p \<and> length pre + needed + 1 \<le> plen p')"
    if "\<not> noalloc p" "plen p < n" "n \<le> nat INT_MAX" "length pre + needed + 1 \<le> n" for n
    by (rule outcome_weaken [OF resize_outcome [OF assms that(1-3)]]) (use that(4) in auto)
  show ?thesis
  proof (cases "needed > nat INT_MAX \<or> plen p < needed + poff p + 1")
    case False
    then show ?thesis using w assms by (auto simp: ensure_def Let_def)
  next
    case big: True
    show ?thesis
    proof (cases "needed > nat INT_MAX \<or> noalloc p \<or> nat INT_MAX < needed + poff p + 1")
      case True
      then have "ensure needed p = Some (False, p)" using w big by (auto simp: ensure_def Let_def)
      moreover have "refused p p (length pre + needed + 1)" using w True big by (auto simp: refused_def)
      ultimately show ?thesis using no by simp
    next
      case False
      let ?n = "if needed + poff p + 1 > nat INT_MAX div 2 then nat INT_MAX else (needed + poff p + 1) * 2"
      have "ensure needed p = resize ?n p" using w False big by (auto simp: ensure_def Let_def)
      moreover have "plen p < ?n" "?n \<le> nat INT_MAX" "length pre + needed + 1 \<le> ?n"
        using False big w by auto
      ultimately show ?thesis using grow [of ?n] False by simp
    qed
  qed
qed

lemma put_holds:
  assumes "wrote p pre" "length pre + length s \<le> plen p"
  shows "\<exists>p'. put s p = Some p' \<and> kept p p' \<and> sized p' \<and> holds p' (pre @ s)
     \<and> poff p' = length pre \<and> plen p' = plen p \<and> pdepth p' = pdepth p"
proof -
  obtain b where b: "pbuf p = Some b" "length b = plen p" "take (length pre) b = map Some pre"
    using assms(1) by (auto simp: wrote_def sized_def holds_def split: option.splits)
  moreover have "poff p = length pre" "length pre \<le> plen p" using assms by (auto simp: wrote_def)
  moreover have "take (length pre + length s) (take (length pre) b @ map Some s @ r) = map Some (pre @ s)" for r
    using b calculation(5) by simp
  ultimately show ?thesis using assms by (auto simp: put_def kept_def wrote_def sized_def holds_def min_def)
qed

text \<open>\<open>emit\<close> with a NUL after the text, and without one when the offset passes it.\<close>

lemma emit_outcome:
  assumes "wrote p pre" "length s \<le> needed + 1" "upto_lim (length pre + needed + 1) L"
  shows "outcome p L (emit needed s n p)
     (\<lambda>p'. sized p' \<and> holds p' (pre @ s) \<and> poff p' = length pre + n \<and> length pre + needed + 1 \<le> plen p'
        \<and> pdepth p' = pdepth p)"
proof -
  let ?Q = "\<lambda>p'. wrote p' pre \<and> pdepth p' = pdepth p \<and> length pre + needed + 1 \<le> plen p'"
  have "outcome p L (ensure needed p) ?Q"
    by (rule outcome_weaken [OF ensure_outcome [OF assms(1)]]) (use assms(3) in auto)
  from outcome_cases [OF this] show ?thesis
  proof
    assume "\<exists>p'. ensure needed p = Some (True, p') \<and> kept p p' \<and> ?Q p'"
    then obtain q where q: "ensure needed p = Some (True, q)" "kept p q" "?Q q" by blast
    from q(3) assms(2) obtain q' where q': "put s q = Some q'" "kept q q'" "sized q'" "holds q' (pre @ s)"
      "poff q' = length pre" "plen q' = plen q" "pdepth q' = pdepth q"
      using put_holds [of q pre s] by auto
    then show ?thesis using q
      by (auto simp: emit_def shift_def kept_def sized_def holds_def)
  qed (auto simp: emit_def)
qed

lemma emit_text:
  assumes "wrote p pre" "length t \<le> needed" "upto_lim (length pre + needed + 1) L"
  shows "outcome p L (emit needed t (length t) p) (\<lambda>p'. wrote p' (pre @ t) \<and> pdepth p' = pdepth p)"
  by (rule outcome_weaken [OF emit_outcome [OF assms(1) _ assms(3)]]) (use assms(2) in \<open>auto simp: wrote_def\<close>)

lemma emit_nul:
  assumes "wrote p pre" "length t \<le> needed" "upto_lim (length pre + needed + 1) L" "n \<le> length t"
  shows "outcome p L (emit needed (t @ [NUL]) n p) (\<lambda>p'. shown p' pre t \<and> pdepth p' = pdepth p)"
  by (rule outcome_weaken [OF emit_outcome [OF assms(1) _ assms(3)]]) (use assms(2,4) in \<open>auto simp: shown_def\<close>)

lemma emit_text_nul:
  assumes "wrote p pre" "length t \<le> needed" "upto_lim (length pre + needed + 1) L"
  shows "outcome p L (emit needed (t @ [NUL]) (length t) p) (\<lambda>p'. wrote p' (pre @ t) \<and> pdepth p' = pdepth p)"
  by (rule outcome_weaken [OF emit_outcome [OF assms(1) _ assms(3)]])
    (use assms(2) holds_prefix [of _ "pre @ t" "[NUL]"] in \<open>auto simp: wrote_def\<close>)

lemma outcome_skip: "Q p \<Longrightarrow> outcome p L (Some (True, p)) Q"
  by simp

lemma outcome_depth: "Q (p\<lparr>pdepth := f (pdepth p)\<rparr>) \<Longrightarrow> outcome p L (set_depth f p) Q"
  by (simp add: set_depth_def kept_def)

lemma sized_depth [simp]: "sized (p\<lparr>pdepth := d\<rparr>) = sized p" "holds (p\<lparr>pdepth := d\<rparr>) t = holds p t"
  by (simp_all add: sized_def holds_def)

lemma wrote_depth [simp]: "wrote (p\<lparr>pdepth := d\<rparr>) pre = wrote p pre"
  "shown (p\<lparr>pdepth := d\<rparr>) pre t = shown p pre t"
  by (simp_all add: wrote_def shown_def sized_def holds_def)

lemma strlen_map: "NUL \<notin> set s \<Longrightarrow> strlen (map Some s @ Some NUL # r) = Some (length s)"
  by (induction s) auto

lemma updated_outcome:
  assumes "shown p pre t" "NUL \<notin> set t"
  shows "outcome p L (updated p) (\<lambda>p'. wrote p' (pre @ t) \<and> pdepth p' = pdepth p)"
proof -
  let ?s = "pre @ t @ [NUL]"
  obtain b where b: "pbuf p = Some b" "length b = plen p" "take (length ?s) b = map Some ?s"
    using assms(1) by (auto simp: shown_def sized_def holds_def split: option.splits)
  define k where "k = poff p - length pre"
  have k: "poff p = length pre + k" "k \<le> length t" using assms(1) by (auto simp: shown_def k_def)
  have "b = map Some ?s @ drop (length ?s) b" using b(3) by (metis append_take_drop_id)
  then have "drop (poff p) b = drop (poff p) (map Some ?s @ drop (length ?s) b)" by simp
  also have "\<dots> = map Some (drop k t) @ Some NUL # drop (length ?s) b"
    using k by (simp add: drop_map)
  finally have s: "strlen (drop (poff p) b) = Some (length t - k)"
    using strlen_map [of "drop k t" "drop (length ?s) b"] assms(2) set_drop_subset [of k t] by auto
  have "length ?s \<le> plen p" using assms(1) holds_length [of p ?s] by (simp add: shown_def)
  moreover have "holds p (pre @ t)" using assms(1) holds_prefix [of p "pre @ t" "[NUL]"] by (simp add: shown_def)
  ultimately show ?thesis using s b(1) k assms(1)
    by (simp add: updated_def update_offset_def shift_def kept_def wrote_def shown_def sized_def holds_def)
qed

subsection \<open>Numbers fit the number buffer\<close>

text \<open>The finite doubles lie between these bounds.\<close>

definition is_double :: "double \<Rightarrow> bool" where
  "is_double d \<longleftrightarrow> (case d of DNum q \<Rightarrow> q = 0 \<or> 1 / 2 ^ 1074 \<le> \<bar>q\<bar> \<and> \<bar>q\<bar> < 2 ^ 1024 | _ \<Rightarrow> True)"

lemma dec_nat_upper: "n < 10 ^ length (dec_nat n)"
proof (induction n rule: dec_nat.induct)
  case (1 n)
  show ?case
  proof (cases "n < 10")
    case True
    then show ?thesis by (subst dec_nat.simps) simp
  next
    case False
    with 1 have "n div 10 < 10 ^ length (dec_nat (n div 10))" by simp
    then have "n < 10 ^ length (dec_nat (n div 10)) * 10" by (simp add: div_less_iff_less_mult)
    with False show ?thesis by (subst dec_nat.simps) (simp add: mult.commute)
  qed
qed

lemma dec_nat_lower: "0 < n \<Longrightarrow> 10 ^ (length (dec_nat n) - 1) \<le> n"
proof (induction n rule: dec_nat.induct)
  case (1 n)
  show ?case
  proof (cases "n < 10")
    case True
    with 1 show ?thesis by (subst dec_nat.simps) simp
  next
    case False
    with 1 have "10 ^ (length (dec_nat (n div 10)) - 1) \<le> n div 10" by simp
    then have "10 ^ (length (dec_nat (n div 10)) - 1) * 10 \<le> n div 10 * 10" by (rule mult_le_mono1)
    also have "\<dots> \<le> n" by simp
    finally have "10 * 10 ^ (length (dec_nat (n div 10)) - 1) \<le> n" by (simp add: mult.commute)
    moreover have "10 * 10 ^ (length (dec_nat (n div 10)) - 1) = (10 :: nat) ^ length (dec_nat (n div 10))"
      by (metis length_dec_nat_pos power_minus_mult mult.commute)
    ultimately show ?thesis using False by (subst dec_nat.simps) simp
  qed
qed

lemma powi_nonneg: "10 powi (int n) = (10 :: rat) ^ n"
  by (simp add: power_int_of_nat)

text \<open>\<open>dec_exp\<close> bounds its argument from above, and is small for a double.\<close>

lemma dec_exp_upper:
  assumes "0 < a"
  shows "a < 10 powi (dec_exp a + 1)"
proof (cases "1 \<le> a")
  case True
  let ?n = "nat \<lfloor>a\<rfloor>"
  have "int ?n = \<lfloor>a\<rfloor>" using True by simp
  moreover have "int ?n < 10 ^ length (dec_nat ?n)" using dec_nat_upper [of ?n] by (metis of_nat_less_iff of_nat_numeral of_nat_power)
  ultimately have "\<lfloor>a\<rfloor> < 10 ^ length (dec_nat ?n)" by simp
  then have "a < of_int (10 ^ length (dec_nat ?n))" by (simp only: floor_less_iff)
  then show ?thesis using True powi_nonneg [of "length (dec_nat ?n)"] by (simp add: dec_exp_def)
next
  case False
  let ?m = "nat (\<lceil>1 / a\<rceil> - 1)"
  have "1 < 1 / a" using False assms by simp
  then have "2 \<le> \<lceil>1 / a\<rceil>" by linarith
  then have m: "0 < ?m" "rat_of_nat ?m < 1 / a" by (simp, linarith)
  have "(10 :: rat) ^ (length (dec_nat ?m) - 1) \<le> rat_of_nat ?m"
    using dec_nat_lower [OF m(1)] by (metis of_nat_le_iff of_nat_numeral of_nat_power)
  then have "10 ^ (length (dec_nat ?m) - 1) < 1 / a" using m(2) by (rule le_less_trans)
  then have "a < 1 / 10 ^ (length (dec_nat ?m) - 1)" using assms by (simp add: field_simps)
  moreover have "10 powi (dec_exp a + 1) = (1 :: rat) / 10 ^ (length (dec_nat ?m) - 1)"
  proof -
    have e: "dec_exp a + 1 = - int (length (dec_nat ?m) - 1)" using False by (simp add: dec_exp_def of_nat_diff Suc_leI)
    show ?thesis by (simp only: e power_int_minus powi_nonneg) (simp add: divide_inverse)
  qed
  ultimately show ?thesis by simp
qed

lemma nat_less_power: "i < 10 ^ k \<Longrightarrow> 0 \<le> i \<Longrightarrow> nat i < 10 ^ k"
  by (simp add: nat_less_iff)

lemma dec_exp_range:
  assumes "1 / 2 ^ 1074 \<le> a" "a < 2 ^ 1024"
  shows "\<bar>dec_exp a\<bar> \<le> 324"
proof (cases "1 \<le> a")
  case True
  have "a < of_int (2 ^ 1024)" using assms(2) by simp
  then have "\<lfloor>a\<rfloor> < 2 ^ 1024" by (simp only: floor_less_iff)
  also have "(2 :: int) ^ 1024 < 10 ^ 310" by simp
  finally have "nat \<lfloor>a\<rfloor> < 10 ^ 310" by (rule nat_less_power) (use True in simp)
  then show ?thesis using length_dec_nat [of "nat \<lfloor>a\<rfloor>" 310] True by (simp add: dec_exp_def)
next
  case False
  have "0 < a" using assms(1) by (rule less_le_trans [rotated]) simp
  then have "1 / a \<le> of_int (2 ^ 1074)" using assms(1) by (simp add: field_simps)
  then have "\<lceil>1 / a\<rceil> \<le> 2 ^ 1074" by (simp only: ceiling_le_iff)
  also have "(2 :: int) ^ 1074 < 10 ^ 324" by simp
  finally have "\<lceil>1 / a\<rceil> - 1 < 10 ^ 324" by simp
  then have "nat (\<lceil>1 / a\<rceil> - 1) < 10 ^ 324" by (rule nat_less_power) (use \<open>0 < a\<close> in simp)
  then show ?thesis using length_dec_nat [of "nat (\<lceil>1 / a\<rceil> - 1)" 324] False by (simp add: dec_exp_def)
qed

lemma round_even_le: "x < of_int k \<Longrightarrow> round_even x \<le> k"
proof -
  assume "x < of_int k"
  then have "\<lfloor>x\<rfloor> < k" by (simp only: floor_less_iff)
  then show ?thesis by (simp add: round_even_def Let_def)
qed

lemma length_strip_zeros: "length (strip_zeros ds) \<le> length ds"
  by (simp add: strip_zeros_def) (metis length_dropWhile_le length_rev)

lemma length_with_point: "length (with_point ip fp) \<le> length ip + 1 + length fp"
  using length_strip_zeros [of fp] by (simp add: with_point_def)

lemma length_fmt_g:
  assumes "is_double (DNum q)" "0 < P" "P \<le> 17"
  shows "length (fmt_g P q) \<le> P + 8"
proof (cases "q = 0")
  case False
  define a where "a = \<bar>q\<bar>"
  define e where "e = dec_exp a"
  define n where "n = nat (round_even (a / 10 powi (e - int P + 1)))"
  define X where "X = (if 10 ^ P \<le> n then e + 1 else e)"
  define ds where "ds = dec_nat (if 10 ^ P \<le> n then n div 10 else n)"
  have a: "0 < a" "1 / 2 ^ 1074 \<le> a" "a < 2 ^ 1024" using False assms(1) by (auto simp: is_double_def a_def)
  have X: "\<bar>X\<bar> < 1000" using dec_exp_range [OF a(2,3)] by (auto simp: X_def e_def)
  have "a < 10 powi (e - int P + 1) * 10 ^ P"
    using dec_exp_upper [OF a(1)] power_int_add [of "10 :: rat" "e - int P + 1" "int P"]
    by (simp add: e_def powi_nonneg)
  then have "a / 10 powi (e - int P + 1) < of_int (10 ^ P)" by (simp add: field_simps)
  then have "round_even (a / 10 powi (e - int P + 1)) \<le> 10 ^ P" by (rule round_even_le)
  then have "n \<le> 10 ^ P" by (simp add: n_def nat_le_iff)
  then have "(if 10 ^ P \<le> n then n div 10 else n) < 10 ^ P" using assms(2) by (auto simp: div_less_dividend)
  then have ds: "length ds \<le> P" unfolding ds_def by (rule length_dec_nat) (rule assms(2))
  have ex: "length (dec_nat (nat \<bar>X\<bar>)) \<le> 3" using X by (intro length_dec_nat) auto
  have tk: "length (take k ds) + length (drop k ds) = length ds" for k by simp
  define body where "body = (if - 4 \<le> X \<and> X < int P then
                         (if 0 \<le> X then with_point (take (nat X + 1) ds) (drop (nat X + 1) ds)
                          else with_point ''0'' (replicate (nat (- X - 1)) (CHR ''0'') @ ds))
                       else with_point (take 1 ds) (drop 1 ds) @
                         CHR ''e'' # (if X < 0 then CHR ''-'' else CHR ''+'') #
                         (if \<bar>X\<bar> < 10 then CHR ''0'' # dec_nat (nat \<bar>X\<bar>) else dec_nat (nat \<bar>X\<bar>)))"
  have "length body \<le> P + 7"
  proof (cases "- 4 \<le> X \<and> X < int P")
    case True
    then show ?thesis
      using ds tk [of "nat X + 1"] length_with_point [of "take (nat X + 1) ds" "drop (nat X + 1) ds"]
        length_with_point [of "''0''" "replicate (nat (- X - 1)) (CHR ''0'') @ ds"]
      by (auto simp: body_def)
  next
    case False
    moreover have "length (if \<bar>X\<bar> < 10 then CHR ''0'' # dec_nat (nat \<bar>X\<bar>) else dec_nat (nat \<bar>X\<bar>)) \<le> 4"
      using ex by simp
    moreover have "length (dec_nat (nat \<bar>X\<bar>)) \<le> 1" if "\<bar>X\<bar> < 10" using that by (intro length_dec_nat) auto
    ultimately show ?thesis
      using ds ex tk [of 1] length_with_point [of "take 1 ds" "drop 1 ds"] by (auto simp: body_def)
  qed
  then show ?thesis
    using False unfolding fmt_g_def Let_def a_def [symmetric] e_def [symmetric] n_def [symmetric]
      X_def [symmetric] ds_def [symmetric] body_def [symmetric] by simp
qed (simp add: fmt_g_def)

lemma no_NUL_strip [simp]: "NUL \<notin> set ds \<Longrightarrow> NUL \<notin> set (strip_zeros ds)"
  by (auto simp: strip_zeros_def dest: set_dropWhileD)

lemma no_NUL_with_point [simp]: "NUL \<notin> set ip \<Longrightarrow> NUL \<notin> set fp \<Longrightarrow> NUL \<notin> set (with_point ip fp)"
  by (auto simp: with_point_def dest: set_dropWhileD)

lemma no_NUL_take_drop [simp]: "NUL \<notin> set ds \<Longrightarrow> NUL \<notin> set (take k ds)" "NUL \<notin> set ds \<Longrightarrow> NUL \<notin> set (drop k ds)"
  by (auto dest: in_set_takeD in_set_dropD)

lemma no_NUL_fmt_g: "NUL \<notin> set (fmt_g P q)"
  by (simp add: fmt_g_def Let_def)

lemma no_NUL_dec_int [simp]: "NUL \<notin> set (dec_int i)"
  by (simp add: dec_int_def)

text \<open>\<open>c_item v\<close>: \<open>v\<close> is a tree the C structure can hold: C strings, \<open>int\<close>s and doubles.\<close>

definition c_string :: "string option \<Rightarrow> bool" where
  "c_string s \<longleftrightarrow> (case s of None \<Rightarrow> True | Some t \<Rightarrow> NUL \<notin> set t)"

fun c_item :: "cJSON \<Rightarrow> bool" where
  "c_item (CJSON ty vs vi vd k ch) \<longleftrightarrow>
     c_string vs \<and> INT_MIN \<le> vi \<and> vi \<le> INT_MAX \<and> is_double vd \<and> c_string k \<and> (\<forall>c \<in> set ch. c_item c)"

lemma length_dec_int_32: "INT_MIN \<le> i \<Longrightarrow> i \<le> INT_MAX \<Longrightarrow> length (dec_int i) \<le> 11"
proof -
  assume "INT_MIN \<le> i" "i \<le> INT_MAX"
  then have "nat \<bar>i\<bar> < 10 ^ 10" by (simp add: INT_MIN_def INT_MAX_def nat_less_iff)
  then have "length (dec_nat (nat \<bar>i\<bar>)) \<le> 10" by (rule length_dec_nat) simp
  then show ?thesis by (auto simp: dec_int_def)
qed

lemma number_text_fits: "c_item v \<Longrightarrow> length (number_text v) < NUMBER_BUFFER"
proof -
  assume c: "c_item v"
  have i: "length (dec_int (valueint v)) \<le> 11" using c by (cases v) (auto intro: length_dec_int_32)
  have g: "length (fmt_g 15 q) \<le> 23 \<and> length (fmt_g 17 q) \<le> 25" if "valuedouble v = DNum q" for q
    using c that length_fmt_g [of q 15] length_fmt_g [of q 17] by (cases v) auto
  show ?thesis
  proof (cases "valuedouble v")
    case (DNum q)
    with i g [of q] show ?thesis
      by (auto simp: number_text_def NUMBER_BUFFER_def Let_def split: prod.split)
  qed (auto simp: number_text_def NUMBER_BUFFER_def)
qed

lemma no_NUL_number_text: "NUL \<notin> set (number_text v)"
  by (auto simp: number_text_def Let_def no_NUL_fmt_g split: double.split prod.split)

lemma hex_char_no_NUL: "n < 16 \<Longrightarrow> NUL \<noteq> hex_char n"
  by (auto simp: hex_char_def dest!: arg_cong [where f = "of_char :: char \<Rightarrow> nat"])

lemma no_NUL_escape: "NUL \<notin> set (escape_string s)"
proof -
  have "NUL \<notin> set (escape_char c)" for c
  proof (cases "31 < ord c")
    case False
    then have "ord c div 16 < 16" "ord c mod 16 < 16" by (auto simp: div_less_iff_less_mult)
    then show ?thesis using hex_char_no_NUL by (auto simp: escape_char_def u04x_def)
  qed (auto simp: escape_char_def)
  then show ?thesis by (simp add: escape_string_def)
qed

subsection \<open>The printer implements \<open>render\<close>\<close>

lemma no_NUL_quoted: "NUL \<notin> set (quoted s)"
  by (auto simp: quoted_def no_NUL_escape split: option.splits)

lemma no_NUL_sep [simp]: "NUL \<notin> set s \<Longrightarrow> NUL \<notin> set (sep b s)" "NUL \<notin> set (tabs n)"
  by (auto simp: sep_def tabs_def)

lemma render_no_NUL:
  "c_item v \<Longrightarrow> render fmt d v = Some t \<Longrightarrow> NUL \<notin> set t"
  "list_all c_item cs \<Longrightarrow> render_elements fmt d cs = Some t \<Longrightarrow> NUL \<notin> set t"
  "list_all c_item cs \<Longrightarrow> render_members fmt d cs = Some t \<Longrightarrow> NUL \<notin> set t"
proof (induction fmt d v and fmt d cs and fmt d cs arbitrary: t and t and t
    rule: render_render_elements_render_members.induct)
  case (1 fmt d ty vs vi vd k ch)
  then show ?case
    by (auto simp: Let_def no_NUL_number_text no_NUL_quoted c_string_def list_all_iff split: if_splits)
qed (auto simp: no_NUL_quoted split: option.splits)

definition lim_ok :: "string \<Rightarrow> string option \<Rightarrow> nat option \<Rightarrow> bool" where
  "lim_ok pre txt L \<longleftrightarrow> (case txt of None \<Rightarrow> L = None | Some t \<Rightarrow> upto_lim (length pre + length t + 2) L)"

lemma lim_ok_simps [simp]:
  "lim_ok pre None L = (L = None)" "lim_ok pre (Some t) L = upto_lim (length pre + length t + 2) L"
  by (simp_all add: lim_ok_def)

definition prints :: "printbuffer \<Rightarrow> string \<Rightarrow> string option \<Rightarrow> printbuffer \<Rightarrow> bool" where
  "prints p pre txt p' \<longleftrightarrow> (\<exists>t. txt = Some t \<and> shown p' pre t) \<and> pdepth p' = pdepth p"

definition adds :: "printbuffer \<Rightarrow> string \<Rightarrow> string option \<Rightarrow> printbuffer \<Rightarrow> bool" where
  "adds p pre txt p' \<longleftrightarrow> (\<exists>t. txt = Some t \<and> wrote p' (pre @ t)) \<and> pdepth p' = pdepth p"

lemma upto_lim_mono: "upto_lim m L \<Longrightarrow> n \<le> m \<Longrightarrow> upto_lim n L"
  by (auto simp: upto_lim_def split: option.splits)

lemma emit_prints:
  assumes "wrote p pre" "lim_ok pre (Some t) L" "s = t @ [NUL]" "n \<le> length t" "length t \<le> m" "m \<le> length t + 1"
  shows "outcome p L (emit m s n p) (prints p pre (Some t))"
proof -
  have "upto_lim (length pre + m + 1) L" using assms(2,6) by (auto intro: upto_lim_mono)
  then show ?thesis unfolding assms(3)
    by (rule outcome_weaken [OF emit_nul [OF assms(1,5) _ assms(4)]]) (auto simp: prints_def split: option.splits)
qed

lemma emit_adds:
  assumes "wrote p pre" "lim_ok pre (Some t) L" "s = t @ [NUL] \<or> s = t" "n = length t" "length t \<le> m" "m \<le> length t + 1"
  shows "outcome p L (emit m s n p) (adds p pre (Some t))"
proof -
  have "upto_lim (length pre + m + 1) L" using assms(2,6) by (auto intro: upto_lim_mono)
  note lim = this
  have "outcome p L (emit m t (length t) p) (adds p pre (Some t))"
    by (rule outcome_weaken [OF emit_text [OF assms(1,5) lim]]) (auto simp: adds_def)
  moreover have "outcome p L (emit m (t @ [NUL]) (length t) p) (adds p pre (Some t))"
    by (rule outcome_weaken [OF emit_text_nul [OF assms(1,5) lim]]) (auto simp: adds_def)
  ultimately show ?thesis using assms(3,4) by blast
qed

lemma print_number_outcome:
  assumes "wrote p pre" "c_item v" "lim_ok pre (Some (number_text v)) L"
  shows "outcome p L (print_number v p) (prints p pre (Some (number_text v)))"
proof -
  have m: "map (\<lambda>c. if c = get_decimal_point then CHR ''.'' else c) s = s" for s
    by (induction s) (auto simp: get_decimal_point_def)
  show ?thesis
    unfolding print_number_def Let_def m
    using number_text_fits [OF assms(2)] emit_prints [OF assms(1,3) refl, of _ "length (number_text v) + 1"]
    by (auto simp: NUMBER_BUFFER_def)
qed

lemma quoted_length: "length (quoted (Some s)) = length s + escape_characters s + 2"
  by (simp add: quoted_def length_escape_string)

lemma print_string_ptr_outcome:
  assumes "wrote p pre" "lim_ok pre (Some (quoted s)) L"
  shows "outcome p L (print_string_ptr s p) (prints p pre (Some (quoted s)))"
proof (cases s)
  case None
  then show ?thesis
    unfolding print_string_ptr_def using emit_prints [OF assms] by (simp add: quoted_def)
next
  case (Some t)
  let ?n = "length t + escape_characters t"
  let ?body = "if escape_characters t = 0 then t else escape_string t"
  have len: "length (quoted s) = ?n + 2" using quoted_length Some by simp
  have "take (?n + 1) (CHR 0x22 # ?body) @ [CHR 0x22, NUL] = quoted s @ [NUL]"
    by (simp add: quoted_def Some length_escape_string escape_string_id)
  then have "print_string_ptr s p = emit (?n + 3) (quoted s @ [NUL]) 0 p"
    by (simp only: print_string_ptr_def Some Let_def option.case)
  then show ?thesis using emit_prints [OF assms refl, of 0 "?n + 3"] len by simp
qed

lemma updated_adds:
  assumes "prints p0 pre txt p" "\<And>t. txt = Some t \<Longrightarrow> NUL \<notin> set t"
  shows "outcome p L (updated p) (adds p0 pre txt)"
proof -
  obtain t where t: "txt = Some t" "shown p pre t" "pdepth p = pdepth p0" using assms(1) by (auto simp: prints_def)
  show ?thesis
    by (rule outcome_weaken [OF updated_outcome [OF t(2) assms(2) [OF t(1)], of L]])
      (auto simp: adds_def t)
qed

lemma array_comma_adds:
  assumes "wrote p pre" "lim_ok pre (Some (sep nxt (CHR '','' # sep (pformat p) '' ''))) L"
  shows "outcome p L (array_comma nxt p) (adds p pre (Some (sep nxt (CHR '','' # sep (pformat p) '' ''))))"
proof (cases nxt)
  case True
  then show ?thesis unfolding array_comma_def Let_def
    using assms by (auto simp: sep_def intro!: emit_adds)
next
  case False
  with assms(1) show ?thesis by (simp add: array_comma_def sep_def adds_def)
qed

lemma object_comma_adds:
  assumes "wrote p pre" "lim_ok pre (Some (sep nxt '','' @ sep (pformat p) [CHR 0x0A])) L"
  shows "outcome p L (object_comma nxt p) (adds p pre (Some (sep nxt '','' @ sep (pformat p) [CHR 0x0A])))"
  unfolding object_comma_def Let_def by (rule emit_adds [OF assms]) (auto simp: sep_def)

lemma object_colon_adds:
  assumes "wrote p pre" "lim_ok pre (Some (CHR '':'' # sep (pformat p) [CHR 0x09])) L"
  shows "outcome p L (object_colon p) (adds p pre (Some (CHR '':'' # sep (pformat p) [CHR 0x09])))"
  unfolding object_colon_def Let_def by (rule emit_adds [OF assms]) (auto simp: sep_def)

lemma object_indent_adds:
  assumes "wrote p pre" "lim_ok pre (Some (sep (pformat p) (tabs (pdepth p)))) L"
  shows "outcome p L (object_indent p) (adds p pre (Some (sep (pformat p) (tabs (pdepth p)))))"
proof (cases "pformat p")
  case True
  with assms have l: "lim_ok pre (Some (tabs (pdepth p))) L" by (simp add: sep_def)
  have "outcome p L (emit (pdepth p) (tabs (pdepth p)) (pdepth p) p) (adds p pre (Some (tabs (pdepth p))))"
    by (rule emit_adds [OF assms(1) l]) (auto simp: tabs_def)
  with True show ?thesis by (simp add: object_indent_def sep_def)
next
  case False
  with assms(1) show ?thesis by (simp add: object_indent_def sep_def adds_def)
qed

text \<open>Sequencing two additions, and a value whose offset is then updated.\<close>

lemma adds_wrote: "adds p pre (Some t) p' \<Longrightarrow> wrote p' (pre @ t)"
  by (simp add: adds_def)

lemma outcome_adds:
  assumes "outcome p L (f p) (adds p pre t1)" "t1 = None \<Longrightarrow> txt = None"
    "\<And>s p'. t1 = Some s \<Longrightarrow> kept p p' \<Longrightarrow> wrote p' (pre @ s) \<Longrightarrow> pdepth p' = pdepth p \<Longrightarrow>
       outcome p' L (g p') (adds p' (pre @ s) (r s)) \<and> txt = map_option (\<lambda>u. s @ u) (r s)"
  shows "outcome p L (andthen f g p) (adds p pre txt)"
proof (rule outcome_andthen [where f = f and Q = "adds p pre t1", OF assms(1)])
  fix p'
  assume k: "kept p p'" and a: "adds p pre t1 p'"
  then obtain s where s: "t1 = Some s" "wrote p' (pre @ s)" "pdepth p' = pdepth p" by (auto simp: adds_def)
  note st = assms(3) [OF s(1) k s(2,3)]
  show "outcome p' L (g p') (adds p pre txt)"
    by (rule outcome_weaken [OF conjunct1 [OF st]])
      (use conjunct2 [OF st] s(3) in \<open>auto simp: adds_def split: option.split\<close>)
qed

lemma outcome_shown_adds:
  assumes "outcome p L (f p) (prints p pre txt)" "\<And>t. txt = Some t \<Longrightarrow> NUL \<notin> set t"
  shows "outcome p L (andthen f updated p) (adds p pre txt)"
proof (rule outcome_andthen [where f = f and Q = "prints p pre txt", OF assms(1)])
  fix p'
  assume "prints p pre txt p'"
  then show "outcome p' L (updated p') (adds p pre txt)"
    by (rule outcome_weaken [OF updated_adds]) (use assms(2) in \<open>auto split: option.split\<close>)
qed

lemma andthen_assoc: "andthen f (andthen g h) = andthen (andthen f g) h"
  by (rule ext) (auto simp: andthen_def split: option.split prod.split bool.split)

lemma andthen_depth: "outcome p L (f p) (\<lambda>p'. Q (p'\<lparr>pdepth := g (pdepth p')\<rparr>)) \<Longrightarrow> outcome p L (andthen f (set_depth g) p) Q"
  by (rule outcome_andthen [where f = f], assumption) (simp add: outcome_depth)

lemma lim_ok_append1: "lim_ok pre (map_option (\<lambda>u. s @ u) r) L \<Longrightarrow> lim_ok (pre @ s) r L"
  by (cases r) (auto elim: upto_lim_mono)

lemma lim_ok_first: "lim_ok pre (case t of None \<Rightarrow> None | Some s \<Rightarrow> map_option (\<lambda>u. s @ u) (r s)) L \<Longrightarrow> lim_ok pre t L"
  by (auto simp: lim_ok_def split: option.splits elim: upto_lim_mono)

lemma lim_ok_prefix: "lim_ok pre (map_option (\<lambda>u. s @ u) r) L \<Longrightarrow> lim_ok pre (Some s) L"
  by (auto simp: lim_ok_def split: option.splits elim: upto_lim_mono)

text \<open>Two additions in a row, with the text of both known in advance.\<close>

lemma outcome_then_adds:
  assumes "wrote p pre" "lim_ok pre (map_option (\<lambda>u. s @ u) r) L"
    "\<And>L. lim_ok pre (Some s) L \<Longrightarrow> outcome p L (f p) (adds p pre (Some s))"
    "\<And>p'. kept p p' \<Longrightarrow> wrote p' (pre @ s) \<Longrightarrow> pdepth p' = pdepth p \<Longrightarrow> lim_ok (pre @ s) r L \<Longrightarrow>
       outcome p' L (g p') (adds p' (pre @ s) r)"
  shows "outcome p L (andthen f g p) (adds p pre (map_option (\<lambda>u. s @ u) r))"
  by (rule outcome_adds [where f = f, OF assms(3) [OF lim_ok_prefix [OF assms(2)]]])
    (use assms(4) [OF _ _ _ lim_ok_append1 [OF assms(2)]] in auto)

lemma print_elements_step:
  assumes "wrote p pre" "lim_ok pre (render_elements (pformat p) (pdepth p) (c # cs)) L"
    and c: "outcome p L (print_value c p) (prints p pre (render (pformat p) (pdepth p) c))" "c_item c"
    and cs: "\<And>q pre. render (pformat p) (pdepth p) c \<noteq> None \<Longrightarrow> wrote q pre \<Longrightarrow> pformat q = pformat p \<Longrightarrow> pdepth q = pdepth p \<Longrightarrow>
       lim_ok pre (render_elements (pformat p) (pdepth p) cs) L \<Longrightarrow>
       outcome q L (print_elements cs q) (adds q pre (render_elements (pformat p) (pdepth p) cs))"
  shows "outcome p L (print_elements (c # cs) p) (adds p pre (render_elements (pformat p) (pdepth p) (c # cs)))"
proof -
  let ?sep = "sep (cs \<noteq> []) (CHR '','' # sep (pformat p) '' '')"
  let ?r = "\<lambda>s. map_option (\<lambda>u. ?sep @ u) (render_elements (pformat p) (pdepth p) cs)"
  have e: "render_elements (pformat p) (pdepth p) (c # cs)
      = (case render (pformat p) (pdepth p) c of None \<Rightarrow> None | Some s \<Rightarrow> map_option (\<lambda>u. s @ u) (?r s))"
    by (auto split: option.split simp: option.map_comp comp_def)
  show ?thesis
    unfolding print_elements.simps andthen_assoc [of "print_value c"] unfolding e
  proof (rule outcome_adds)
    show "outcome p L (andthen (print_value c) updated p) (adds p pre (render (pformat p) (pdepth p) c))"
      using render_no_NUL(1) [OF c(2)] by (rule outcome_shown_adds [where f = "print_value c", OF c(1)])
    fix s q
    assume s: "render (pformat p) (pdepth p) c = Some s" and k: "kept p q" and w: "wrote q (pre @ s)"
      and d: "pdepth q = pdepth p"
    have f: "pformat q = pformat p" using k by (simp add: kept_def)
    have l: "lim_ok (pre @ s) (?r s) L" using assms(2) unfolding e s by (simp add: lim_ok_append1 del: lim_ok_simps)
    have "outcome q L (andthen (array_comma (cs \<noteq> [])) (print_elements cs) q) (adds q (pre @ s) (?r s))"
      by (rule outcome_then_adds [OF w l])
        (use array_comma_adds [OF w, of "cs \<noteq> []"] cs f d s in \<open>auto simp: kept_def\<close>)
    then show "outcome q L (andthen (array_comma (cs \<noteq> [])) (print_elements cs) q) (adds q (pre @ s) (?r s))
        \<and> (case render (pformat p) (pdepth p) c of None \<Rightarrow> None | Some s \<Rightarrow> map_option (\<lambda>u. s @ u) (?r s))
          = map_option (\<lambda>u. s @ u) (?r s)"
      by (simp add: s)
  qed simp
qed

text \<open>The part of a member from its value on, then the whole member.\<close>

definition member_rest :: "bool \<Rightarrow> nat \<Rightarrow> cJSON \<Rightarrow> cJSON list \<Rightarrow> string option" where
  "member_rest fmt d c cs =
     (case render fmt d c of None \<Rightarrow> None
      | Some s \<Rightarrow> map_option (\<lambda>u. s @ u) (map_option (\<lambda>u. (sep (cs \<noteq> []) '','' @ sep fmt [CHR 0x0A]) @ u)
          (render_members fmt d cs)))"

lemma render_members_Cons:
  "render_members fmt d (c # cs) =
     map_option (\<lambda>u. sep fmt (tabs d) @ u) (map_option (\<lambda>u. quoted (istring c) @ u)
       (map_option (\<lambda>u. (CHR '':'' # sep fmt [CHR 0x09]) @ u) (member_rest fmt d c cs)))"
  by (auto simp: member_rest_def option.map_comp comp_def split: option.split)

lemma member_rest_outcome:
  assumes "wrote p pre" "lim_ok pre (member_rest (pformat p) (pdepth p) c cs) L"
    and c: "outcome p L (print_value c p) (prints p pre (render (pformat p) (pdepth p) c))" "c_item c"
    and cs: "\<And>q pre. render (pformat p) (pdepth p) c \<noteq> None \<Longrightarrow> wrote q pre \<Longrightarrow> pformat q = pformat p \<Longrightarrow> pdepth q = pdepth p \<Longrightarrow>
       lim_ok pre (render_members (pformat p) (pdepth p) cs) L \<Longrightarrow>
       outcome q L (print_members cs q) (adds q pre (render_members (pformat p) (pdepth p) cs))"
  shows "outcome p L (andthen (print_value c) (andthen updated (andthen (object_comma (cs \<noteq> [])) (print_members cs))) p)
           (adds p pre (member_rest (pformat p) (pdepth p) c cs))"
proof -
  let ?sep = "sep (cs \<noteq> []) '','' @ sep (pformat p) [CHR 0x0A]"
  let ?r = "map_option (\<lambda>u. ?sep @ u) (render_members (pformat p) (pdepth p) cs)"
  show ?thesis
    unfolding andthen_assoc [of "print_value c"]
  proof (rule outcome_adds)
    show "outcome p L (andthen (print_value c) updated p) (adds p pre (render (pformat p) (pdepth p) c))"
      using render_no_NUL(1) [OF c(2)] by (rule outcome_shown_adds [where f = "print_value c", OF c(1)])
    fix s q
    assume s: "render (pformat p) (pdepth p) c = Some s" and k: "kept p q" and w: "wrote q (pre @ s)"
      and d: "pdepth q = pdepth p"
    have f: "pformat q = pformat p" using k by (simp add: kept_def)
    have l: "lim_ok (pre @ s) ?r L" using assms(2) unfolding member_rest_def s option.case by (rule lim_ok_append1)
    have "outcome q L (andthen (object_comma (cs \<noteq> [])) (print_members cs) q) (adds q (pre @ s) ?r)"
      by (rule outcome_then_adds [OF w l])
        (use object_comma_adds [OF w, of "cs \<noteq> []"] cs f d s in \<open>auto simp: kept_def\<close>)
    then show "outcome q L (andthen (object_comma (cs \<noteq> [])) (print_members cs) q) (adds q (pre @ s) ?r)
        \<and> member_rest (pformat p) (pdepth p) c cs = map_option (\<lambda>u. s @ u) ?r"
      by (simp add: s member_rest_def del: append_assoc)
  qed (simp add: member_rest_def)
qed

lemma print_members_step:
  assumes "wrote p pre" "lim_ok pre (render_members (pformat p) (pdepth p) (c # cs)) L" "c_item c"
    and c: "\<And>q pre. wrote q pre \<Longrightarrow> pformat q = pformat p \<Longrightarrow> pdepth q = pdepth p \<Longrightarrow>
       lim_ok pre (render (pformat p) (pdepth p) c) L \<Longrightarrow>
       outcome q L (print_value c q) (prints q pre (render (pformat p) (pdepth p) c))"
    and cs: "\<And>q pre. render (pformat p) (pdepth p) c \<noteq> None \<Longrightarrow> wrote q pre \<Longrightarrow> pformat q = pformat p \<Longrightarrow> pdepth q = pdepth p \<Longrightarrow>
       lim_ok pre (render_members (pformat p) (pdepth p) cs) L \<Longrightarrow>
       outcome q L (print_members cs q) (adds q pre (render_members (pformat p) (pdepth p) cs))"
  shows "outcome p L (print_members (c # cs) p) (adds p pre (render_members (pformat p) (pdepth p) (c # cs)))"
  unfolding print_members.simps render_members_Cons
proof (rule outcome_then_adds [where f = object_indent, OF assms(1) assms(2) [unfolded render_members_Cons]
      object_indent_adds [OF assms(1)]])
  fix q
  let ?pre = "pre @ sep (pformat p) (tabs (pdepth p))"
  let ?m = "member_rest (pformat p) (pdepth p) c cs"
  assume q: "kept p q" "wrote q ?pre" "pdepth q = pdepth p"
    and l: "lim_ok ?pre (map_option (\<lambda>u. quoted (istring c) @ u)
      (map_option (\<lambda>u. (CHR '':'' # sep (pformat p) [CHR 0x09]) @ u) ?m)) L"
  have str: "outcome q L (andthen (print_string_ptr (istring c)) updated q) (adds q ?pre (Some (quoted (istring c))))"
    if "lim_ok ?pre (Some (quoted (istring c))) L" for L
    by (rule outcome_shown_adds [where f = "print_string_ptr (istring c)", OF print_string_ptr_outcome [OF q(2) that]])
      (simp add: no_NUL_quoted)
  have "outcome q L (andthen (andthen (print_string_ptr (istring c)) updated)
      (andthen object_colon (andthen (print_value c) (andthen updated (andthen (object_comma (cs \<noteq> [])) (print_members cs))))) q)
      (adds q ?pre (map_option (\<lambda>u. quoted (istring c) @ u) (map_option (\<lambda>u. (CHR '':'' # sep (pformat p) [CHR 0x09]) @ u) ?m)))"
  proof (rule outcome_then_adds [where f = "andthen (print_string_ptr (istring c)) updated", OF q(2) l str])
    fix x
    let ?pre' = "?pre @ quoted (istring c)"
    assume x: "kept q x" "wrote x ?pre'" "pdepth x = pdepth q"
      and lx: "lim_ok ?pre' (map_option (\<lambda>u. (CHR '':'' # sep (pformat p) [CHR 0x09]) @ u) ?m) L"
    have fx: "pformat x = pformat p" "pdepth x = pdepth p" using x q by (simp_all add: kept_def)
    show "outcome x L (andthen object_colon (andthen (print_value c) (andthen updated
          (andthen (object_comma (cs \<noteq> [])) (print_members cs)))) x)
        (adds x ?pre' (map_option (\<lambda>u. (CHR '':'' # sep (pformat p) [CHR 0x09]) @ u) ?m))"
    proof (rule outcome_then_adds [where f = object_colon, OF x(2) lx])
      show "outcome x L (object_colon x) (adds x ?pre' (Some (CHR '':'' # sep (pformat p) [CHR 0x09])))"
        if "lim_ok ?pre' (Some (CHR '':'' # sep (pformat p) [CHR 0x09])) L" for L
        using object_colon_adds [OF x(2)] that fx by simp
      fix y
      let ?pre'' = "?pre' @ CHR '':'' # sep (pformat p) [CHR 0x09]"
      assume y: "kept x y" "wrote y ?pre''" "pdepth y = pdepth x" and ly: "lim_ok ?pre'' ?m L"
      have fy: "pformat y = pformat p" "pdepth y = pdepth p" using y fx by (simp_all add: kept_def)
      have lc: "lim_ok ?pre'' (render (pformat p) (pdepth p) c) L"
        using ly unfolding member_rest_def by (rule lim_ok_first)
      have "outcome y L (andthen (print_value c) (andthen updated (andthen (object_comma (cs \<noteq> [])) (print_members cs))) y)
           (adds y ?pre'' (member_rest (pformat y) (pdepth y) c cs))"
      proof (rule member_rest_outcome [OF y(2)])
        show "lim_ok ?pre'' (member_rest (pformat y) (pdepth y) c cs) L" using ly by (simp only: fy)
        show "outcome y L (print_value c y) (prints y ?pre'' (render (pformat y) (pdepth y) c))"
          using c [OF y(2) fy lc] by (simp only: fy)
        show "outcome z L (print_members cs z) (adds z pr (render_members (pformat y) (pdepth y) cs))"
          if "render (pformat y) (pdepth y) c \<noteq> None" "wrote z pr" "pformat z = pformat y" "pdepth z = pdepth y"
            "lim_ok pr (render_members (pformat y) (pdepth y) cs) L" for z pr
          using cs [of z pr] that unfolding fy by blast
      qed (rule assms(3))
      then show "outcome y L (andthen (print_value c) (andthen updated (andthen (object_comma (cs \<noteq> [])) (print_members cs))) y)
           (adds y ?pre'' ?m)" by (simp only: fy)
    qed
  qed
  then show "outcome q L (andthen (print_string_ptr (istring c)) (andthen updated
      (andthen object_colon (andthen (print_value c) (andthen updated (andthen (object_comma (cs \<noteq> [])) (print_members cs)))))) q)
      (adds q ?pre (map_option (\<lambda>u. quoted (istring c) @ u) (map_option (\<lambda>u. (CHR '':'' # sep (pformat p) [CHR 0x09]) @ u) ?m)))"
    by (simp only: andthen_assoc)
qed

text \<open>Brackets: an opening text that goes one level deeper, a body, and a closing text.\<close>

definition opens :: "printbuffer \<Rightarrow> string \<Rightarrow> printbuffer \<Rightarrow> bool" where
  "opens p s p' \<longleftrightarrow> wrote p' s \<and> pdepth p' = Suc (pdepth p)"

lemma outcome_bracket:
  assumes op: "outcome p L (f p) (opens p (pre @ a))"
    and body: "\<And>q. kept p q \<Longrightarrow> opens p (pre @ a) q \<Longrightarrow> outcome q L (g q) (adds q (pre @ a) r)"
    and cl: "\<And>q s. r = Some s \<Longrightarrow> kept p q \<Longrightarrow> opens p (pre @ a @ s) q \<Longrightarrow>
       outcome q L (h q) (\<lambda>q'. shown q' (pre @ a @ s) z \<and> pdepth q' = pdepth q)"
  shows "outcome p L (andthen f (andthen g (andthen h (set_depth (\<lambda>d. d - 1)))) p)
           (prints p pre (map_option (\<lambda>s. a @ s @ z) r))"
proof (rule outcome_andthen [where f = f, OF op])
  fix q
  assume k: "kept p q" and o: "opens p (pre @ a) q"
  show "outcome q L (andthen g (andthen h (set_depth (\<lambda>d. d - 1))) q) (prints p pre (map_option (\<lambda>s. a @ s @ z) r))"
  proof (rule outcome_andthen [where f = g, OF body [OF k o]])
    fix x
    assume kx: "kept q x" and ad: "adds q (pre @ a) r x"
    then obtain s where s: "r = Some s" "wrote x (pre @ a @ s)" "pdepth x = pdepth q" by (auto simp: adds_def)
    have ox: "opens p (pre @ a @ s) x" using s o by (simp add: opens_def)
    have kp: "kept p x" using k kx by (auto simp: kept_def)
    show "outcome x L (andthen h (set_depth (\<lambda>d. d - 1)) x) (prints p pre (map_option (\<lambda>s. a @ s @ z) r))"
      by (rule andthen_depth, rule outcome_weaken [OF cl [OF s(1) kp ox]])
        (use ox s in \<open>auto simp: prints_def opens_def shown_def split: option.split\<close>)
  qed
qed

lemma array_open_outcome:
  assumes "wrote p pre" "lim_ok pre (Some ''['') L"
  shows "outcome p L (array_open p) (opens p (pre @ ''[''))"
  unfolding array_open_def
  by (rule andthen_depth, rule outcome_weaken [OF emit_adds [OF assms, where s = "''[''" and n = 1 and m = 1]])
    (auto simp: adds_def opens_def split: option.split)

lemma object_open_outcome:
  assumes "wrote p pre" "lim_ok pre (Some (CHR ''{'' # sep (pformat p) [CHR 0x0A])) L"
  shows "outcome p L (object_open p) (opens p (pre @ CHR ''{'' # sep (pformat p) [CHR 0x0A]))"
  unfolding object_open_def Let_def
  by (rule andthen_depth, rule outcome_weaken [OF emit_adds [OF assms]])
    (auto simp: adds_def opens_def sep_def split: option.split)

lemma close_outcome:
  assumes "wrote p pre" "lim_ok pre (Some t) L" "length t \<le> m" "m \<le> length t + 1"
  shows "outcome p L (emit m (t @ [NUL]) 0 p) (\<lambda>p'. shown p' pre t \<and> pdepth p' = pdepth p)"
  by (rule outcome_weaken [OF emit_prints [OF assms(1,2) refl _ assms(3,4)]])
    (auto simp: prints_def split: option.split)

lemma print_array_outcome:
  assumes "wrote p pre" "lim_ok pre (map_option (\<lambda>s. ''['' @ s @ '']'') r) L"
    and "\<And>q. kept p q \<Longrightarrow> opens p (pre @ ''['') q \<Longrightarrow> lim_ok (pre @ ''['') r L \<Longrightarrow> outcome q L (g q) (adds q (pre @ ''['') r)"
  shows "outcome p L (andthen array_open (andthen g array_close) p) (prints p pre (map_option (\<lambda>s. ''['' @ s @ '']'') r))"
  unfolding array_close_def
proof (rule outcome_bracket [where f = array_open])
  show "outcome p L (array_open p) (opens p (pre @ ''[''))"
    by (rule array_open_outcome [OF assms(1)]) (use assms(2) in \<open>cases r, auto elim: upto_lim_mono\<close>)
  show "outcome q L (g q) (adds q (pre @ ''['') r)" if "kept p q" "opens p (pre @ ''['') q" for q
    by (rule assms(3) [OF that]) (use assms(2) in \<open>cases r, auto elim: upto_lim_mono\<close>)
  fix q s
  assume s: "r = Some s" "opens p (pre @ ''['' @ s) q"
  have "lim_ok (pre @ ''['' @ s) (Some '']'') L" using assms(2) s(1) by (auto elim: upto_lim_mono)
  from close_outcome [OF _ this, of q 2] s(2)
  show "outcome q L (emit 2 (CHR '']'' # [NUL]) 0 q) (\<lambda>q'. shown q' (pre @ ''['' @ s) '']'' \<and> pdepth q' = pdepth q)"
    by (simp add: opens_def)
qed

lemma print_object_outcome:
  fixes p :: printbuffer
  defines "a \<equiv> CHR ''{'' # sep (pformat p) [CHR 0x0A]" and "z \<equiv> sep (pformat p) (tabs (pdepth p)) @ ''}''"
  assumes "wrote p pre" "lim_ok pre (map_option (\<lambda>s. a @ s @ z) r) L"
    and "\<And>q. kept p q \<Longrightarrow> opens p (pre @ a) q \<Longrightarrow> lim_ok (pre @ a) r L \<Longrightarrow> outcome q L (g q) (adds q (pre @ a) r)"
  shows "outcome p L (andthen object_open (andthen g object_close) p) (prints p pre (map_option (\<lambda>s. a @ s @ z) r))"
proof -
  let ?h = "\<lambda>p. emit (if pformat p then pdepth p + 1 else 2) ((if pformat p then tabs (pdepth p - 1) else []) @ CHR ''}'' # [NUL]) 0 p"
  have c: "object_close = andthen ?h (set_depth (\<lambda>d. d - 1))"
    by (rule ext) (simp add: object_close_def andthen_def)
  show ?thesis unfolding c
  proof (rule outcome_bracket [where f = object_open])
    show "outcome p L (object_open p) (opens p (pre @ a))" unfolding a_def
      by (rule object_open_outcome [OF assms(3)]) (use assms(4) in \<open>cases r, auto simp: a_def elim: upto_lim_mono\<close>)
    show "outcome q L (g q) (adds q (pre @ a) r)" if "kept p q" "opens p (pre @ a) q" for q
      by (rule assms(5) [OF that]) (use assms(4) in \<open>cases r, auto elim: upto_lim_mono\<close>)
    fix q s
    assume s: "r = Some s" "kept p q" "opens p (pre @ a @ s) q"
    have d: "pformat q = pformat p" "pdepth q = Suc (pdepth p)" "wrote q (pre @ a @ s)"
      using s by (simp_all add: kept_def opens_def)
    have l: "lim_ok (pre @ a @ s) (Some z) L" using assms(4) s(1) by (auto elim: upto_lim_mono)
    have "?h q = emit (if pformat p then pdepth p + 2 else 2) (z @ [NUL]) 0 q"
      using d by (auto simp: z_def sep_def)
    moreover have "outcome q L (emit (if pformat p then pdepth p + 2 else 2) (z @ [NUL]) 0 q)
        (\<lambda>q'. shown q' (pre @ a @ s) z \<and> pdepth q' = pdepth q)"
      by (rule close_outcome [OF d(3) l]) (auto simp: z_def sep_def tabs_def)
    ultimately show "outcome q L (?h q) (\<lambda>q'. shown q' (pre @ a @ s) z \<and> pdepth q' = pdepth q)" by simp
  qed
qed

lemma print_outcome:
  "wrote p pre \<Longrightarrow> pformat p = fmt \<Longrightarrow> pdepth p = d \<Longrightarrow> c_item v \<Longrightarrow> lim_ok pre (render fmt d v) L \<Longrightarrow>
     outcome p L (print_value v p) (prints p pre (render fmt d v))"
  "wrote p pre \<Longrightarrow> pformat p = fmt \<Longrightarrow> pdepth p = d \<Longrightarrow> list_all c_item cs \<Longrightarrow>
     lim_ok pre (render_elements fmt d cs) L \<Longrightarrow>
     outcome p L (print_elements cs p) (adds p pre (render_elements fmt d cs))"
  "wrote p pre \<Longrightarrow> pformat p = fmt \<Longrightarrow> pdepth p = d \<Longrightarrow> list_all c_item cs \<Longrightarrow>
     lim_ok pre (render_members fmt d cs) L \<Longrightarrow>
     outcome p L (print_members cs p) (adds p pre (render_members fmt d cs))"
proof (induction fmt d v and fmt d cs and fmt d cs arbitrary: p pre L and p pre L and p pre L
    rule: render_render_elements_render_members.induct)
  case (1 fmt d ty vs vi vd k ch)
  let ?v = "CJSON ty vs vi vd k ch" and ?t = "ty AND 0xFF"
  have no: "pbuf p \<noteq> None" using "1.prems"(1) by (auto simp: wrote_def sized_def)
  have never: "outcome p L (Some (False, p)) Q" if "L = None" for Q using that no by (simp add: dropped_def)
  have ch: "list_all c_item ch" "c_string vs" using "1.prems"(4) by (auto simp: list_all_iff)
  show ?case
  proof (cases "?t = cJSON_Array")
    case True
    then have nt: "?t \<noteq> cJSON_NULL" "?t \<noteq> cJSON_False" "?t \<noteq> cJSON_True" "?t \<noteq> cJSON_Number" "?t \<noteq> cJSON_Raw"
      "?t \<noteq> cJSON_String" by (simp_all add: type_defs)
    show ?thesis
    proof (cases "CJSON_NESTING_LIMIT \<le> d")
      case False
      have r: "render fmt d ?v = map_option (\<lambda>s. ''['' @ s @ '']'') (render_elements fmt (Suc d) ch)"
        using False True nt by (simp add: Let_def)
      have e: "print_value ?v p = andthen array_open (andthen (print_elements ch) array_close) p"
        using False True nt "1.prems"(3) by (simp add: Let_def)
      show ?thesis unfolding r e
      proof (rule print_array_outcome [OF "1.prems"(1) "1.prems"(5) [unfolded r]])
        fix q
        assume q: "kept p q" "opens p (pre @ ''['') q" "lim_ok (pre @ ''['') (render_elements fmt (Suc d) ch) L"
        show "outcome q L (print_elements ch q) (adds q (pre @ ''['') (render_elements fmt (Suc d) ch))"
          by (rule "1.IH"(1) [OF refl nt True False _ _ _ ch(1) q(3)])
            (use q "1.prems"(2,3) in \<open>simp_all add: opens_def kept_def\<close>)
      qed
    qed (use True nt "1.prems"(3,5) never in \<open>simp add: Let_def\<close>)
  next
    case na: False
    show ?thesis
    proof (cases "?t = cJSON_Object")
      case True
      then have nt: "?t \<noteq> cJSON_NULL" "?t \<noteq> cJSON_False" "?t \<noteq> cJSON_True" "?t \<noteq> cJSON_Number" "?t \<noteq> cJSON_Raw"
        "?t \<noteq> cJSON_String" by (simp_all add: type_defs)
      let ?a = "CHR ''{'' # sep (pformat p) [CHR 0x0A]" and ?z = "sep (pformat p) (tabs (pdepth p)) @ ''}''"
      show ?thesis
      proof (cases "CJSON_NESTING_LIMIT \<le> d")
        case False
        have r: "render fmt d ?v = map_option (\<lambda>s. ?a @ s @ ?z) (render_members fmt (Suc d) ch)"
          using False True na nt "1.prems"(2,3) by (simp add: Let_def)
        have e: "print_value ?v p = andthen object_open (andthen (print_members ch) object_close) p"
          using False True na nt "1.prems"(3) by (simp add: Let_def)
        show ?thesis unfolding r e
        proof (rule print_object_outcome [OF "1.prems"(1) "1.prems"(5) [unfolded r]])
          fix q
          assume q: "kept p q" "opens p (pre @ ?a) q" "lim_ok (pre @ ?a) (render_members fmt (Suc d) ch) L"
          show "outcome q L (print_members ch q) (adds q (pre @ ?a) (render_members fmt (Suc d) ch))"
            by (rule "1.IH"(2) [OF refl nt na True False _ _ _ ch(1) q(3)])
              (use q "1.prems"(2,3) in \<open>simp_all add: opens_def kept_def\<close>)
        qed
      qed (use True na nt "1.prems"(3,5) never in \<open>simp add: Let_def\<close>)
    next
      case no: False
      have lit: "outcome p L (emit m (t @ [NUL]) 0 p) (prints p pre (Some t))"
        if "lim_ok pre (Some t) L" "m = length t + 1" for t m
        by (rule emit_prints [OF "1.prems"(1) that(1)]) (use that(2) in auto)
      consider "?t = cJSON_NULL" | "?t = cJSON_False" | "?t = cJSON_True" | "?t = cJSON_Number" | "?t = cJSON_Raw"
        | "?t = cJSON_String" | "?t \<notin> {cJSON_NULL, cJSON_False, cJSON_True, cJSON_Number, cJSON_Raw, cJSON_String}"
        by blast
      then show ?thesis
      proof cases
        case 1
        then show ?thesis using lit [of "''null''" 5] "1.prems"(5) by (simp add: Let_def)
      next
        case 2
        then show ?thesis using lit [of "''false''" 6] "1.prems"(5) by (simp add: Let_def type_defs)
      next
        case 3
        then show ?thesis using lit [of "''true''" 5] "1.prems"(5) by (simp add: Let_def type_defs)
      next
        case 4
        then have "render fmt d ?v = Some (number_text ?v)" "print_value ?v p = print_number ?v p"
          by (simp_all add: Let_def type_defs)
        then show ?thesis using print_number_outcome [OF "1.prems"(1,4)] "1.prems"(5) by (simp only:)
      next
        case 5
        show ?thesis
        proof (cases vs)
          case None
          with 5 "1.prems"(5) never show ?thesis by (simp add: Let_def type_defs)
        next
          case (Some s)
          with 5 "1.prems"(5) lit [of s] show ?thesis by (simp add: Let_def type_defs)
        qed
      next
        case 6
        then have "render fmt d ?v = Some (quoted vs)" "print_value ?v p = print_string_ptr vs p"
          by (simp_all add: Let_def type_defs print_string_def)
        then show ?thesis using print_string_ptr_outcome [OF "1.prems"(1)] "1.prems"(5) by (simp only:)
      next
        case 7
        with "1.prems"(5) never na no show ?thesis by (simp add: Let_def)
      qed
    qed
  qed
next
  case (2 fmt d)
  then show ?case by (simp add: adds_def)
next
  case (3 fmt d c cs)
  have lc: "lim_ok pre (render fmt d c) L"
  proof (cases "render fmt d c")
    case (Some s)
    with "3.prems"(5) show ?thesis
      by (cases "render_elements fmt d cs") (auto elim: upto_lim_mono)
  qed (use "3.prems"(5) in simp)
  have c: "c_item c" "list_all c_item cs" using "3.prems"(4) by simp_all
  have cs: "outcome q L (print_elements cs q) (adds q pre (render_elements fmt d cs))"
    if "render fmt d c \<noteq> None" "wrote q pre" "pformat q = fmt" "pdepth q = d" "lim_ok pre (render_elements fmt d cs) L" for q pre
    using "3.IH"(2) that c(2) by blast
  show ?case
    by (rule print_elements_step [of p pre c cs L, unfolded "3.prems"(2,3), OF "3.prems"(1,5)
          "3.IH"(1) [OF "3.prems"(1-3) c(1) lc] c(1) cs])
next
  case (4 fmt d)
  then show ?case by (simp add: adds_def)
next
  case (5 fmt d c cs)
  have c: "c_item c" "list_all c_item cs" using "5.prems"(4) by simp_all
  have v: "outcome q L (print_value c q) (prints q pre (render fmt d c))"
    if "wrote q pre" "pformat q = fmt" "pdepth q = d" "lim_ok pre (render fmt d c) L" for q pre
    using "5.IH"(1) that c(1) by blast
  have cs: "outcome q L (print_members cs q) (adds q pre (render_members fmt d cs))"
    if "render fmt d c \<noteq> None" "wrote q pre" "pformat q = fmt" "pdepth q = d" "lim_ok pre (render_members fmt d cs) L" for q pre
    using "5.IH"(2) that c(2) by blast
  show ?case
    by (rule print_members_step [of p pre c cs L, unfolded "5.prems"(2,3), OF "5.prems"(1,5) c(1) v cs])
qed

subsection \<open>Entry points\<close>

text \<open>The C string that starts at the first cell.\<close>

definition read_cstring :: "char option list \<Rightarrow> string option" where
  "read_cstring b = (case strlen b of None \<Rightarrow> None | Some n \<Rightarrow> Some (map the (take n b)))"

definition DEFAULT_BUFFER_SIZE :: nat where "DEFAULT_BUFFER_SIZE = 256"

definition new_buffer :: "char option list \<Rightarrow> bool \<Rightarrow> bool \<Rightarrow> bool \<Rightarrow> mem \<Rightarrow> printbuffer" where
  "new_buffer b noal fmt hr m =
     \<lparr>pbuf = Some b, plen = length b, poff = 0, pdepth = 0, noalloc = noal, pformat = fmt, has_realloc = hr, pmem = m\<rparr>"

definition print_item :: "cJSON option \<Rightarrow> pstep" where
  "print_item item p = (case item of None \<Rightarrow> Some (False, p) | Some v \<Rightarrow> print_value v p)"

definition free_buffer :: "printbuffer \<Rightarrow> mem" where
  "free_buffer p = (if pbuf p = None then pmem p else deallocate (pmem p))"

text \<open>
  \<open>print\<close>: the final block has \<open>offset + 1\<close> bytes, by \<open>realloc\<close> or by a copy of
  \<open>cjson_min(length, offset + 1)\<close> bytes and a NUL. The result is the string in it.
\<close>

definition print :: "cJSON option \<Rightarrow> bool \<Rightarrow> bool \<Rightarrow> mem \<Rightarrow> (string option \<times> mem) option" where
  "print item fmt hr m =
     (case allocate m of
        None \<Rightarrow> Some (None, m)
      | Some m1 \<Rightarrow>
          (case print_item item (new_buffer (replicate DEFAULT_BUFFER_SIZE None) False fmt hr m1) of
             None \<Rightarrow> None
           | Some (False, p) \<Rightarrow> Some (None, free_buffer p)
           | Some (True, p) \<Rightarrow>
               (case update_offset p of
                  None \<Rightarrow> None
                | Some p \<Rightarrow>
                    (case pbuf p of
                       None \<Rightarrow> None
                     | Some b \<Rightarrow>
                         let n = poff p + 1
                         in if hr then
                              (case reallocate (pmem p) of
                                 None \<Rightarrow> Some (None, free_buffer p)
                               | Some m2 \<Rightarrow>
                                   map_option (\<lambda>s. (Some s, m2)) (read_cstring (take n (b @ replicate n None))))
                            else
                              (case allocate (pmem p) of
                                 None \<Rightarrow> Some (None, free_buffer p)
                               | Some m2 \<Rightarrow>
                                   map_option (\<lambda>s. (Some s, deallocate m2))
                                     (read_cstring ((take (min (plen p) n) b @ replicate n None)[poff p := Some NUL])))))))"

definition cJSON_Print :: "cJSON option \<Rightarrow> bool \<Rightarrow> mem \<Rightarrow> (string option \<times> mem) option" where
  "cJSON_Print item hr m = print item True hr m"

definition cJSON_PrintUnformatted :: "cJSON option \<Rightarrow> bool \<Rightarrow> mem \<Rightarrow> (string option \<times> mem) option" where
  "cJSON_PrintUnformatted item hr m = print item False hr m"

definition cJSON_PrintBuffered :: "cJSON option \<Rightarrow> int \<Rightarrow> bool \<Rightarrow> bool \<Rightarrow> mem \<Rightarrow> (string option \<times> mem) option" where
  "cJSON_PrintBuffered item prebuffer fmt hr m =
     (if prebuffer < 0 then Some (None, m)
      else case allocate m of
        None \<Rightarrow> Some (None, m)
      | Some m1 \<Rightarrow>
          (case print_item item (new_buffer (replicate (nat prebuffer) None) False fmt hr m1) of
             None \<Rightarrow> None
           | Some (False, p) \<Rightarrow> Some (None, free_buffer p)
           | Some (True, p) \<Rightarrow>
               (case pbuf p of None \<Rightarrow> None | Some b \<Rightarrow> map_option (\<lambda>s. (Some s, pmem p)) (read_cstring b))))"

text \<open>\<open>buf\<close> is the caller's memory of \<open>len\<close> bytes, \<open>None\<close> a NULL pointer; the result is the memory after.\<close>

definition cJSON_PrintPreallocated ::
  "cJSON option \<Rightarrow> char option list option \<Rightarrow> int \<Rightarrow> bool \<Rightarrow> bool \<Rightarrow> mem \<Rightarrow> (bool \<times> char option list option) option" where
  "cJSON_PrintPreallocated item buf len fmt hr m =
     (case buf of
        None \<Rightarrow> Some (False, buf)
      | Some b \<Rightarrow>
          if len < 0 then Some (False, buf)
          else map_option (\<lambda>(ok, p). (ok, pbuf p))
                 (print_item item ((new_buffer b True fmt hr m)\<lparr>plen := nat len\<rparr>)))"

lemma strlen_holds: "NUL \<notin> set t \<Longrightarrow> take (length t + 1) b = map Some (t @ [NUL]) \<Longrightarrow> read_cstring b = Some t"
proof -
  assume t: "NUL \<notin> set t" "take (length t + 1) b = map Some (t @ [NUL])"
  then have "b = map Some t @ Some NUL # drop (length t + 1) b"
    by (metis append.assoc append_Cons append_Nil append_take_drop_id list.simps(9) map_append map_is_Nil_conv)
  then have "strlen b = Some (length t)" "take (length t) b = map Some t"
    using strlen_map [OF t(1)] by (metis, metis append_eq_conv_conj length_map)
  then show ?thesis by (simp add: read_cstring_def comp_def)
qed

lemma new_buffer_wrote:
  "length b \<le> nat INT_MAX \<Longrightarrow> b \<noteq> [] \<or> noal \<or> hr \<Longrightarrow> wrote (new_buffer b noal fmt hr m) []"
  by (auto simp: new_buffer_def wrote_def sized_def holds_def)

text \<open>What one run of \<open>print_value\<close> on a fresh buffer gives.\<close>

lemma print_fresh:
  assumes "wrote p []" "pformat p = fmt" "pdepth p = 0" "c_item v"
  obtains (ok) t q b where "print_value v p = Some (True, q)" "render fmt 0 v = Some t" "NUL \<notin> set t" "kept p q"
      "shown q [] t" "pbuf q = Some b" "length b = plen q" "take (length t + 1) b = map Some (t @ [NUL])"
  | (failed) q where "print_value v p = Some (False, q)" "dropped p q"
      "render fmt 0 v = None \<or> refused p q (length (the (render fmt 0 v)) + 2)"
proof -
  let ?L = "map_option (\<lambda>t. length t + 2) (render fmt 0 v)"
  have l: "lim_ok [] (render fmt 0 v) ?L" by (cases "render fmt 0 v") auto
  from outcome_cases [OF print_outcome(1) [OF assms l]] show thesis
  proof
    assume "\<exists>p'. print_value v p = Some (True, p') \<and> kept p p' \<and> prints p [] (render fmt 0 v) p'"
    then obtain q t where q: "print_value v p = Some (True, q)" "kept p q" "render fmt 0 v = Some t" "shown q [] t"
      by (auto simp: prints_def)
    then obtain b where "pbuf q = Some b" "length b = plen q" "take (length t + 1) b = map Some (t @ [NUL])"
      by (auto simp: shown_def sized_def holds_def split: option.splits)
    with q render_no_NUL(1) [OF assms(4) q(3)] show thesis by (intro ok)
  next
    assume "\<exists>p'. print_value v p = Some (False, p') \<and> dropped p p' \<and> (case ?L of None \<Rightarrow> True | Some l \<Rightarrow> refused p p' l)"
    then show thesis by (cases "render fmt 0 v") (auto intro: failed)
  qed
qed

lemma updated_shown:
  assumes "shown q [] t" "NUL \<notin> set t"
  obtains q' where "update_offset q = Some q'" "kept q q'" "pbuf q' = pbuf q" "plen q' = plen q" "poff q' = length t" "pmem q' = pmem q"
proof -
  obtain q' where u: "update_offset q = Some q'" "kept q q'" "wrote q' t"
    using outcome_cases [OF updated_outcome [OF assms, of None]] by (auto simp: updated_def)
  moreover have "pbuf q' = pbuf q \<and> plen q' = plen q \<and> pmem q' = pmem q"
    using u(1) by (auto simp: update_offset_def shift_def split: option.splits)
  ultimately show thesis using that by (simp add: wrote_def)
qed

lemma print_result:
  assumes "c_item v"
  shows "\<exists>r m'. print (Some v) fmt hr m = Some (r, m')
     \<and> (case r of
          Some t \<Rightarrow> render fmt 0 v = Some t \<and> live m' = live m + 1
        | None \<Rightarrow> live m' = live m
            \<and> (render fmt 0 v = None \<or> budget m' = 0 \<or> nat INT_MAX < length (the (render fmt 0 v)) + 2))"
proof (cases "allocate m")
  case None
  then show ?thesis by (simp add: print_def allocate_def split: if_splits)
next
  case (Some m1)
  let ?p = "new_buffer (replicate DEFAULT_BUFFER_SIZE None) False fmt hr m1"
  have m1: "live m1 = live m + 1" using allocate_Some [OF Some] by simp
  have w: "wrote ?p []" by (rule new_buffer_wrote) (simp_all add: DEFAULT_BUFFER_SIZE_def INT_MAX_def)
  have p: "pformat ?p = fmt" "pdepth ?p = 0" "\<not> noalloc ?p" "pmem ?p = m1" "has_realloc ?p = hr"
    by (simp_all add: new_buffer_def)
  show ?thesis
  proof (rule print_fresh [OF w p(1,2) assms])
    fix q
    assume f: "print_value v ?p = Some (False, q)" "dropped ?p q"
      "render fmt 0 v = None \<or> refused ?p q (length (the (render fmt 0 v)) + 2)"
    then show ?thesis using Some m1 p
      by (auto simp: print_def print_item_def free_buffer_def dropped_def refused_def)
  next
    fix t q b
    assume ok: "print_value v ?p = Some (True, q)" "render fmt 0 v = Some t" "NUL \<notin> set t" "kept ?p q"
      "shown q [] t" "pbuf q = Some b" "length b = plen q" "take (length t + 1) b = map Some (t @ [NUL])"
    obtain q' where u: "update_offset q = Some q'" "kept q q'" "pbuf q' = pbuf q" "plen q' = plen q"
      "poff q' = length t" "pmem q' = pmem q" using updated_shown [OF ok(5,3)] .
    have lv: "live (pmem q) = live m + 1" using ok(4) m1 p by (simp add: kept_def)
    have lb: "length t + 1 \<le> length b" using arg_cong [OF ok(8), of length] by simp
    have r1: "read_cstring (take (length t + 1) (b @ r)) = Some t" for r
      by (rule strlen_holds [OF ok(3)]) (use ok(8) lb in simp)
    have mn: "take (min (plen q) (length t + 1)) b = map Some t @ [Some NUL]" using ok(7,8) lb by (simp add: min_def)
    have r2: "read_cstring ((take (min (plen q) (length t + 1)) b @ r)[length t := Some NUL]) = Some t" for r
      unfolding mn by (rule strlen_holds [OF ok(3)]) (simp add: list_update_append)
    show ?thesis
    proof (cases "budget (pmem q) = 0")
      case True
      then show ?thesis using Some ok(1,2,6) u lv
        by (simp add: print_def print_item_def free_buffer_def reallocate_def allocate_def Let_def split: if_splits)
    next
      case False
      then obtain m2 where "allocate (pmem q) = Some m2" "live m2 = live (pmem q) + 1" by (simp add: allocate_def)
      then show ?thesis using Some ok(1,2,6) u lv r1 r2
        by (simp add: print_def print_item_def free_buffer_def reallocate_def Let_def)
    qed
  qed
qed

text \<open>C2: \<open>cJSON_PrintUnformatted\<close> and \<open>cJSON_Print\<close> never make a memory error on a tree a C program can
  hold: the result is exactly the text the tree denotes, in one new block, or NULL with nothing
  leaked, and NULL only when the tree has no text (an unknown type, too deep), an allocation failed,
  or the text passes \<open>INT_MAX\<close>.\<close>

theorem cJSON_Print_correct:
  assumes "c_item v"
  shows "\<exists>r m'. (if fmt then cJSON_Print (Some v) hr m else cJSON_PrintUnformatted (Some v) hr m) = Some (r, m')
     \<and> (case r of
          Some t \<Rightarrow> render fmt 0 v = Some t \<and> live m' = live m + 1
        | None \<Rightarrow> live m' = live m
            \<and> (render fmt 0 v = None \<or> budget m' = 0 \<or> nat INT_MAX < length (the (render fmt 0 v)) + 2))"
proof (cases fmt)
  case True
  show ?thesis using print_result [OF assms, of True hr m] by (simp only: True cJSON_Print_def if_True)
next
  case False
  show ?thesis using print_result [OF assms, of False hr m] by (simp only: False cJSON_PrintUnformatted_def if_False)
qed

theorem cJSON_Print_correct_witness:
  "\<exists>r m'. (if True then cJSON_Print (Some (CJSON 32 None 0 (DNum 0) None [CJSON 2 None 0 (DNum 0) None []])) True \<lparr>budget = 3, live = 0\<rparr>
       else cJSON_PrintUnformatted (Some (CJSON 32 None 0 (DNum 0) None [CJSON 2 None 0 (DNum 0) None []])) True \<lparr>budget = 3, live = 0\<rparr>)
     = Some (r, m')
     \<and> (case r of
          Some t \<Rightarrow> render True 0 (CJSON 32 None 0 (DNum 0) None [CJSON 2 None 0 (DNum 0) None []]) = Some t
            \<and> live m' = live \<lparr>budget = 3, live = 0\<rparr> + 1
        | None \<Rightarrow> live m' = live \<lparr>budget = 3, live = 0\<rparr>
            \<and> (render True 0 (CJSON 32 None 0 (DNum 0) None [CJSON 2 None 0 (DNum 0) None []]) = None \<or> budget m' = 0
              \<or> nat INT_MAX < length (the (render True 0 (CJSON 32 None 0 (DNum 0) None [CJSON 2 None 0 (DNum 0) None []]))) + 2))"
  by (rule cJSON_Print_correct) (simp add: c_string_def is_double_def)

text \<open>C27: \<open>cJSON_PrintPreallocated\<close> never writes outside the caller's buffer, whatever its size; when it
  returns true the buffer holds the text and its NUL, and a buffer of two bytes more than the text is
  always enough (\<open>cJSON.h\<close> asks for five).\<close>

theorem cJSON_PrintPreallocated_fits:
  assumes "c_item v" "length b \<le> nat INT_MAX"
  shows "\<exists>ok b'. cJSON_PrintPreallocated (Some v) (Some b) (int (length b)) fmt hr m = Some (ok, Some b')
     \<and> length b' = length b
     \<and> (if ok then render fmt 0 v \<noteq> None \<and> read_cstring b' = render fmt 0 v
        else render fmt 0 v = None \<or> length b < length (the (render fmt 0 v)) + 2)"
proof -
  let ?p = "new_buffer b True fmt hr m"
  have w: "wrote ?p []" by (rule new_buffer_wrote) (simp_all add: assms(2))
  have p: "pformat ?p = fmt" "pdepth ?p = 0" "noalloc ?p" "plen ?p = length b"
    by (simp_all add: new_buffer_def)
  have e: "cJSON_PrintPreallocated (Some v) (Some b) (int (length b)) fmt hr m
      = map_option (\<lambda>(ok, p). (ok, pbuf p)) (print_value v ?p)"
    by (simp add: cJSON_PrintPreallocated_def print_item_def new_buffer_def)
  show ?thesis
  proof (rule print_fresh [OF w p(1,2) assms(1)])
    fix q
    assume f: "print_value v ?p = Some (False, q)" "dropped ?p q"
      "render fmt 0 v = None \<or> refused ?p q (length (the (render fmt 0 v)) + 2)"
    then obtain b' where "pbuf q = Some b'" "length b' = length b" using p by (auto simp: dropped_def new_buffer_def)
    with f p show ?thesis
      by (intro exI [of _ False] exI [of _ b']) (simp add: e refused_def)
  next
    fix t q b'
    assume ok: "print_value v ?p = Some (True, q)" "render fmt 0 v = Some t" "NUL \<notin> set t" "kept ?p q"
      "shown q [] t" "pbuf q = Some b'" "length b' = plen q" "take (length t + 1) b' = map Some (t @ [NUL])"
    then have "length b' = length b" using p by (auto simp: kept_def new_buffer_def)
    then show ?thesis using ok(1,2,6) strlen_holds [OF ok(3,8)]
      by (intro exI [of _ True] exI [of _ b'] conjI) (simp_all only: e option.map prod.case if_True, simp_all)
  qed
qed

theorem cJSON_PrintPreallocated_fits_witness:
  "\<exists>ok b'. cJSON_PrintPreallocated (Some (CJSON 4 None 0 (DNum 0) None [])) (Some (replicate 5 None))
       (int (length (replicate 5 (None :: char option)))) True True \<lparr>budget = 0, live = 0\<rparr> = Some (ok, Some b')
     \<and> length b' = length (replicate 5 (None :: char option))
     \<and> (if ok then render True 0 (CJSON 4 None 0 (DNum 0) None []) \<noteq> None
            \<and> read_cstring b' = render True 0 (CJSON 4 None 0 (DNum 0) None [])
        else render True 0 (CJSON 4 None 0 (DNum 0) None []) = None
          \<or> length (replicate 5 (None :: char option)) < length (the (render True 0 (CJSON 4 None 0 (DNum 0) None []))) + 2)"
  by (rule cJSON_PrintPreallocated_fits) (simp_all add: c_string_def is_double_def INT_MAX_def)

text \<open>\<open>cJSON_PrintBuffered\<close> with a prebuffer of 0 bytes and allocators without \<open>realloc\<close> copies one
  byte out of the empty block, a read outside the allocation: printing \<open>true\<close> does it.\<close>

theorem cJSON_PrintBuffered_zero_prebuffer:
  "cJSON_PrintBuffered (Some (CJSON cJSON_True None 0 (DNum 0) None [])) 0 fmt False \<lparr>budget = 2, live = 0\<rparr> = None"
  by (simp add: cJSON_PrintBuffered_def allocate_def print_item_def new_buffer_def emit_def ensure_def resize_def
      type_defs INT_MAX_def Let_def)

end
