(* ===== verification/CJson_Roundtrip.thy ===== *)
theory CJson_Roundtrip
  imports CJson_Print CJson_Parse
begin

text \<open>
  Parsing inverts printing: for every tree in the parser's own form whose numbers are integers
  (\<open>canon\<close>), the text \<open>render\<close> gives, formatted or not, parses back to the same tree. The parser
  needs the allocations \<open>need\<close> counts and fuel for the length of the text.
\<close>

subsection \<open>Trees in the parser's form\<close>

fun canon :: "cJSON \<Rightarrow> bool" where
  "canon (CJSON ty vs vi vd k ch) \<longleftrightarrow>
     (ty \<in> {cJSON_NULL, cJSON_False} \<and> vs = None \<and> vi = 0 \<and> vd = DNum 0 \<and> ch = []
      \<or> ty = cJSON_True \<and> vs = None \<and> vi = 1 \<and> vd = DNum 0 \<and> ch = []
      \<or> ty = cJSON_Number \<and> vs = None \<and> INT_MIN \<le> vi \<and> vi \<le> INT_MAX \<and> vd = DNum (of_int vi) \<and> ch = []
      \<or> ty = cJSON_String \<and> vs \<noteq> None \<and> NUL \<notin> set (the vs) \<and> vi = 0 \<and> vd = DNum 0 \<and> ch = []
      \<or> ty = cJSON_Array \<and> vs = None \<and> vi = 0 \<and> vd = DNum 0 \<and> (\<forall>c \<in> set ch. canon c \<and> istring c = None)
      \<or> ty = cJSON_Object \<and> vs = None \<and> vi = 0 \<and> vd = DNum 0
        \<and> (\<forall>c \<in> set ch. canon c \<and> istring c \<noteq> None \<and> NUL \<notin> set (the (istring c))))"

function need :: "cJSON \<Rightarrow> nat" and needs :: "nat \<Rightarrow> cJSON list \<Rightarrow> nat" where
  "need (CJSON ty vs vi vd k ch) =
     (if ty = cJSON_Number \<or> ty = cJSON_String then 1
      else if ty = cJSON_Array then needs 1 ch
      else if ty = cJSON_Object then needs 2 ch else 0)"
| "needs a [] = 0"
| "needs a (c # cs) = a + need c + needs a cs"
  by pat_completeness auto
termination
  by (relation "measure (\<lambda>s. case s of Inl v \<Rightarrow> size v | Inr (_, cs) \<Rightarrow> size_list size cs)") auto

subsection \<open>Reading at a position of the text\<close>

definition at_text :: "parse_buffer \<Rightarrow> string \<Rightarrow> string \<Rightarrow> bool" where
  "at_text b pre rest \<longleftrightarrow> content b = pre @ rest \<and> offset b = length pre \<and> plength b = length (content b)"

lemma at_text_drop: "at_text b pre rest \<Longrightarrow> drop (offset b) (content b) = rest \<and> plength b - offset b = length rest"
  by (simp add: at_text_def)

lemma peek_at: "at_text b pre rest \<Longrightarrow> peek b = (case rest of [] \<Rightarrow> None | c # _ \<Rightarrow> Some c)"
  by (cases rest) (auto simp: at_text_def peek_def can_access_at_index_def)

lemma rd_at: "at_text b pre (c # rest) \<Longrightarrow> rd b (offset b) = Some c"
  by (simp add: at_text_def rd_def)

lemma access_at: "at_text b pre rest \<Longrightarrow> can_access_at_index b i \<longleftrightarrow> i < length rest"
  by (auto simp: at_text_def can_access_at_index_def)

lemma starts_at: "at_text b pre rest \<Longrightarrow> starts b s \<longleftrightarrow> take (length s) rest = s"
proof -
  assume "at_text b pre rest"
  then have "starts b s \<longleftrightarrow> length s \<le> length rest \<and> take (length s) rest = s"
    by (auto simp: at_text_def starts_def can_read_def)
  then show ?thesis by (metis length_take min.cobounded1)
qed

lemma at_text_move: "at_text b pre (s @ rest) \<Longrightarrow> n = length pre + length s \<Longrightarrow> at_text (b\<lparr>offset := n\<rparr>) (pre @ s) rest"
  by (simp add: at_text_def)

lemma at_text_fields [simp]:
  "at_text (b\<lparr>hooks := m\<rparr>) pre rest = at_text b pre rest" "at_text (b\<lparr>depth := d\<rparr>) pre rest = at_text b pre rest"
  by (simp_all add: at_text_def)

lemma at_text_advance: "at_text b pre (c # rest) \<Longrightarrow> at_text (advance b) (pre @ [c]) rest"
  by (simp add: at_text_def advance_def)

definition blanks :: "string \<Rightarrow> bool" where
  "blanks ws \<longleftrightarrow> list_all (\<lambda>c. ord c \<le> 32) ws"

lemma blanks_simps [simp]: "blanks []" "blanks (c # ws) \<longleftrightarrow> ord c \<le> 32 \<and> blanks ws" "blanks (ws @ ws') \<longleftrightarrow> blanks ws \<and> blanks ws'"
  by (simp_all add: blanks_def)

lemma skip_loop_blanks:
  "blanks ws \<Longrightarrow> 32 < ord c \<Longrightarrow>
     skip_loop (pre @ ws @ c # rest) (length (pre @ ws @ c # rest)) (length pre) = length pre + length ws"
proof (induction ws arbitrary: pre)
  case Nil
  then show ?case by (subst skip_loop.simps) simp
next
  case (Cons w ws)
  then show ?case using Cons.IH [of "pre @ [w]"] by (subst skip_loop.simps) simp
qed

text \<open>Skipping blanks before a visible character.\<close>

lemma skip_at:
  assumes "at_text b pre (ws @ c # rest)" "blanks ws" "32 < ord c"
  shows "buffer_skip_whitespace b = b\<lparr>offset := length pre + length ws\<rparr>"
    "at_text (buffer_skip_whitespace b) (pre @ ws) (c # rest)"
proof -
  have "skip_loop (content b) (plength b) (offset b) = length pre + length ws"
    using assms skip_loop_blanks [OF assms(2,3), of pre rest] by (simp add: at_text_def)
  moreover have "can_access_at_index b 0" using assms(1) by (simp add: access_at)
  moreover have "length pre + length ws < plength b" using assms(1) by (simp add: at_text_def)
  ultimately show e: "buffer_skip_whitespace b = b\<lparr>offset := length pre + length ws\<rparr>"
    by (simp add: buffer_skip_whitespace_def Let_def)
  show "at_text (buffer_skip_whitespace b) (pre @ ws) (c # rest)"
    unfolding e by (rule at_text_move) (use assms(1) in simp_all)
qed

lemma skip_none: "at_text b pre (c # rest) \<Longrightarrow> 32 < ord c \<Longrightarrow> buffer_skip_whitespace b = b"
  using skip_at(1) [of b pre "[]" c rest] by (simp add: at_text_def)

subsection \<open>Numbers and strings read back\<close>

lemma takeWhile_all: "list_all P xs \<Longrightarrow> (ys = [] \<or> \<not> P (hd ys)) \<Longrightarrow> takeWhile P (xs @ ys) = xs"
  by (induction xs) (cases ys, auto)

lemma dec_nat_all_digits: "list_all is_digit (dec_nat n)"
  using dec_nat_digits by (simp add: list_all_iff)

lemma dec_nat_hd: "is_digit (hd (dec_nat n))"
  using dec_nat_digits [of n] dec_nat_nonempty [of n] hd_in_set by blast

lemma strtod_nat:
  "takeWhile is_digit (dec_nat n) = dec_nat n" "dropWhile is_digit (dec_nat n) = []"
  using dec_nat_digits [of n] by (auto simp: takeWhile_eq_all_conv dropWhile_eq_Nil_conv)

lemma strtod_dec_int:
  assumes "INT_MIN \<le> i" "i \<le> INT_MAX"
  shows "strtod (dec_int i) = (DNum (of_int i), length (dec_int i))"
proof -
  have r: "round_double (of_int i) = DNum (of_int i)"
    using assms by (intro round_double_int) (simp add: INT_MIN_def INT_MAX_def abs_less_iff)
  show ?thesis
  proof (cases "i < 0")
    case True
    then have "dec_int i = CHR ''-'' # dec_nat (nat (- i))" "rat_of_nat (nat (- i)) = - of_int i"
      by (simp_all add: dec_int_def of_nat_nat)
    then show ?thesis using r by (simp add: strtod_def strtod_exponent_def strtod_nat Let_def)
  next
    case False
    let ?ds = "dec_nat (nat i)"
    obtain c ds where d: "?ds = c # ds" "is_digit c" using dec_nat_nonempty dec_nat_hd by (metis list.exhaust_sel)
    then have ne: "c \<noteq> CHR ''-''" "c \<noteq> CHR ''+''" by (auto simp: is_digit_def)
    have "dec_int i = ?ds" "rat_of_nat (nat i) = of_int i" using False by (simp_all add: dec_int_def)
    moreover have "strtod ?ds = (round_double (of_nat (nat i)), length ?ds)"
      using ne strtod_nat [of "nat i"] digits_val_dec_nat [of "nat i"]
      by (simp add: strtod_def strtod_exponent_def Let_def d(1))
    ultimately show ?thesis using r by simp
  qed
qed

lemma number_chars_dec_int: "list_all number_char (dec_int i)"
  using dec_nat_all_digits by (auto simp: dec_int_def number_char_def list_all_iff)

lemma parse_number_dec_int:
  assumes "at_text b pre (dec_int i @ rest)" "rest = [] \<or> \<not> number_char (hd rest)" "INT_MIN \<le> i" "i \<le> INT_MAX"
    "allocate (hooks b) = Some m"
  shows "parse_number item b =
     POk (set_type cJSON_Number (set_valueint i (set_valuedouble (DNum (of_int i)) item)))
       (b\<lparr>offset := length pre + length (dec_int i), hooks := deallocate m\<rparr>)"
proof -
  have "unread b = dec_int i @ rest" using assms(1) by (simp add: unread_def at_text_def)
  then have "takeWhile number_char (unread b) = dec_int i" using takeWhile_all [OF number_chars_dec_int assms(2)] by simp
  moreover have "map (\<lambda>c. if c = CHR ''.'' then get_decimal_point else c) s = s" for s
    by (induction s) (auto simp: get_decimal_point_def)
  moreover have "offset b = length pre" "length (dec_int i) \<noteq> 0" using assms(1) by (auto simp: at_text_def dec_int_def)
  ultimately show ?thesis
    using strtod_dec_int [OF assms(3,4)] assms(5) double_to_valueint_int [OF assms(3,4)]
    by (simp add: parse_number_def Let_def)
qed

subsection \<open>One turn of each loop\<close>

lemma New_Item_budget:
  assumes "0 < budget m"
  obtains m' where "cJSON_New_Item m = Some (zero_item, m')" "Suc (budget m') = budget m"
  using assms by (auto simp: cJSON_New_Item_def allocate_def)

text \<open>
  \<open>reads n v t\<close>: \<open>parse_value n\<close> on a fresh item with the key of \<open>v\<close> reads \<open>t\<close> as \<open>v\<close>, wherever
  it stands.
\<close>

definition reads :: "nat \<Rightarrow> nat \<Rightarrow> cJSON \<Rightarrow> string \<Rightarrow> bool" where
  "reads n d v t \<longleftrightarrow>
     (\<forall>b pre rest ty. at_text b pre (t @ rest) \<and> (rest = [] \<or> \<not> number_char (hd rest)) \<and> need v \<le> budget (hooks b)
        \<and> depth b = d \<longrightarrow>
        (\<exists>m. parse_value n (CJSON ty None 0 (DNum 0) (istring v) []) b
               = POk v (b\<lparr>offset := length pre + length t, hooks := m\<rparr>)
           \<and> budget m + need v = budget (hooks b)))"

definition visible :: "string \<Rightarrow> bool" where
  "visible t \<longleftrightarrow> (case t of [] \<Rightarrow> False | c # _ \<Rightarrow> 32 < ord c \<and> c \<noteq> CHR 0xEF \<and> c \<noteq> CHR '']'' \<and> c \<noteq> CHR ''}'')"

lemma visibleE: "visible t \<Longrightarrow> (\<And>c r. t = c # r \<Longrightarrow> 32 < ord c \<Longrightarrow> c \<noteq> CHR '']'' \<Longrightarrow> c \<noteq> CHR ''}'' \<Longrightarrow> P) \<Longrightarrow> P"
  by (cases t) (auto simp: visible_def)

lemma blanks_sep [simp]: "blanks s \<Longrightarrow> blanks (sep b s)" "blanks (tabs n)"
  by (auto simp: sep_def tabs_def blanks_def list_all_iff)

text \<open>An element, up to the character after it.\<close>

lemma parse_element:
  assumes b: "at_text b pre (x # ws @ t @ rest)" "blanks ws" "visible t"
    and v: "reads n d v t" "istring v = None" "depth b = d" "1 + need v \<le> budget (hooks b)"
    and rest: "rest = [] \<or> \<not> number_char (hd rest)"
  obtains m0 m where "cJSON_New_Item (hooks b) = Some (zero_item, m0)"
    "parse_value n zero_item (buffer_skip_whitespace (advance (b\<lparr>hooks := m0\<rparr>)))
       = POk v (b\<lparr>offset := length pre + 1 + length ws + length t, hooks := m\<rparr>)"
    "budget m + (1 + need v) = budget (hooks b)"
    "at_text (b\<lparr>offset := length pre + 1 + length ws + length t, hooks := m\<rparr>) (pre @ x # ws @ t) rest"
proof -
  obtain m0 where m0: "cJSON_New_Item (hooks b) = Some (zero_item, m0)" "Suc (budget m0) = budget (hooks b)"
    using New_Item_budget [of "hooks b"] v(4) by auto
  obtain c r where t: "t = c # r" "32 < ord c" using assms(3) by (auto elim: visibleE)
  let ?b1 = "advance (b\<lparr>hooks := m0\<rparr>)"
  have b1: "at_text ?b1 (pre @ [x]) (ws @ c # r @ rest)"
    using at_text_advance [of "b\<lparr>hooks := m0\<rparr>" pre x] b(1) t(1) by simp
  let ?b2 = "buffer_skip_whitespace ?b1"
  have b2: "?b2 = b\<lparr>hooks := m0, offset := length pre + 1 + length ws\<rparr>" "at_text ?b2 (pre @ x # ws) (t @ rest)"
    using skip_at [OF b1 b(2) t(2)] t(1) by (simp_all add: advance_def)
  have "at_text ?b2 (pre @ x # ws) (t @ rest) \<and> (rest = [] \<or> \<not> number_char (hd rest)) \<and> need v \<le> budget (hooks ?b2) \<and> depth ?b2 = d"
    using b2(2) rest m0(2) v(3,4) unfolding b2(1) by simp
  with v(1)[unfolded reads_def, THEN spec, THEN spec, THEN spec, THEN spec, of ?b2 "pre @ x # ws" rest 0]
  obtain m where m: "parse_value n (CJSON 0 None 0 (DNum 0) (istring v) []) ?b2
      = POk v (?b2\<lparr>offset := length (pre @ x # ws) + length t, hooks := m\<rparr>)" "budget m + need v = budget (hooks ?b2)"
    by blast
  show thesis
  proof (rule that [OF m0(1)])
    show "parse_value n zero_item ?b2 = POk v (b\<lparr>offset := length pre + 1 + length ws + length t, hooks := m\<rparr>)"
      using m(1) v(2) unfolding b2(1) zero_item_def by (simp add: add.assoc)
    show "budget m + (1 + need v) = budget (hooks b)" using m(2) m0(2) unfolding b2(1) by simp
    show "at_text (b\<lparr>offset := length pre + 1 + length ws + length t, hooks := m\<rparr>) (pre @ x # ws @ t) rest"
      using b(1) by (simp add: at_text_def)
  qed
qed

lemma parse_elements_reads:
  assumes "list_all2 (\<lambda>c t. reads n d c t \<and> istring c = None \<and> visible t) cs ts"
    and "ts \<noteq> []" "at_text b pre (x # ws @ t @ CHR '']'' # rest)" "blanks ws" "blanks gap"
    and "t = concat (map (\<lambda>s. s @ CHR '','' # gap) (butlast ts)) @ last ts"
    and "needs 1 cs \<le> budget (hooks b)" "depth b = d" "length cs \<le> k"
  shows "\<exists>m. parse_elements (parse_value n) k item head b
       = POk (set_child (head @ cs) (set_type cJSON_Array item))
           (b\<lparr>offset := length pre + 2 + length ws + length t, depth := d - 1, hooks := m\<rparr>)
     \<and> budget m + needs 1 cs = budget (hooks b)"
  using assms
proof (induction cs ts arbitrary: b pre x ws t k head rule: list_all2_induct)
  case Nil
  then show ?case by simp
next
  case (Cons c cs s ts)
  obtain k' where k: "k = Suc k'" using Cons.prems(8) by (cases k) auto
  let ?tail = "if ts = [] then CHR '']'' # rest else CHR '','' # gap @ concat (map (\<lambda>s. s @ CHR '','' # gap) (butlast ts)) @ last ts @ CHR '']'' # rest"
  have at0: "at_text b pre (x # ws @ s @ ?tail)" using Cons.prems(2,5) by (auto simp: at_text_def)
  have nn: "?tail = [] \<or> \<not> number_char (hd ?tail)" by (simp add: number_char_def is_digit_def)
  have lens: "length cs = length ts" using Cons.hyps(2) by (simp add: list_all2_lengthD)
  obtain m0 m where m0: "cJSON_New_Item (hooks b) = Some (zero_item, m0)"
    and pv: "parse_value n zero_item (buffer_skip_whitespace (advance (b\<lparr>hooks := m0\<rparr>)))
       = POk c (b\<lparr>offset := length pre + 1 + length ws + length s, hooks := m\<rparr>)"
    and m: "budget m + (1 + need c) = budget (hooks b)"
    and txt1: "at_text (b\<lparr>offset := length pre + 1 + length ws + length s, hooks := m\<rparr>) (pre @ x # ws @ s) ?tail"
    by (rule parse_element [OF at0 Cons.prems(3) _ _ _ Cons.prems(7) _ nn]) (use Cons.hyps(1) Cons.prems(6) in auto)
  let ?b1 = "b\<lparr>offset := length pre + 1 + length ws + length s, hooks := m\<rparr>"
  have skip: "buffer_skip_whitespace ?b1 = ?b1"
    by (cases "ts = []") (use txt1 in \<open>auto intro: skip_none\<close>)
  show ?case
  proof (cases "ts = []")
    case True
    then have "peek ?b1 = Some (CHR '']'')" "cs = []" "t = s" using peek_at [OF txt1] lens Cons.prems(5) by auto
    then show ?thesis
      using m0 pv skip m Cons.prems(7) by (intro exI [of _ m], cases b) (simp add: k parse_success_def)
  next
    case False
    then have pk: "peek ?b1 = Some (CHR '','')" using peek_at [OF txt1] by simp
    let ?t = "concat (map (\<lambda>s. s @ CHR '','' # gap) (butlast ts)) @ last ts"
    have txt2: "at_text ?b1 (pre @ x # ws @ s) (CHR '','' # gap @ ?t @ CHR '']'' # rest)" using txt1 False by simp
    have len: "length t = length s + 1 + length gap + length ?t" using Cons.prems(5) False by simp
    obtain m' where "parse_elements (parse_value n) k' item (head @ [c]) ?b1
       = POk (set_child ((head @ [c]) @ cs) (set_type cJSON_Array item))
           (?b1\<lparr>offset := length (pre @ x # ws @ s) + 2 + length gap + length ?t, depth := d - 1, hooks := m'\<rparr>)"
      "budget m' + needs 1 cs = budget (hooks ?b1)"
      using Cons.IH [OF False txt2 Cons.prems(4,4) refl, of k' "head @ [c]"] m Cons.prems(6,7,8) k by auto
    then show ?thesis
      using m0 pv skip pk m len
      by (intro exI [of _ m'], cases b) (simp add: k add.commute add.left_commute del: length_append length_concat, simp)
  qed
qed

text \<open>A member, up to the character after its value.\<close>

lemma parse_member:
  assumes b: "at_text b pre (x # ws @ quoted (Some key) @ CHR '':'' # g @ t @ rest)" "blanks ws" "blanks g" "visible t"
    and v: "reads n d v t" "istring v = Some key" "NUL \<notin> set key" "depth b = d" "2 + need v \<le> budget (hooks b)"
    and rest: "rest = [] \<or> \<not> number_char (hd rest)"
  obtains m0 named b1 m where "cJSON_New_Item (hooks b) = Some (zero_item, m0)" "can_access_at_index b 1"
    "parse_string zero_item (buffer_skip_whitespace (advance (b\<lparr>hooks := m0\<rparr>))) = POk named b1"
    "peek (buffer_skip_whitespace b1) = Some (CHR '':'')"
    "parse_value n (swap_name named) (buffer_skip_whitespace (advance (buffer_skip_whitespace b1)))
       = POk v (b\<lparr>offset := length (pre @ x # ws @ quoted (Some key) @ CHR '':'' # g @ t), hooks := m\<rparr>)"
    "budget m + (2 + need v) = budget (hooks b)"
    "at_text (b\<lparr>offset := length (pre @ x # ws @ quoted (Some key) @ CHR '':'' # g @ t), hooks := m\<rparr>)
       (pre @ x # ws @ quoted (Some key) @ CHR '':'' # g @ t) rest"
proof -
  let ?q = "quoted (Some key)"
  obtain m0 where m0: "cJSON_New_Item (hooks b) = Some (zero_item, m0)" "Suc (budget m0) = budget (hooks b)"
    using New_Item_budget [of "hooks b"] v(5) by auto
  obtain m1 where m1: "allocate m0 = Some m1" "Suc (budget m1) = budget m0"
    using m0(2) v(5) by (auto simp: allocate_def)
  obtain c r where t: "t = c # r" "32 < ord c" using assms(4) by (auto elim: visibleE)
  have q: "?q = CHR 0x22 # escape_string key @ [CHR 0x22]" by (simp add: quoted_def)
  let ?b1 = "advance (b\<lparr>hooks := m0\<rparr>)"
  let ?after = "CHR '':'' # g @ t @ rest"
  have "at_text ?b1 (pre @ [x]) (ws @ ?q @ ?after)" using at_text_advance [of "b\<lparr>hooks := m0\<rparr>" pre x] b(1) by simp
  then have b1: "at_text ?b1 (pre @ [x]) (ws @ CHR 0x22 # escape_string key @ CHR 0x22 # ?after)" by (simp add: q)
  let ?b2 = "buffer_skip_whitespace ?b1"
  have b2: "?b2 = b\<lparr>hooks := m0, offset := length pre + 1 + length ws\<rparr>"
      "at_text ?b2 ((pre @ [x]) @ ws) (CHR 0x22 # escape_string key @ CHR 0x22 # ?after)"
    using skip_at [OF b1 b(2)] by (simp_all add: advance_def)
  let ?named = "set_valuestring (Some key) (set_type cJSON_String zero_item)"
  let ?b3 = "b\<lparr>hooks := m1, offset := length (pre @ x # ws @ ?q)\<rparr>"
  have "parse_string zero_item ?b2 = POk ?named (?b2\<lparr>offset := length ((pre @ [x]) @ ws) + length (escape_string key) + 2, hooks := m1\<rparr>)"
    by (rule parse_string_escaped [where rest = ?after]) (use b2 v(3) m1(1) in \<open>auto simp: at_text_def b2(1)\<close>)
  then have str: "parse_string zero_item ?b2 = POk ?named ?b3" unfolding b2(1) by (simp add: q)
  have b3: "at_text ?b3 (pre @ x # ws @ ?q) ?after" using b(1) by (simp add: at_text_def)
  then have sk3: "buffer_skip_whitespace ?b3 = ?b3" by (rule skip_none) simp
  have b4: "at_text (advance ?b3) ((pre @ x # ws @ ?q) @ [CHR '':'']) (g @ c # r @ rest)"
    using at_text_advance [OF b3] by (simp add: t(1))
  let ?b5 = "buffer_skip_whitespace (advance ?b3)" and ?pre5 = "pre @ x # ws @ ?q @ CHR '':'' # g"
  have b5: "?b5 = b\<lparr>hooks := m1, offset := length ?pre5\<rparr>" "at_text ?b5 ?pre5 (t @ rest)"
    using skip_at [OF b4 b(3) t(2)] t(1) by (simp_all add: advance_def)
  have "at_text ?b5 ?pre5 (t @ rest) \<and> (rest = [] \<or> \<not> number_char (hd rest)) \<and> need v \<le> budget (hooks ?b5) \<and> depth ?b5 = d"
    using b5(2) rest m0(2) m1(2) v(4,5) unfolding b5(1) by simp
  with v(1)[unfolded reads_def, THEN spec, THEN spec, THEN spec, THEN spec, of ?b5 ?pre5 rest cJSON_String]
  obtain m where m: "parse_value n (CJSON cJSON_String None 0 (DNum 0) (istring v) []) ?b5
      = POk v (?b5\<lparr>offset := length ?pre5 + length t, hooks := m\<rparr>)" "budget m + need v = budget (hooks ?b5)"
    by blast
  have sw: "swap_name ?named = CJSON cJSON_String None 0 (DNum 0) (istring v) []"
    using v(2) by (simp add: swap_name_def zero_item_def)
  show thesis
  proof (rule that [OF m0(1) _ str])
    show "can_access_at_index b 1" using access_at [OF b(1)] by (simp add: q)
    show "peek (buffer_skip_whitespace ?b3) = Some (CHR '':'')" using peek_at [OF b3] by (simp only: sk3) simp
    show "parse_value n (swap_name ?named) (buffer_skip_whitespace (advance (buffer_skip_whitespace ?b3)))
        = POk v (b\<lparr>offset := length (pre @ x # ws @ ?q @ CHR '':'' # g @ t), hooks := m\<rparr>)"
      using m(1) unfolding sk3 sw b5(1) by simp
    show "budget m + (2 + need v) = budget (hooks b)" using m(2) m0(2) m1(2) unfolding b5(1) by simp
    show "at_text (b\<lparr>offset := length (pre @ x # ws @ ?q @ CHR '':'' # g @ t), hooks := m\<rparr>)
        (pre @ x # ws @ ?q @ CHR '':'' # g @ t) rest" using b(1) by (simp add: at_text_def)
  qed
qed

definition member_text :: "string \<Rightarrow> cJSON \<Rightarrow> string \<Rightarrow> string" where
  "member_text g c s = quoted (istring c) @ CHR '':'' # g @ s"

lemma parse_members_reads:
  assumes "list_all2 (\<lambda>c s. reads n d c s \<and> istring c \<noteq> None \<and> NUL \<notin> set (the (istring c)) \<and> visible s) cs ss"
    and "ss \<noteq> []" "at_text b pre (x # ws @ t @ gap2 @ CHR ''}'' # rest)" "blanks ws" "blanks gap" "blanks gap2" "blanks g"
    and "t = concat (map (\<lambda>s. s @ CHR '','' # gap) (butlast (map2 (member_text g) cs ss))) @ last (map2 (member_text g) cs ss)"
    and "needs 2 cs \<le> budget (hooks b)" "depth b = d" "length cs \<le> k"
  shows "\<exists>m. parse_members (parse_value n) k item head b
       = POk (set_child (head @ cs) (set_type cJSON_Object item))
           (b\<lparr>offset := length pre + 2 + length ws + length t + length gap2, depth := d - 1, hooks := m\<rparr>)
     \<and> budget m + needs 2 cs = budget (hooks b)"
  using assms
proof (induction cs ss arbitrary: b pre x ws t k head rule: list_all2_induct)
  case Nil
  then show ?case by simp
next
  case (Cons c cs s ss)
  obtain k' where k: "k = Suc k'" using Cons.prems(10) by (cases k) auto
  obtain key where key: "istring c = Some key" "NUL \<notin> set key" using Cons.hyps(1) by auto
  let ?ms = "map2 (member_text g) cs ss"
  let ?u = "concat (map (\<lambda>s. s @ CHR '','' # gap) (butlast ?ms)) @ last ?ms"
  let ?tail = "if ss = [] then gap2 @ CHR ''}'' # rest else CHR '','' # gap @ ?u @ gap2 @ CHR ''}'' # rest"
  let ?q = "quoted (Some key) @ CHR '':'' # g @ s"
  have lens: "length cs = length ss" using Cons.hyps(2) by (simp add: list_all2_lengthD)
  have ne: "?ms = [] \<longleftrightarrow> ss = []" using lens by (cases ss; cases cs) auto
  have tt: "t = (if ss = [] then ?q else ?q @ CHR '','' # gap @ ?u)"
    using Cons.prems(7) ne key(1) by (simp add: member_text_def)
  have at0: "at_text b pre (x # ws @ quoted (Some key) @ CHR '':'' # g @ s @ ?tail)"
    using Cons.prems(2) by (simp add: tt at_text_def)
  have nn: "?tail = [] \<or> \<not> number_char (hd ?tail)"
    using Cons.prems(5) by (cases gap2) (auto simp: number_char_def is_digit_def)
  obtain m0 named b1 m where m0: "cJSON_New_Item (hooks b) = Some (zero_item, m0)" "can_access_at_index b 1"
    and str: "parse_string zero_item (buffer_skip_whitespace (advance (b\<lparr>hooks := m0\<rparr>))) = POk named b1"
    and pk: "peek (buffer_skip_whitespace b1) = Some (CHR '':'')"
    and pv: "parse_value n (swap_name named) (buffer_skip_whitespace (advance (buffer_skip_whitespace b1)))
       = POk c (b\<lparr>offset := length (pre @ x # ws @ ?q), hooks := m\<rparr>)"
    and m: "budget m + (2 + need c) = budget (hooks b)"
    and at1: "at_text (b\<lparr>offset := length (pre @ x # ws @ ?q), hooks := m\<rparr>) (pre @ x # ws @ ?q) ?tail"
    by (rule parse_member [OF at0 Cons.prems(3,6) _ _ key _ _ nn]) (use Cons.hyps(1) Cons.prems(8,9) in auto)
  let ?b1 = "b\<lparr>offset := length (pre @ x # ws @ ?q), hooks := m\<rparr>"
  show ?case
  proof (cases "ss = []")
    case True
    then have at2: "at_text ?b1 (pre @ x # ws @ ?q) (gap2 @ CHR ''}'' # rest)" using at1 by simp
    have sk: "buffer_skip_whitespace ?b1 = ?b1\<lparr>offset := length (pre @ x # ws @ ?q) + length gap2\<rparr>"
      "at_text (buffer_skip_whitespace ?b1) ((pre @ x # ws @ ?q) @ gap2) (CHR ''}'' # rest)"
      using skip_at [OF at2 Cons.prems(5)] by simp_all
    have "peek (buffer_skip_whitespace ?b1) = Some (CHR ''}'')" using peek_at [OF sk(2)] by simp
    moreover have "cs = []" "length t = length ?q" using True lens tt by auto
    ultimately show ?thesis
      using m0 str pk pv sk(1) m Cons.prems(9)
      by (intro exI [of _ m], cases b) (simp add: k parse_success_def Let_def)
  next
    case False
    then have at2: "at_text ?b1 (pre @ x # ws @ ?q) (CHR '','' # gap @ ?u @ gap2 @ CHR ''}'' # rest)" using at1 by simp
    have sk: "buffer_skip_whitespace ?b1 = ?b1" by (rule skip_none [OF at2]) simp
    have pk2: "peek ?b1 = Some (CHR '','')" using peek_at [OF at2] by simp
    have len: "length t = length ?q + 1 + length gap + length ?u" using tt False by simp
    obtain m' where "parse_members (parse_value n) k' item (head @ [c]) ?b1
       = POk (set_child ((head @ [c]) @ cs) (set_type cJSON_Object item))
           (?b1\<lparr>offset := length (pre @ x # ws @ ?q) + 2 + length gap + length ?u + length gap2, depth := d - 1, hooks := m'\<rparr>)"
      "budget m' + needs 2 cs = budget (hooks ?b1)"
      using Cons.IH [OF False at2 Cons.prems(4,4,5,6) refl, of k' "head @ [c]"] m Cons.prems(8,9,10) k by auto
    then show ?thesis
      using m0 str pk pv sk pk2 m len
      by (intro exI [of _ m'], cases b) (simp add: k Let_def add.commute add.left_commute del: length_append length_concat, simp)
  qed
qed

subsection \<open>The text of a container as joined parts\<close>

definition join :: "string \<Rightarrow> string list \<Rightarrow> string" where
  "join gap ts = concat (map (\<lambda>s. s @ CHR '','' # gap) (butlast ts)) @ last ts"

lemma join_simps [simp]: "join gap [s] = s" "ts \<noteq> [] \<Longrightarrow> join gap (s # ts) = s @ CHR '','' # gap @ join gap ts"
  by (simp_all add: join_def)

lemma join_length: "s \<in> set ts \<Longrightarrow> length s \<le> length (join gap ts)"
proof (induction ts)
  case (Cons a ts)
  then show ?case by (cases "ts = []") auto
qed simp

lemma join_count: "ts \<noteq> [] \<Longrightarrow> (\<And>s. s \<in> set ts \<Longrightarrow> s \<noteq> []) \<Longrightarrow> length ts \<le> length (join gap ts)"
proof (induction ts)
  case (Cons a ts)
  show ?case
  proof (cases "ts = []")
    case True
    then show ?thesis using Cons.prems(2) [of a] by (cases a) auto
  next
    case False
    then have "length ts \<le> length (join gap ts)" using Cons by simp
    with False show ?thesis by simp
  qed
qed simp

lemma render_elements_join:
  "render_elements fmt d cs = Some t \<Longrightarrow>
     \<exists>ts. list_all2 (\<lambda>c s. render fmt d c = Some s) cs ts \<and> (cs \<noteq> [] \<longrightarrow> t = join (sep fmt '' '') ts) \<and> (cs = [] \<longrightarrow> t = [])"
proof (induction cs arbitrary: t)
  case (Cons c cs)
  then obtain s u where s: "render fmt d c = Some s" "render_elements fmt d cs = Some u"
    "t = s @ sep (cs \<noteq> []) (CHR '','' # sep fmt '' '') @ u" by (auto split: option.splits)
  obtain ts where ts: "list_all2 (\<lambda>c s. render fmt d c = Some s) cs ts" "cs \<noteq> [] \<longrightarrow> u = join (sep fmt '' '') ts" "cs = [] \<longrightarrow> u = []"
    using Cons.IH [OF s(2)] by blast
  have "cs = [] \<longleftrightarrow> ts = []" using ts(1) by auto
  with s ts show ?case by (intro exI [of _ "s # ts"]) (auto simp: sep_def)
qed simp

lemma render_members_join:
  "render_members fmt d cs = Some t \<Longrightarrow>
     \<exists>ss. list_all2 (\<lambda>c s. render fmt d c = Some s) cs ss \<and> (cs = [] \<longrightarrow> t = [])
      \<and> (cs \<noteq> [] \<longrightarrow> t = sep fmt (tabs d) @ join (sep fmt [CHR 0x0A] @ sep fmt (tabs d))
           (map2 (member_text (sep fmt [CHR 0x09])) cs ss) @ sep fmt [CHR 0x0A])"
proof (induction cs arbitrary: t)
  case (Cons c cs)
  let ?g = "sep fmt [CHR 0x09]"
  obtain s u where s: "render fmt d c = Some s" "render_members fmt d cs = Some u"
    "t = sep fmt (tabs d) @ member_text ?g c s @ sep (cs \<noteq> []) '','' @ sep fmt [CHR 0x0A] @ u"
    using Cons.prems by (auto simp: member_text_def split: option.splits)
  obtain ss where ss: "list_all2 (\<lambda>c s. render fmt d c = Some s) cs ss" "cs = [] \<longrightarrow> u = []"
    "cs \<noteq> [] \<longrightarrow> u = sep fmt (tabs d) @ join (sep fmt [CHR 0x0A] @ sep fmt (tabs d)) (map2 (member_text ?g) cs ss) @ sep fmt [CHR 0x0A]"
    using Cons.IH [OF s(2)] by blast
  have "cs = [] \<longleftrightarrow> ss = []" using ss(1) by auto
  moreover have "map2 (member_text ?g) cs ss = [] \<longleftrightarrow> ss = []" using ss(1) by (cases ss; cases cs) auto
  ultimately show ?case using s ss by (intro exI [of _ "s # ss"]) (cases "cs = []", auto simp: sep_def)
qed simp

subsection \<open>Every rendered text reads back\<close>

lemma dec_int_first: "\<exists>c r. dec_int i = c # r \<and> (c = CHR ''-'' \<or> is_digit c)"
  using dec_nat_nonempty [of "nat i"] dec_nat_hd [of "nat i"] by (cases "dec_nat (nat i)") (auto simp: dec_int_def)

lemma canon_number_text:
  "INT_MIN \<le> i \<Longrightarrow> i \<le> INT_MAX \<Longrightarrow> number_text (CJSON ty vs i (DNum (of_int i)) k ch) = dec_int i"
  using round_double_int [of i] by (simp add: number_text_def dbl_of_int_def deq_def INT_MIN_def INT_MAX_def abs_less_iff)

lemma visible_number: "visible (dec_int i)"
  using dec_int_first [of i] by (auto simp: visible_def is_digit_def)

lemma reads_literal:
  assumes "(ty = cJSON_NULL \<and> t = ''null'' \<and> vi = 0) \<or> (ty = cJSON_False \<and> t = ''false'' \<and> vi = 0)
     \<or> (ty = cJSON_True \<and> t = ''true'' \<and> vi = 1)"
  shows "reads (Suc n) d (CJSON ty None vi (DNum 0) k []) t"
  unfolding reads_def
proof (intro allI impI, elim conjE)
  fix b pre rest ty'
  assume a: "at_text b pre (t @ rest)"
  note st = starts_at [OF a] and off = a [unfolded at_text_def]
  have "parse_value (Suc n) (CJSON ty' None 0 (DNum 0) k []) b
      = POk (CJSON ty None vi (DNum 0) k []) (b\<lparr>offset := length pre + length t, hooks := hooks b\<rparr>)"
    using assms st off by auto
  moreover have "need (CJSON ty None vi (DNum 0) k []) = 0" using assms by (auto simp: type_defs)
  ultimately show "\<exists>m. parse_value (Suc n) (CJSON ty' None 0 (DNum 0) (istring (CJSON ty None vi (DNum 0) k [])) []) b
      = POk (CJSON ty None vi (DNum 0) k []) (b\<lparr>offset := length pre + length t, hooks := m\<rparr>)
      \<and> budget m + need (CJSON ty None vi (DNum 0) k []) = budget (hooks b)"
    by (intro exI [of _ "hooks b"]) simp
qed

lemma reads_number:
  assumes "INT_MIN \<le> i" "i \<le> INT_MAX" "v = CJSON cJSON_Number None i (DNum (of_int i)) (istring v) []"
  shows "reads (Suc n) d v (dec_int i)"
  unfolding reads_def
proof (intro allI impI, elim conjE)
  fix b pre rest ty
  assume a: "at_text b pre (dec_int i @ rest)" "rest = [] \<or> \<not> number_char (hd rest)" "need v \<le> budget (hooks b)" "depth b = d"
  have nd: "need v = 1" by (subst assms(3)) simp
  obtain c r where c: "dec_int i = c # r" "c = CHR ''-'' \<or> is_digit c" using dec_int_first by blast
  obtain m where m: "allocate (hooks b) = Some m" "budget m + 1 = budget (hooks b)"
    using a(3) nd by (auto simp: allocate_def)
  let ?item = "CJSON ty None 0 (DNum 0) (istring v) []"
  have "\<not> starts b ''null''" "\<not> starts b ''false''" "\<not> starts b ''true''" "peek b = Some c" "c \<noteq> CHR 0x22"
    using c(2) starts_at [OF a(1)] peek_at [OF a(1)] by (auto simp: c(1) is_digit_def)
  then have "parse_value (Suc n) ?item b = parse_number ?item b" using c(2) by simp
  also have "\<dots> = POk v (b\<lparr>offset := length pre + length (dec_int i), hooks := deallocate m\<rparr>)"
    by (subst (2) assms(3)) (simp add: parse_number_dec_int [OF a(1,2) assms(1,2) m(1)])
  finally show "\<exists>m. parse_value (Suc n) ?item b = POk v (b\<lparr>offset := length pre + length (dec_int i), hooks := m\<rparr>)
      \<and> budget m + need v = budget (hooks b)"
    using m(2) nd by (intro exI [of _ "deallocate m"]) simp
qed

lemma reads_string:
  assumes "NUL \<notin> set s" "v = CJSON cJSON_String (Some s) 0 (DNum 0) (istring v) []"
  shows "reads (Suc n) d v (quoted (Some s))"
  unfolding reads_def
proof (intro allI impI, elim conjE)
  fix b pre rest ty
  assume a: "at_text b pre (quoted (Some s) @ rest)" "need v \<le> budget (hooks b)"
  have nd: "need v = 1" by (subst assms(2)) (simp add: type_defs)
  obtain m where m: "allocate (hooks b) = Some m" "budget m + 1 = budget (hooks b)"
    using a(2) nd by (auto simp: allocate_def)
  let ?item = "CJSON ty None 0 (DNum 0) (istring v) []"
  have q: "quoted (Some s) = CHR 0x22 # escape_string s @ [CHR 0x22]" by (simp add: quoted_def)
  have "\<not> starts b ''null''" "\<not> starts b ''false''" "\<not> starts b ''true''" "peek b = Some (CHR 0x22)"
    using starts_at [OF a(1)] peek_at [OF a(1)] by (auto simp: q)
  then have "parse_value (Suc n) ?item b = parse_string ?item b" by simp
  also have "\<dots> = POk (set_valuestring (Some s) (set_type cJSON_String ?item)) (b\<lparr>offset := length pre + length (escape_string s) + 2, hooks := m\<rparr>)"
    by (rule parse_string_escaped [where rest = rest]) (use a(1) m assms(1) in \<open>auto simp: at_text_def q\<close>)
  also have "set_valuestring (Some s) (set_type cJSON_String ?item) = v" by (subst (2) assms(2)) simp
  finally show "\<exists>m. parse_value (Suc n) ?item b = POk v (b\<lparr>offset := length pre + length (quoted (Some s)), hooks := m\<rparr>)
      \<and> budget m + need v = budget (hooks b)"
    using m(2) nd by (intro exI [of _ m]) (simp add: q)
qed

lemma visible_render: "canon v \<Longrightarrow> render fmt d v = Some t \<Longrightarrow> visible t"
proof (cases v)
  case (CJSON ty vs vi vd k ch)
  assume "canon v" "render fmt d v = Some t"
  then show ?thesis
    using canon_number_text visible_number
    by (auto simp: CJSON type_defs Let_def visible_def quoted_def split: if_splits option.splits)
qed

lemma reads_array:
  assumes "list_all2 (\<lambda>c s. reads n (Suc d) c s \<and> istring c = None \<and> visible s) cs ts"
    and "t = (if cs = [] then [] else join (sep fmt '' '') ts)" "d < CJSON_NESTING_LIMIT" "length cs \<le> n"
  shows "reads (Suc n) d (CJSON cJSON_Array None 0 (DNum 0) k cs) (''['' @ t @ '']'')"
  unfolding reads_def
proof (intro allI impI, elim conjE)
  fix b pre rest ty
  let ?v = "CJSON cJSON_Array None 0 (DNum 0) k cs" and ?item = "CJSON ty None 0 (DNum 0) k []"
  assume a: "at_text b pre ((''['' @ t @ '']'') @ rest)" "need ?v \<le> budget (hooks b)" "depth b = d"
  have nd: "need ?v = needs 1 cs" by (simp add: type_defs)
  let ?b1 = "b\<lparr>depth := depth b + 1\<rparr>"
  have b0: "at_text b pre (CHR ''['' # t @ CHR '']'' # rest)" using a(1) by simp
  have b1: "at_text (advance ?b1) (pre @ [CHR ''['']) (t @ CHR '']'' # rest)"
    using at_text_advance [of ?b1 pre] b0 by simp
  have pv: "parse_value (Suc n) ?item b = parse_array (parse_value n) n ?item b"
    using starts_at [OF b0] peek_at [OF b0] by (simp add: is_digit_def)
  have "\<exists>m. parse_array (parse_value n) n ?item b
      = POk ?v (b\<lparr>offset := length pre + length (''['' @ t @ '']''), hooks := m\<rparr>) \<and> budget m + needs 1 cs = budget (hooks b)"
  proof (cases "cs = []")
    case True
    then have t: "t = []" using assms(2) by simp
    have sk: "buffer_skip_whitespace (advance ?b1) = advance ?b1" by (rule skip_none [of _ _ "CHR '']''"]) (use b1 t in simp_all)
    have "peek (advance ?b1) = Some (CHR '']'')" using peek_at [OF b1] t by simp
    then show ?thesis
      using b0 sk t True assms(3) a(3) rd_at [of ?b1 pre "CHR ''[''"]
      by (intro exI [of _ "hooks b"], cases b)
        (simp add: parse_array_def parse_success_def Let_def advance_def at_text_def)
  next
    case False
    then have t: "t = join (sep fmt '' '') ts" "ts \<noteq> []" using assms(1,2) by auto
    obtain s0 ss where ts: "ts = s0 # ss" "visible s0" using assms(1) t(2) False by (cases ts; cases cs) auto
    obtain c r where c: "t = c # r" "32 < ord c" "c \<noteq> CHR '']''"
      using ts(2) by (rule visibleE) (use t(1) ts(1) that in \<open>cases "ss = []", auto\<close>)
    have sk: "buffer_skip_whitespace (advance ?b1) = advance ?b1" by (rule skip_none [of _ _ c]) (use b1 c in simp_all)
    have pk: "peek (advance ?b1) = Some c" "can_access_at_index (advance ?b1) 0"
      using peek_at [OF b1] access_at [OF b1] c(1) by simp_all
    have o: "offset (advance ?b1) - 1 = offset b" "offset b = length pre" using b0 by (simp_all add: advance_def at_text_def)
    have b2: "at_text ?b1 pre (CHR ''['' # [] @ t @ CHR '']'' # rest)" using b0 by simp
    have "blanks (sep fmt '' '')" by simp
    then obtain m where m: "parse_elements (parse_value n) n ?item [] ?b1
        = POk (set_child ([] @ cs) (set_type cJSON_Array ?item))
           (?b1\<lparr>offset := length pre + 2 + length ([] :: string) + length t, depth := Suc d - 1, hooks := m\<rparr>)"
      "budget m + needs 1 cs = budget (hooks ?b1)"
      using parse_elements_reads [OF assms(1) t(2) b2 _ _ t(1) [unfolded join_def], of n ?item "[]"] a(2,3) nd assms(4) by auto
    have e: "(advance ?b1)\<lparr>offset := offset (advance ?b1) - 1\<rparr> = ?b1"
      unfolding o(1) by (cases b) (simp add: advance_def)
    have "\<not> CJSON_NESTING_LIMIT \<le> depth b" "rd ?b1 (offset ?b1) = Some (CHR ''['')" "peek (advance ?b1) \<noteq> Some (CHR '']'')"
      using assms(3) a(3) rd_at [of ?b1 pre] b0 pk(1) c(3) by auto
    then have "parse_array (parse_value n) n ?item b = parse_elements (parse_value n) n ?item [] ?b1"
      using pk(2) unfolding parse_array_def Let_def sk e by (simp only: if_False option.case not_True_eq_False simp_thms)
    with m a(3) show ?thesis by (intro exI [of _ m], cases b) simp
  qed
  then show "\<exists>m. parse_value (Suc n) (CJSON ty None 0 (DNum 0) (istring ?v) []) b
      = POk ?v (b\<lparr>offset := length pre + length (''['' @ t @ '']''), hooks := m\<rparr>) \<and> budget m + need ?v = budget (hooks b)"
    unfolding nd using pv by simp
qed

lemma reads_object:
  assumes "list_all2 (\<lambda>c s. reads n (Suc d) c s \<and> istring c \<noteq> None \<and> NUL \<notin> set (the (istring c)) \<and> visible s) cs ss"
    and "u = (if cs = [] then [] else join (nl @ tb) (map2 (member_text g) cs ss))"
    and "blanks nl" "blanks tb" "blanks g" "blanks fin" "blanks start"
    and "d < CJSON_NESTING_LIMIT" "length cs \<le> n"
  shows "reads (Suc n) d (CJSON cJSON_Object None 0 (DNum 0) k cs) (CHR ''{'' # start @ u @ fin @ ''}'')"
  unfolding reads_def
proof (intro allI impI, elim conjE)
  fix b pre rest ty
  let ?v = "CJSON cJSON_Object None 0 (DNum 0) k cs" and ?item = "CJSON ty None 0 (DNum 0) k []"
  let ?t = "CHR ''{'' # start @ u @ fin @ ''}''"
  assume a: "at_text b pre (?t @ rest)" "need ?v \<le> budget (hooks b)" "depth b = d"
  have nd: "need ?v = needs 2 cs" by (simp add: type_defs)
  let ?b1 = "b\<lparr>depth := depth b + 1\<rparr>"
  have b0: "at_text b pre (CHR ''{'' # start @ u @ fin @ CHR ''}'' # rest)" using a(1) by simp
  have b1: "at_text (advance ?b1) (pre @ [CHR ''{'']) (start @ u @ fin @ CHR ''}'' # rest)"
    using at_text_advance [of ?b1 pre] b0 by simp
  have pv: "parse_value (Suc n) ?item b = parse_object (parse_value n) n ?item b"
    using starts_at [OF b0] peek_at [OF b0] by (simp add: is_digit_def)
  have pk0: "peek ?b1 = Some (CHR ''{'')" using peek_at [of ?b1 pre] b0 by simp
  have "\<exists>m. parse_object (parse_value n) n ?item b
      = POk ?v (b\<lparr>offset := length pre + length ?t, hooks := m\<rparr>) \<and> budget m + needs 2 cs = budget (hooks b)"
  proof (cases "cs = []")
    case True
    then have u: "u = []" using assms(2) by simp
    have b2: "at_text (advance ?b1) (pre @ [CHR ''{'']) ((start @ fin) @ CHR ''}'' # rest)" using b1 u by simp
    have sk: "buffer_skip_whitespace (advance ?b1) = (advance ?b1)\<lparr>offset := length (pre @ [CHR ''{'']) + length (start @ fin)\<rparr>"
        "at_text (buffer_skip_whitespace (advance ?b1)) ((pre @ [CHR ''{'']) @ start @ fin) (CHR ''}'' # rest)"
      using skip_at [OF b2] assms(6,7) by simp_all
    have "peek (buffer_skip_whitespace (advance ?b1)) = Some (CHR ''}'')" using peek_at [OF sk(2)] by simp
    then show ?thesis
      using sk(1) u True assms(8) a(3) pk0
      by (intro exI [of _ "hooks b"], cases b) (simp add: parse_object_def parse_success_def Let_def advance_def)
  next
    case False
    let ?ms = "map2 (member_text g) cs ss"
    have "ss \<noteq> []" using assms(1) False by auto
    moreover from this have "?ms \<noteq> []" using False by (cases ss; cases cs) auto
    ultimately have ss: "ss \<noteq> []" "?ms \<noteq> []" by auto
    then have u: "u = join (nl @ tb) ?ms" using assms(2) False by simp
    obtain r where r: "u = CHR 0x22 # r"
      using u ss False by (cases ss; cases cs; cases "map2 (member_text g) (tl cs) (tl ss) = []")
        (auto simp: member_text_def quoted_def)
    have b2: "at_text (advance ?b1) (pre @ [CHR ''{'']) (start @ CHR 0x22 # r @ fin @ CHR ''}'' # rest)" using b1 r by simp
    let ?sk = "buffer_skip_whitespace (advance ?b1)"
    have sk: "?sk = (advance ?b1)\<lparr>offset := length (pre @ [CHR ''{'']) + length start\<rparr>"
        "at_text ?sk ((pre @ [CHR ''{'']) @ start) (CHR 0x22 # r @ fin @ CHR ''}'' # rest)"
      using skip_at [OF b2 assms(7)] by simp_all
    have pk: "peek ?sk = Some (CHR 0x22)" "can_access_at_index ?sk 0" using peek_at [OF sk(2)] access_at [OF sk(2)] by simp_all
    let ?b3 = "?sk\<lparr>offset := offset ?sk - 1\<rparr>"
    define pre3 where "pre3 = butlast (pre @ CHR ''{'' # start)"
    define x where "x = last (pre @ CHR ''{'' # start)"
    have "pre3 @ [x] = pre @ CHR ''{'' # start" unfolding pre3_def x_def by (rule append_butlast_last_id) simp
    moreover have "length pre3 = length pre + length start" unfolding pre3_def length_butlast by simp
    ultimately have px: "pre3 @ [x] = pre @ CHR ''{'' # start" "length pre3 = length pre + length start" by blast+
    have e3: "?b3 = ?b1\<lparr>offset := length pre3\<rparr>" unfolding sk(1) px(2) by (cases b) (simp add: advance_def)
    have c3: "content b = (pre3 @ [x]) @ u @ fin @ CHR ''}'' # rest" using b0 unfolding px(1) by (simp add: at_text_def)
    have b3: "at_text ?b3 pre3 (x # [] @ u @ fin @ CHR ''}'' # rest)"
      unfolding e3 using b0 c3 px(2) by (simp add: at_text_def)
    obtain m where m: "parse_members (parse_value n) n ?item [] ?b3
        = POk (set_child ([] @ cs) (set_type cJSON_Object ?item))
           (?b3\<lparr>offset := length pre3 + 2 + length ([] :: string) + length u + length fin, depth := Suc d - 1, hooks := m\<rparr>)"
      "budget m + needs 2 cs = budget (hooks ?b3)"
    proof -
      have "blanks ([] :: string)" "blanks (nl @ tb)" using assms(3,4) by simp_all
      moreover have "needs 2 cs \<le> budget (hooks ?b3)" "depth ?b3 = Suc d" using a(2,3) nd by (simp_all add: e3)
      ultimately show thesis
        using parse_members_reads [OF assms(1) ss(1) b3 _ _ assms(6,5) u [unfolded join_def], of n ?item "[]"] assms(9) that
        by blast
    qed
    have "parse_object (parse_value n) n ?item b = parse_members (parse_value n) n ?item [] ?b3"
      using assms(8) a(3) pk0 pk by (simp add: parse_object_def Let_def)
    with m a(3) px(2) show ?thesis unfolding e3 by (intro exI [of _ m], cases b) simp
  qed
  then show "\<exists>m. parse_value (Suc n) (CJSON ty None 0 (DNum 0) (istring ?v) []) b
      = POk ?v (b\<lparr>offset := length pre + length ?t, hooks := m\<rparr>) \<and> budget m + need ?v = budget (hooks b)"
    unfolding nd using pv by simp
qed

lemma reads_render:
  "canon v \<Longrightarrow> render fmt d v = Some t \<Longrightarrow> length t < n \<Longrightarrow> reads n d v t"
proof (induction v arbitrary: d t n rule: measure_induct_rule [of size])
  case (less v)
  obtain n' where n: "n = Suc n'" "length t \<le> n'" using less.prems(3) by (cases n) auto
  obtain ty vs vi vd k ch where v: "v = CJSON ty vs vi vd k ch" by (cases v)
  have IH: "list_all2 (\<lambda>c s. reads n' (Suc d) c s \<and> canon c \<and> visible s) ch ts"
    if "list_all2 (\<lambda>c s. render fmt (Suc d) c = Some s) ch ts" "\<forall>c \<in> set ch. canon c" "\<forall>s \<in> set ts. length s < n'" for ts
  proof (rule list.rel_mono_strong [OF that(1)])
    fix c s
    assume c: "c \<in> set ch" "s \<in> set ts" "render fmt (Suc d) c = Some s"
    have "size c < size v" using c(1) using size_list_estimation' [OF c(1), of "size c" size] by (simp add: v)
    then show "reads n' (Suc d) c s \<and> canon c \<and> visible s"
      using less.IH that(2,3) c visible_render by blast
  qed
  have canon: "canon (CJSON ty vs vi vd k ch)" using less.prems(1) v by simp
  consider (lit) "ty \<in> {cJSON_NULL, cJSON_False, cJSON_True}" | (num) "ty = cJSON_Number" | (str) "ty = cJSON_String"
    | (arr) "ty = cJSON_Array" | (obj) "ty = cJSON_Object" using canon by auto
  then show ?case
  proof cases
    case lit
    then show ?thesis using canon less.prems(2) reads_literal unfolding v n(1)
      by (auto simp: type_defs Let_def)
  next
    case num
    then have "vs = None" "vd = DNum (of_int vi)" "ch = []" "INT_MIN \<le> vi" "vi \<le> INT_MAX"
      using canon by (auto simp: type_defs)
    then show ?thesis using num less.prems(2) reads_number [of vi v] canon_number_text unfolding v n(1)
      by (simp add: type_defs Let_def)
  next
    case str
    then obtain s where "vs = Some s" "NUL \<notin> set s" "vi = 0" "vd = DNum 0" "ch = []"
      using canon by (auto simp: type_defs)
    then show ?thesis using str less.prems(2) reads_string [of s v] unfolding v n(1)
      by (simp add: type_defs Let_def)
  next
    case arr
    then have c: "vs = None" "vi = 0" "vd = DNum 0" "\<forall>c \<in> set ch. canon c \<and> istring c = None"
      using canon by (auto simp: type_defs)
    obtain u where u: "render_elements fmt (Suc d) ch = Some u" "t = ''['' @ u @ '']''" "d < CJSON_NESTING_LIMIT"
      using less.prems(2) arr unfolding v by (auto simp: type_defs Let_def split: if_splits)
    obtain ts where ts: "list_all2 (\<lambda>c s. render fmt (Suc d) c = Some s) ch ts"
      "ch \<noteq> [] \<longrightarrow> u = join (sep fmt '' '') ts" "ch = [] \<longrightarrow> u = []"
      using render_elements_join [OF u(1)] by blast
    have short: "\<forall>s \<in> set ts. length s < n'"
    proof
      fix s assume s: "s \<in> set ts"
      then have "u = join (sep fmt '' '') ts" using ts(1,2) by (cases ch) auto
      then show "length s < n'" using join_length [OF s, of "sep fmt '' ''"] n(2) u(2) by simp
    qed
    have rd: "list_all2 (\<lambda>c s. reads n' (Suc d) c s \<and> istring c = None \<and> visible s) ch ts"
      by (rule list.rel_mono_strong [OF IH [OF ts(1) _ short]]) (use c(4) in auto)
    have "length ch \<le> n'"
    proof (cases "ch = []")
      case False
      then have "ts \<noteq> []" using ts(1) by auto
      moreover have "s \<noteq> []" if "s \<in> set ts" for s
        using rd that by (auto simp: list_all2_conv_all_nth in_set_conv_nth visible_def)
      ultimately have "length ts \<le> length u" using join_count [of ts "sep fmt '' ''"] ts(2) False by simp
      then show ?thesis using n(2) u(2) list_all2_lengthD [OF ts(1)] by simp
    qed simp
    moreover have "u = (if ch = [] then [] else join (sep fmt '' '') ts)" using ts(2,3) by simp
    ultimately show ?thesis using reads_array [OF rd _ u(3)] unfolding v n(1) arr u(2) c(1-3) by blast
  next
    case obj
    then have c: "vs = None" "vi = 0" "vd = DNum 0"
      "\<forall>c \<in> set ch. canon c \<and> istring c \<noteq> None \<and> NUL \<notin> set (the (istring c))"
      using canon by (auto simp: type_defs)
    let ?nl = "sep fmt [CHR 0x0A]" and ?g = "sep fmt [CHR 0x09]" and ?tb = "sep fmt (tabs (Suc d))"
    obtain w where w: "render_members fmt (Suc d) ch = Some w" "t = CHR ''{'' # ?nl @ w @ sep fmt (tabs d) @ ''}''" "d < CJSON_NESTING_LIMIT"
      using less.prems(2) obj unfolding v by (auto simp: type_defs Let_def split: if_splits)
    obtain ss where ss: "list_all2 (\<lambda>c s. render fmt (Suc d) c = Some s) ch ss" "ch = [] \<longrightarrow> w = []"
      "ch \<noteq> [] \<longrightarrow> w = ?tb @ join (?nl @ ?tb) (map2 (member_text ?g) ch ss) @ ?nl"
      using render_members_join [OF w(1)] by blast
    let ?ms = "map2 (member_text ?g) ch ss"
    have len: "length ch = length ss" using list_all2_lengthD [OF ss(1)] .
    have ml: "length m \<le> length w" if "m \<in> set ?ms" for m
    proof -
      have "ch \<noteq> []" using that by auto
      then show ?thesis using join_length [OF that, of "?nl @ ?tb"] ss(3) by simp
    qed
    have short: "\<forall>s \<in> set ss. length s < n'"
    proof
      fix s assume "s \<in> set ss"
      then obtain i where i: "i < length ss" "s = ss ! i" by (auto simp: in_set_conv_nth)
      then have "member_text ?g (ch ! i) s \<in> set ?ms" using len by (auto simp: set_zip)
      from ml [OF this] show "length s < n'" using n(2) w(2) by (simp add: member_text_def)
    qed
    have rd: "list_all2 (\<lambda>c s. reads n' (Suc d) c s \<and> istring c \<noteq> None \<and> NUL \<notin> set (the (istring c)) \<and> visible s) ch ss"
      by (rule list.rel_mono_strong [OF IH [OF ss(1) _ short]]) (use c(4) in auto)
    have cnt: "length ch \<le> n'"
    proof (cases "ch = []")
      case False
      then have "?ms \<noteq> []" using len by (cases ss; cases ch) auto
      moreover have "m \<noteq> []" if "m \<in> set ?ms" for m using that by (auto simp: member_text_def)
      ultimately have "length ?ms \<le> length (join (?nl @ ?tb) ?ms)" by (rule join_count)
      then show ?thesis using n(2) w(2) ss(3) False len by simp
    qed simp
    define u where "u = (if ch = [] then [] else join (?nl @ ?tb) ?ms)"
    let ?fin = "if ch = [] then sep fmt (tabs d) else ?nl @ sep fmt (tabs d)"
    let ?start = "if ch = [] then ?nl else ?nl @ ?tb"
    have "reads (Suc n') d (CJSON cJSON_Object None 0 (DNum 0) k ch) (CHR ''{'' # ?start @ u @ ?fin @ ''}'')"
      by (rule reads_object [OF rd u_def _ _ _ _ _ w(3) cnt]) simp_all
    moreover have "CHR ''{'' # ?start @ u @ ?fin @ ''}'' = t" using w(2) ss(2,3) by (simp add: u_def)
    ultimately show ?thesis unfolding v n(1) obj c(1-3) by simp
  qed
qed

subsection \<open>Printing and parsing back\<close>

lemma is_double_int: "INT_MIN \<le> i \<Longrightarrow> i \<le> INT_MAX \<Longrightarrow> is_double (DNum (of_int i))"
proof (cases "i = 0")
  case False
  assume i: "INT_MIN \<le> i" "i \<le> INT_MAX"
  have "(1 :: rat) \<le> of_int \<bar>i\<bar>" using False by linarith
  moreover have "(1 :: rat) / 2 ^ 1074 \<le> 1" by simp
  ultimately have "1 / 2 ^ 1074 \<le> \<bar>rat_of_int i\<bar>" by linarith
  moreover have "\<bar>rat_of_int i\<bar> < 2 ^ 1024"
  proof -
    have "of_int \<bar>i\<bar> \<le> (of_int (2 ^ 31) :: rat)" using i by (simp only: of_int_le_iff) (simp add: INT_MIN_def INT_MAX_def)
    also have "\<dots> < 2 ^ 1024" by simp
    finally show ?thesis by simp
  qed
  ultimately show ?thesis by (simp add: is_double_def)
qed (simp add: is_double_def)

lemma canon_c_item: "canon v \<Longrightarrow> c_string (istring v) \<Longrightarrow> c_item v"
proof (induction v rule: canon.induct)
  case (1 ty vs vi vd k ch)
  have "c_item c" if "c \<in> set ch" for c
  proof -
    have "canon c \<and> c_string (istring c)" using 1(3) that by (auto simp: c_string_def)
    then show ?thesis using 1(1,2) that 1(3) by auto
  qed
  moreover have "is_double vd" "INT_MIN \<le> vi" "vi \<le> INT_MAX" using 1(3) is_double_int
    by (auto simp: is_double_def)
  moreover have "c_string vs" using 1(3) by (auto simp: c_string_def)
  ultimately show ?case using 1(4) by simp
qed

text \<open>Parsing a rendered text that stands before other bytes.\<close>

lemma parse_rendered_value:
  assumes "canon v" "istring v = None" "render fmt 0 v = Some t" "need v < budget m"
    and "rest = [] \<or> \<not> number_char (hd rest)"
  obtains m0 m1 where "cJSON_New_Item m = Some (zero_item, m0)"
    "skip_utf8_bom \<lparr>content = t @ rest @ [NUL], plength = length (t @ rest) + 1, offset = 0, depth = 0, hooks = m0\<rparr>
       = Some \<lparr>content = t @ rest @ [NUL], plength = length (t @ rest) + 1, offset = 0, depth = 0, hooks = m0\<rparr>"
    "parse_value (parse_fuel (length (t @ rest) + 1)) zero_item (buffer_skip_whitespace
         \<lparr>content = t @ rest @ [NUL], plength = length (t @ rest) + 1, offset = 0, depth = 0, hooks = m0\<rparr>)
       = POk v \<lparr>content = t @ rest @ [NUL], plength = length (t @ rest) + 1, offset = length t, depth = 0, hooks = m1\<rparr>"
proof -
  obtain m0 where m0: "cJSON_New_Item m = Some (zero_item, m0)" "Suc (budget m0) = budget m"
    using New_Item_budget [of m] assms(4) by auto
  obtain c r where c: "t = c # r" "32 < ord c" "c \<noteq> CHR 0xEF"
    using visible_render [OF assms(1,3)] by (cases t) (auto simp: visible_def)
  let ?b = "\<lparr>content = t @ rest @ [NUL], plength = length (t @ rest) + 1, offset = 0, depth = 0, hooks = m0\<rparr>"
  have b: "at_text ?b [] (t @ rest @ [NUL])" by (simp add: at_text_def)
  have bom: "skip_utf8_bom ?b = Some ?b" using c by (simp add: skip_utf8_bom_def utf8_bom_def)
  have sk: "buffer_skip_whitespace ?b = ?b"
    by (rule skip_none [of _ "[]" c "r @ rest @ [NUL]"]) (use b c in simp_all)
  have "reads (parse_fuel (length (t @ rest) + 1)) 0 v t" using reads_render [OF assms(1,3)] by (simp add: parse_fuel_def)
  moreover have "at_text ?b [] (t @ (rest @ [NUL])) \<and> (rest @ [NUL] = [] \<or> \<not> number_char (hd (rest @ [NUL])))
      \<and> need v \<le> budget (hooks ?b) \<and> depth ?b = 0"
    using b m0(2) assms(4,5) by (cases rest) (auto simp: number_char_def is_digit_def)
  ultimately obtain m1 where m1: "parse_value (parse_fuel (length (t @ rest) + 1)) (CJSON 0 None 0 (DNum 0) (istring v) []) ?b
      = POk v (?b\<lparr>offset := length ([] :: string) + length t, hooks := m1\<rparr>)"
    unfolding reads_def by blast
  show thesis
    by (rule that [OF m0(1) bom]) (use m1 sk assms(2) in \<open>simp add: zero_item_def\<close>)
qed

lemma parse_rendered_rest:
  assumes "canon v" "istring v = None" "render fmt 0 v = Some t" "rest = [] \<or> \<not> number_char (hd rest)" "need v < budget m"
  shows "\<exists>m'. cJSON_ParseWithOpts (Some (t @ rest)) False m = Some (Parsed v (length t) m')"
  by (rule parse_rendered_value [OF assms(1-3,5,4)])
    (simp add: cJSON_ParseWithOpts_def cJSON_ParseWithLengthOpts_def Let_def)

lemma parse_rendered:
  assumes "canon v" "istring v = None" "render fmt 0 v = Some t" "need v < budget m"
  shows "\<exists>m'. cJSON_ParseWithOpts (Some t) req m = Some (Parsed v (length t) m')"
proof (rule parse_rendered_value [OF assms, of "[]"])
  fix m0 m1
  let ?b = "\<lambda>n m. \<lparr>content = t @ [] @ [NUL], plength = length (t @ []) + 1, offset = n, depth = 0, hooks = m\<rparr>"
  assume a: "cJSON_New_Item m = Some (zero_item, m0)" "skip_utf8_bom (?b 0 m0) = Some (?b 0 m0)"
    "parse_value (parse_fuel (length (t @ []) + 1)) zero_item (buffer_skip_whitespace (?b 0 m0)) = POk v (?b (length t) m1)"
  have "at_text (?b (length t) m1) t [NUL]" by (simp add: at_text_def)
  then have pk: "peek (?b (length t) m1) = Some NUL" using peek_at by fastforce
  have "skip_loop (t @ [NUL]) (Suc (length t)) (length t) = Suc (length t)"
    by (subst skip_loop.simps, simp, subst skip_loop.simps, simp)
  then have "buffer_skip_whitespace (?b (length t) m1) = ?b (length t) m1"
    by (simp add: buffer_skip_whitespace_def Let_def can_access_at_index_def)
  with a pk show ?thesis
    by (simp add: cJSON_ParseWithOpts_def cJSON_ParseWithLengthOpts_def Let_def)
qed simp



end
