(* ===== verification/Telemetry_Json.thy ===== *)
theory Telemetry_Json
  imports Telemetry CJson_Roundtrip
begin

text \<open>
  The JSON the telemetry server reads and writes: what cJSON prints for a configuration is read
  back by \<open>parse_config_file\<close>, and the message that \<open>broadcast_telemetry\<close> formats by hand is the
  JSON text of its record, provided the version needs no escaping.
\<close>

definition config_tree :: "string \<Rightarrow> int \<Rightarrow> cJSON" where
  "config_tree ver per =
     CJSON cJSON_Object None 0 (DNum 0) None
       [CJSON cJSON_String (Some ver) 0 (DNum 0) (Some ''sw_version'') [],
        CJSON cJSON_Number None per (DNum (of_int per)) (Some ''period'') []]"

lemma canon_config: "NUL \<notin> set v \<Longrightarrow> INT_MIN \<le> p \<Longrightarrow> p \<le> INT_MAX \<Longrightarrow> canon (config_tree v p)"
  by (simp add: config_tree_def type_defs)

lemma need_config: "need (config_tree v p) = 6"
  by (simp add: config_tree_def type_defs)

lemma render_config_Some: "\<exists>t. render fmt 0 (config_tree v p) = Some t \<and> t \<noteq> []"
  by (simp add: config_tree_def type_defs CJSON_NESTING_LIMIT_def Let_def)

lemma config_lookup:
  "cJSON_GetObjectItemCaseSensitive (Some (config_tree v p)) (Some ''sw_version'')
     = Some (CJSON cJSON_String (Some v) 0 (DNum 0) (Some ''sw_version'') [])"
  "cJSON_GetObjectItemCaseSensitive (Some (config_tree v p)) (Some ''period'')
     = Some (CJSON cJSON_Number None p (DNum (of_int p)) (Some ''period'') [])"
  by (simp_all add: config_tree_def cJSON_GetObjectItemCaseSensitive_def get_object_item_def)

text \<open>C25: A configuration written by cJSON, formatted or not, is read by \<open>parse_config_file\<close> as it was:
  the version (cut to the 63 bytes that fit) and the period, with everything freed again. Nothing
  restricts the period: 0 and negative values are accepted.\<close>

theorem config_file_roundtrip:
  assumes "NUL \<notin> set v" "INT_MIN \<le> p" "p \<le> INT_MAX" "render fmt 0 (config_tree v p) = Some t" "8 \<le> budget m"
  shows "\<exists>m'. parse_config_file (Some t) SW_LEN vp m = Some (True, (snprintf_s SW_LEN v, p), m') \<and> live m' = live m"
proof -
  obtain m1 where m1: "allocate m = Some m1" "Suc (budget m1) = budget m"
    using assms(5) by (auto simp: allocate_def)
  have c: "canon (config_tree v p)" "istring (config_tree v p) = None"
    using canon_config assms(1-3) by (simp, simp add: config_tree_def)
  have "NUL \<notin> set t" using render_no_NUL(1) [OF canon_c_item [OF c(1)] assms(4)] c(2) by (simp add: c_string_def)
  then have s: "cstr (t @ [NUL]) = t" using cstr_append_NUL [of t "[]"] by simp
  obtain m2 where "cJSON_Parse (Some t) m1 = Some (Parsed (config_tree v p) (length t) m2)"
    using parse_rendered [OF c assms(4), of m1 False] need_config [of v p] m1(2) assms(5)
    by (auto simp: cJSON_Parse_def)
  moreover have "t \<noteq> []" using render_config_Some [of fmt v p] assms(4) by auto
  ultimately have r: "parse_config_file (Some t) SW_LEN vp m =
      Some (True, (snprintf_s SW_LEN v, p), cJSON_Delete [config_tree v p] (deallocate m2))"
    using m1(1) s by (simp add: parse_config_file_def config_lookup Let_def Is_defs type_defs)
  obtain ok vp' m' where "parse_config_file (Some t) SW_LEN vp m = Some (ok, vp', m')" "live m' = live m"
    by (rule parse_config_file_total [of SW_LEN "Some t" vp m]) (simp_all add: SW_LEN_def)
  with r show ?thesis by auto
qed

theorem config_file_roundtrip_witness:
  "\<exists>m'. parse_config_file
       (Some (the (render True 0 (config_tree ''1.0'' 0)))) SW_LEN (''x'', 5) \<lparr>budget = 9, live = 4\<rparr>
     = Some (True, (snprintf_s SW_LEN ''1.0'', 0), m') \<and> live m' = live \<lparr>budget = 9, live = 4\<rparr>"
proof (rule config_file_roundtrip)
  show "render True 0 (config_tree ''1.0'' 0) = Some (the (render True 0 (config_tree ''1.0'' 0)))"
    using render_config_Some [of True "''1.0''" 0] by auto
qed simp_all

subsection \<open>The telemetry message\<close>

definition telemetry_tree :: "nat \<Rightarrow> int \<Rightarrow> string \<Rightarrow> int \<Rightarrow> cJSON" where
  "telemetry_tree n ts v p =
     CJSON cJSON_Object None 0 (DNum 0) None
       [CJSON cJSON_String (Some ''telemetry'') 0 (DNum 0) (Some ''type'') [],
        CJSON cJSON_Number None (int n) (DNum (of_nat n)) (Some ''id'') [],
        CJSON cJSON_Number None ts (DNum (of_int ts)) (Some ''ts'') [],
        CJSON cJSON_String (Some v) 0 (DNum 0) (Some ''sw_version'') [],
        CJSON cJSON_Number None p (DNum (of_int p)) (Some ''period'') []]"

lemma plain_escape:
  "escape_characters v = 0 \<Longrightarrow> escape_string v = v" "escape_string ''telemetry'' = ''telemetry''"
  "escape_string ''type'' = ''type''" "escape_string ''id'' = ''id''" "escape_string ''ts'' = ''ts''"
  "escape_string ''sw_version'' = ''sw_version''" "escape_string ''period'' = ''period''"
  by (simp_all add: escape_string_id) (simp_all add: escape_string_def escape_char_def)

lemma number_text_nat:
  "int k \<le> INT_MAX \<Longrightarrow> number_text (CJSON ty vs (int k) (DNum (of_nat k)) key ch) = dec_nat k"
  using canon_number_text [of "int k" ty vs key ch] by (simp add: dec_int_def INT_MIN_def)

lemma render_telemetry:
  assumes "escape_characters v = 0" "int (unat n) \<le> INT_MAX" "INT_MIN \<le> ts" "ts \<le> INT_MAX" "INT_MIN \<le> p" "p \<le> INT_MAX"
  shows "\<exists>t. render False 0 (telemetry_tree (unat n) ts v p) = Some t \<and> telemetry_text n ts v p = t @ [CHR 0x0A]"
proof -
  define N where "N = unat n"
  note num = number_text_nat [OF assms(2) [folded N_def]]
  show ?thesis
    unfolding telemetry_text_def N_def [symmetric]
    using num canon_number_text [OF assms(3,4)] canon_number_text [OF assms(5,6)]
    by (simp add: telemetry_tree_def type_defs CJSON_NESTING_LIMIT_def Let_def quoted_def sep_def
        plain_escape assms(1))
qed

lemma canon_telemetry:
  "NUL \<notin> set v \<Longrightarrow> int k \<le> INT_MAX \<Longrightarrow> INT_MIN \<le> ts \<Longrightarrow> ts \<le> INT_MAX \<Longrightarrow> INT_MIN \<le> p \<Longrightarrow> p \<le> INT_MAX \<Longrightarrow>
     canon (telemetry_tree k ts v p)"
  by (simp add: telemetry_tree_def type_defs INT_MIN_def)



end
