(* ===== verification/CJson_Compare.thy ===== *)
theory CJson_Compare
  imports CJson_Access "HOL-Library.Multiset"
begin

text \<open>
  \<open>cJSON_Compare\<close> of \<open>seance6/project/cJSON.c\<close>: structural equality of two trees. The members of an
  object are looked up by name in the other object, once from each side.
\<close>

lemma get_object_item_mem: "get_object_item (Some ob) nm cs = Some c \<Longrightarrow> c \<in> set (child ob)"
proof -
  have ci: "find_case_insensitive n xs = Some c \<Longrightarrow> c \<in> set xs" for n xs
    by (induction xs) (auto split: if_splits)
  assume "get_object_item (Some ob) nm cs = Some c"
  then show ?thesis
    by (auto simp: get_object_item_def dest: find_case_sensitive_mem ci split: option.splits if_splits)
qed

lemma size_child: "size_list size (child v) < size v"
  by (cases v) simp

lemma size_member: "c \<in> set (child v) \<Longrightarrow> size c < size v"
  using size_child [of v] size_list_estimation' [of c "child v" "size c" size] by fastforce

text \<open>
  \<open>identical\<close> is the pointer test \<open>a == b\<close>. Below the top the two trees have no node in common, so it
  fails there.
\<close>

function compare :: "bool \<Rightarrow> bool \<Rightarrow> cJSON \<Rightarrow> cJSON \<Rightarrow> bool"
  and compare_elements :: "bool \<Rightarrow> cJSON list \<Rightarrow> cJSON list \<Rightarrow> bool"
  and compare_members :: "bool \<Rightarrow> cJSON list \<Rightarrow> cJSON \<Rightarrow> bool" where
  "compare identical case_sensitive a b =
     (let t = itype a AND 0xFF
      in if t \<noteq> itype b AND 0xFF then False
         else if t \<notin> {cJSON_False, cJSON_True, cJSON_NULL, cJSON_Number, cJSON_String, cJSON_Raw, cJSON_Array, cJSON_Object} then False
         else if identical then True
         else if t = cJSON_False \<or> t = cJSON_True \<or> t = cJSON_NULL then True
         else if t = cJSON_Number then compare_double (valuedouble a) (valuedouble b)
         else if t = cJSON_String \<or> t = cJSON_Raw then
           (case (valuestring a, valuestring b) of (Some s1, Some s2) \<Rightarrow> s1 = s2 | _ \<Rightarrow> False)
         else if t = cJSON_Array then compare_elements case_sensitive (child a) (child b)
         else compare_members case_sensitive (child a) b \<and> compare_members case_sensitive (child b) a)"
| "compare_elements case_sensitive [] bs \<longleftrightarrow> bs = []"
| "compare_elements case_sensitive (x # xs) [] \<longleftrightarrow> False"
| "compare_elements case_sensitive (x # xs) (y # ys) \<longleftrightarrow>
     compare False case_sensitive x y \<and> compare_elements case_sensitive xs ys"
| "compare_members case_sensitive [] object \<longleftrightarrow> True"
| "compare_members case_sensitive (x # xs) object \<longleftrightarrow>
     (case get_object_item (Some object) (istring x) case_sensitive of
        None \<Rightarrow> False
      | Some y \<Rightarrow> compare False case_sensitive x y \<and> compare_members case_sensitive xs object)"
  by pat_completeness auto

termination
proof (relation "measure (\<lambda>s. case s of Inl (_, _, a, b) \<Rightarrow> size a + size b
    | Inr (Inl (_, xs, ys)) \<Rightarrow> size_list size xs + size_list size ys
    | Inr (Inr (_, xs, ob)) \<Rightarrow> size_list size xs + size ob)", goal_cases)
  case (7 cs x xs ob y)
  then show ?case using size_member [OF get_object_item_mem [OF 7]] by simp
qed (use size_child in \<open>fastforce intro: add_strict_mono\<close>)+

definition cJSON_Compare :: "bool \<Rightarrow> cJSON option \<Rightarrow> cJSON option \<Rightarrow> bool \<Rightarrow> bool" where
  "cJSON_Compare identical a b case_sensitive =
     (case (a, b) of (Some x, Some y) \<Rightarrow> compare identical case_sensitive x y | _ \<Rightarrow> False)"

declare compare.simps [simp del]

subsection \<open>Symmetry\<close>

lemma round_even_minus: "round_even (- x) = - round_even x"
proof (cases "x = of_int \<lfloor>x\<rfloor>")
  case True
  then obtain n where n: "x = of_int n" by blast
  then show ?thesis using round_even_int [of n] round_even_int [of "- n"] by simp
next
  case False
  then have "\<lfloor>- x\<rfloor> = - \<lfloor>x\<rfloor> - 1" by linarith
  then show ?thesis by (auto simp: round_even_def Let_def)
qed

lemma fabs_round_double_minus: "fabs (round_double (- x)) = fabs (round_double x)"
  by (simp add: round_double_def Let_def)

lemma fabs_dsub_commute: "fabs (dsub a b) = fabs (dsub b a)"
proof (cases "\<exists>x y. a = DNum x \<and> b = DNum y")
  case True
  then obtain x y where "a = DNum x" "b = DNum y" by blast
  then show ?thesis using fabs_round_double_minus [of "y - x"] by simp
next
  case False
  then show ?thesis by (cases a; cases b) auto
qed

lemma dle_inf [simp]: "dle (DInf s) (DInf t) \<longleftrightarrow> s \<or> \<not> t"
  by (cases s; cases t) simp_all

lemma dle_antisym: "dle a b \<Longrightarrow> dle b a \<Longrightarrow> a = b"
  by (cases "(a, b)" rule: dle.cases) (auto split: if_splits)

lemma dle_total: "a \<noteq> DNaN \<Longrightarrow> b \<noteq> DNaN \<Longrightarrow> dle a b \<or> dle b a"
  by (cases "(a, b)" rule: dle.cases) auto

lemma compare_double_commute: "compare_double a b = compare_double b a"
proof (cases "a = DNaN \<or> b = DNaN")
  case True
  then have "dsub a b = DNaN" "dsub b a = DNaN" by (cases a; cases b; auto)+
  then show ?thesis by (simp add: compare_double_def)
next
  case False
  have "fabs a \<noteq> DNaN" "fabs b \<noteq> DNaN" using False by (cases a; cases b; simp)+
  then show ?thesis
    using False dle_antisym [of "fabs a" "fabs b"] dle_total [of "fabs a" "fabs b"]
    by (auto simp: compare_double_def Let_def fabs_dsub_commute [of a b])
qed

lemma compare_commute:
  "compare identical cs a b = compare identical cs b a"
  "compare_elements cs xs ys = compare_elements cs ys xs"
  "compare_members cs zs ob = compare_members cs zs ob"
proof (induction identical cs a b and cs xs ys and cs zs ob rule: compare_compare_elements_compare_members.induct)
  case (1 identical cs a b)
  show ?case
  proof (cases "itype a AND 0xFF = itype b AND 0xFF")
    case True
    have el: "compare_elements cs (child a) (child b) = compare_elements cs (child b) (child a)"
      if "itype b AND 0xFF = cJSON_Array" "\<not> identical"
      using 1(1) [OF refl] True that by (simp add: type_defs)
    have str: "(case (valuestring a, valuestring b) of (Some s1, Some s2) \<Rightarrow> s1 = s2 | _ \<Rightarrow> False)
        = (case (valuestring b, valuestring a) of (Some s1, Some s2) \<Rightarrow> s1 = s2 | _ \<Rightarrow> False)"
      by (auto split: option.splits)
    show ?thesis
      unfolding compare.simps [of identical cs a b] compare.simps [of identical cs b a] Let_def True str
        compare_double_commute [of "valuedouble a" "valuedouble b"]
        conj_commute [of "compare_members cs (child a) b"]
      by (intro if_cong refl) (simp_all add: el)
  qed (simp add: compare.simps)
next
  case (2 cs bs)
  then show ?case by (cases bs) simp_all
qed simp_all

subsection \<open>Trees that equal their copies\<close>

text \<open>
  \<open>key\<close> is a member name as the lookup sees it. A tree is \<open>comparable\<close> when its types are known, its
  numbers finite, its strings present, and no two members of an object have the same key.
\<close>

definition key :: "bool \<Rightarrow> string option \<Rightarrow> nat list" where
  "key case_sensitive s = map (if case_sensitive then of_char else tolower) (the s)"

fun comparable :: "bool \<Rightarrow> cJSON \<Rightarrow> bool" where
  "comparable case_sensitive (CJSON ty vs vi vd k ch) =
     (let t = ty AND 0xFF
      in if t = cJSON_False \<or> t = cJSON_True \<or> t = cJSON_NULL then True
         else if t = cJSON_Number then (case vd of DNum q \<Rightarrow> True | _ \<Rightarrow> False)
         else if t = cJSON_String \<or> t = cJSON_Raw then vs \<noteq> None
         else if t = cJSON_Array then list_all (comparable case_sensitive) ch
         else if t = cJSON_Object then
           list_all (comparable case_sensitive) ch
           \<and> list_all (\<lambda>c. case istring c of None \<Rightarrow> False | Some s \<Rightarrow> NUL \<notin> set s) ch
           \<and> distinct (map (\<lambda>c. key case_sensitive (istring c)) ch)
         else False)"

lemma tolower_0 [simp]: "tolower c = 0 \<longleftrightarrow> c = NUL"
  using of_char_eq_iff [of c NUL, where ?'a = nat] by (auto simp: tolower_def)

lemma strcasecmp_fold: "NUL \<notin> set a \<Longrightarrow> NUL \<notin> set b \<Longrightarrow> strcasecmp_loop a b = 0 \<longleftrightarrow> map tolower a = map tolower b"
  by (induction a b rule: strcasecmp_loop.induct) auto

definition named :: "cJSON list \<Rightarrow> bool" where
  "named ch \<longleftrightarrow> list_all (\<lambda>c. case istring c of None \<Rightarrow> False | Some s \<Rightarrow> NUL \<notin> set s) ch"

lemma named_simps [simp]:
  "named []" "named (c # ch) \<longleftrightarrow> (\<exists>s. istring c = Some s \<and> NUL \<notin> set s) \<and> named ch"
  by (auto simp: named_def split: option.splits)

lemma named_mem: "named ch \<Longrightarrow> c \<in> set ch \<Longrightarrow> \<exists>s. istring c = Some s \<and> NUL \<notin> set s"
  by (induction ch) auto

lemma key_Some: "key True (Some s) = key True (Some t) \<longleftrightarrow> s = t" "key False (Some s) = map tolower s"
  using inj_map_eq_map [of "of_char :: char \<Rightarrow> nat"] by (simp_all add: key_def inj_def)

lemma find_sensitive_key:
  "named ch \<Longrightarrow> find_case_sensitive nm ch = find (\<lambda>c. key True (istring c) = key True (Some nm)) ch"
  by (induction ch) (auto simp: key_Some)

lemma find_insensitive_key:
  "named ch \<Longrightarrow> NUL \<notin> set nm \<Longrightarrow> find_case_insensitive nm ch = find (\<lambda>c. key False (istring c) = key False (Some nm)) ch"
  by (induction ch) (auto simp: key_Some case_insensitive_strcmp_def strcasecmp_fold)

lemma find_distinct:
  "distinct (map f ch) \<Longrightarrow> c \<in> set ch \<Longrightarrow> find (\<lambda>x. f x = f c) ch = Some c"
  by (induction ch) (auto intro: rev_image_eqI)

text \<open>With distinct keys, looking a member up by its name finds that member.\<close>

lemma get_object_item_own:
  assumes "named (child ob)" "distinct (map (\<lambda>c. key cs (istring c)) (child ob))" "c \<in> set (child ob)"
  shows "get_object_item (Some ob) (istring c) cs = Some c"
proof -
  obtain s where s: "istring c = Some s" "NUL \<notin> set s" using named_mem [OF assms(1,3)] by blast
  have "find (\<lambda>x. key cs (istring x) = key cs (Some s)) (child ob) = Some c"
    using find_distinct [OF assms(2,3)] s by simp
  then show ?thesis
    using find_sensitive_key [OF assms(1), of s] find_insensitive_key [OF assms(1) s(2)] s
    by (cases cs) (simp_all add: get_object_item_def)
qed

lemma round_double_nonneg: "0 \<le> q \<Longrightarrow> dle (DNum 0) (round_double q)"
proof -
  assume q: "0 \<le> q"
  have "0 \<le> round_even x" if "0 \<le> x" for x
    using that by (auto simp: round_even_def Let_def)
  then show ?thesis using q by (simp add: round_double_def Let_def)
qed

lemma compare_double_refl [simp]: "compare_double (DNum q) (DNum q)"
  using round_double_nonneg [of "\<bar>q\<bar> / 2 ^ 52"] by (simp add: compare_double_def Let_def round_double_def)

text \<open>
  Two comparable nodes that differ at most in flags above the type byte and in the order of their
  members are equal, given that this holds for their members.
\<close>

lemma compare_members_own:
  assumes "named (child ob)" "distinct (map (\<lambda>c. key cs (istring c)) (child ob))"
    "set xs \<subseteq> set (child ob)" "list_all (\<lambda>c. compare False cs c c) xs"
  shows "compare_members cs xs ob"
  using assms(3,4) by (induction xs) (simp_all add: get_object_item_own [OF assms(1,2)])

lemma compare_elements_own: "list_all (\<lambda>c. compare False cs c c) xs \<Longrightarrow> compare_elements cs xs xs"
  by (induction xs) simp_all

lemma compare_refl: "comparable cs v \<Longrightarrow> compare same cs v v"
proof (induction cs v arbitrary: same rule: comparable.induct)
  case (1 cs ty vs vi vd k ch)
  let ?v = "CJSON ty vs vi vd k ch"
  let ?t = "ty AND 0xFF"
  have o: "compare_members cs ch ?v" if "?t = cJSON_Object"
  proof (rule compare_members_own)
    have t: "list_all (comparable cs) ch" "named ch" "distinct (map (\<lambda>c. key cs (istring c)) ch)"
      using 1(3) that by (simp_all add: type_defs named_def)
    then show "named (child ?v)" "distinct (map (\<lambda>c. key cs (istring c)) (child ?v))" by simp_all
    show "list_all (\<lambda>c. compare False cs c c) ch"
      using 1(2) [OF refl] t(1) that by (auto simp: list_all_iff type_defs)
  qed simp
  have a: "compare_elements cs ch ch" if "?t = cJSON_Array"
    using 1(1) [OF refl] 1(3) that by (intro compare_elements_own) (auto simp: list_all_iff type_defs)
  have t: "?t \<in> {cJSON_False, cJSON_True, cJSON_NULL, cJSON_Number, cJSON_String, cJSON_Raw, cJSON_Array, cJSON_Object}"
  proof (rule ccontr)
    assume "\<not> ?thesis"
    then show False using 1(3) by simp
  qed
  have n: "\<exists>q. vd = DNum q" if "?t = cJSON_Number"
    using 1(3) that by (cases vd) (simp_all add: type_defs)
  have s: "\<exists>s. vs = Some s" if "?t = cJSON_String \<or> ?t = cJSON_Raw"
    using 1(3) that by (cases vs) (auto simp: type_defs)
  show ?case
    unfolding compare.simps [of same cs ?v ?v] Let_def cJSON.sel
    using t n o a s by (simp add: type_defs) auto
qed


subsection \<open>The reference flag\<close>

lemma unreference_fields [simp]:
  "istring (unreference v) = istring v" "valuestring (unreference v) = valuestring v"
  "valuedouble (unreference v) = valuedouble v" "child (unreference v) = map unreference (child v)"
  by (cases v; simp)+

lemma type_byte [simp]: "itype (unreference v) AND 0xFF = itype v AND 0xFF"
proof -
  have "bit (255 :: int) n \<longleftrightarrow> n < 8" for n using bit_mask_iff [where ?'a = int, of 8 n] by (simp add: mask_eq_exp_minus_1)
  moreover have "bit cJSON_IsReference n \<longleftrightarrow> n = 8" for n
    using bit_exp_iff [where ?'a = int, of 8 n] by (simp add: type_defs)
  ultimately have "(ty AND NOT cJSON_IsReference) AND 255 = ty AND 255" for ty
    by (intro bit_eqI) (auto simp: bit_and_iff bit_not_iff)
  then show ?thesis by (cases v) simp
qed

lemma get_object_item_map:
  assumes f: "\<And>v. istring (f v) = istring v" and "child ob' = map f (child ob)"
  shows "get_object_item (Some ob') nm cs = map_option f (get_object_item (Some ob) nm cs)"
proof -
  have "find_case_sensitive n (map f ch) = map_option f (find_case_sensitive n ch)"
    "find_case_insensitive n (map f ch) = map_option f (find_case_insensitive n ch)" for n ch
    by (induction ch) (simp_all add: f)
  then show ?thesis by (auto simp: get_object_item_def f assms(2) split: option.split)
qed

text \<open>Clearing reference flags anywhere on either side does not change the result.\<close>

definition clears :: "(cJSON \<Rightarrow> cJSON) \<Rightarrow> bool" where
  "clears f \<longleftrightarrow> f = id \<or> f = unreference"

lemma clears_fields [simp]:
  "clears f \<Longrightarrow> istring (f v) = istring v" "clears f \<Longrightarrow> valuestring (f v) = valuestring v"
  "clears f \<Longrightarrow> valuedouble (f v) = valuedouble v" "clears f \<Longrightarrow> child (f v) = map f (child v)"
  "clears f \<Longrightarrow> itype (f v) AND 255 = itype v AND 255"
  by (auto simp: clears_def)

lemma compare_clears:
  "clears f \<Longrightarrow> clears g \<Longrightarrow> compare identical cs (f a) (g b) = compare identical cs a b"
  "clears f \<Longrightarrow> clears g \<Longrightarrow> compare_elements cs (map f xs) (map g ys) = compare_elements cs xs ys"
  "clears f \<Longrightarrow> clears g \<Longrightarrow> compare_members cs (map f zs) (g ob) = compare_members cs zs ob"
proof (induction identical cs a b and cs xs ys and cs zs ob arbitrary: f g and f g and f g
    rule: compare_compare_elements_compare_members.induct)
  case (1 identical cs a b)
  show ?case
    unfolding compare.simps [of identical cs "f a" "g b"] compare.simps [of identical cs a b]
    using 1 by (simp add: Let_def cong: if_cong)
next
  case (6 cs x xs ob)
  have m: "get_object_item (Some (g ob)) (istring x) cs = map_option g (get_object_item (Some ob) (istring x) cs)"
    using 6(3,4) by (intro get_object_item_map) simp_all
  show ?case using 6 by (cases "get_object_item (Some ob) (istring x) cs") (simp_all add: m)
qed simp_all

subsection \<open>Properties\<close>

text \<open>\<open>cJSON_Compare\<close> is symmetric, on all trees and in both case modes, although the objects are
  walked from both sides and numbers are compared with a tolerance.\<close>

theorem cJSON_Compare_commute:
  "cJSON_Compare identical a b case_sensitive = cJSON_Compare identical b a case_sensitive"
  by (auto simp: cJSON_Compare_def compare_commute(1) split: option.split)

text \<open>C21: A deep copy by \<open>cJSON_Duplicate\<close> compares equal to its original, in the given case mode, when
  the types are known, the numbers finite, the strings present and the names of each object distinct
  in that mode.\<close>

theorem cJSON_Compare_Duplicate:
  assumes "comparable cs v" "cJSON_Duplicate (Some v) True m = (Some w, m')"
  shows "cJSON_Compare False (Some v) (Some w) cs"
proof -
  have "w = unreference v"
    using duplicate_copies(1) [of v 0 True m w] assms(2) by (simp add: cJSON_Duplicate_def)
  then show ?thesis
    using compare_clears(1) [of id unreference False cs v v] compare_refl [OF assms(1)]
    by (simp add: clears_def cJSON_Compare_def)
qed

theorem cJSON_Compare_Duplicate_witness:
  "cJSON_Compare False (Some (CJSON cJSON_Object None 0 (DNum 0) None [CJSON cJSON_Number None 1 (DNum 1) (Some ''a'') []]))
     (Some (CJSON cJSON_Object None 0 (DNum 0) None [CJSON cJSON_Number None 1 (DNum 1) (Some ''a'') []])) True"
proof (rule cJSON_Compare_Duplicate)
  show "comparable True (CJSON cJSON_Object None 0 (DNum 0) None [CJSON cJSON_Number None 1 (DNum 1) (Some ''a'') []])"
    by (simp add: type_defs)
  show "cJSON_Duplicate (Some (CJSON cJSON_Object None 0 (DNum 0) None
      [CJSON cJSON_Number None 1 (DNum 1) (Some ''a'') []])) True \<lparr>budget = 4, live = 0\<rparr>
    = (Some (CJSON cJSON_Object None 0 (DNum 0) None [CJSON cJSON_Number None 1 (DNum 1) (Some ''a'') []]),
       \<lparr>budget = 1, live = 3\<rparr>)"
    by (simp add: cJSON_Duplicate_def cJSON_Duplicate_rec.simps cJSON_New_Item_def allocate_def zero_item_def
        copy_fields_def cJSON_strdup_def type_defs CJSON_CIRCULAR_LIMIT_def Let_def)
qed

text \<open>The order of the members of an object does not matter to \<open>cJSON_Compare\<close>.\<close>

theorem cJSON_Compare_member_order:
  assumes "comparable cs (CJSON ty vs vi vd k ch)" "ty AND 0xFF = cJSON_Object" "mset ch' = mset ch"
  shows "cJSON_Compare False (Some (CJSON ty vs vi vd k ch)) (Some (CJSON ty vs' vi' vd' k' ch')) cs"
proof -
  have s: "set ch' = set ch" using assms(3) by (rule mset_eq_setD)
  have c: "list_all (comparable cs) ch" "named ch" "distinct (map (\<lambda>c. key cs (istring c)) ch)"
    using assms(1,2) by (simp_all add: type_defs named_def)
  have "mset (map (\<lambda>c. key cs (istring c)) ch') = mset (map (\<lambda>c. key cs (istring c)) ch)" using assms(3) by simp
  then have "distinct (map (\<lambda>c. key cs (istring c)) ch')" using c(3) mset_eq_imp_distinct_iff by blast
  moreover have "named ch'" using c(2) s by (auto simp: named_def list_all_iff)
  ultimately have c': "named ch'" "distinct (map (\<lambda>c. key cs (istring c)) ch')" by simp_all
  have r: "list_all (\<lambda>c. compare False cs c c) ch" using c(1) compare_refl by (auto simp: list_all_iff)
  then have "list_all (\<lambda>c. compare False cs c c) ch'" by (simp add: list_all_iff s)
  then show ?thesis
    using compare_members_own [of "CJSON ty vs' vi' vd' k' ch'" cs ch] r c' s
      compare_members_own [of "CJSON ty vs vi vd k ch" cs ch'] c assms(2)
    by (simp add: cJSON_Compare_def compare.simps type_defs)
qed

theorem cJSON_Compare_member_order_witness:
  "cJSON_Compare False
     (Some (CJSON 64 None 0 (DNum 0) None [CJSON 2 None 0 (DNum 0) (Some ''a'') [], CJSON 4 None 0 (DNum 0) (Some ''b'') []]))
     (Some (CJSON 64 None 0 (DNum 0) None [CJSON 4 None 0 (DNum 0) (Some ''b'') [], CJSON 2 None 0 (DNum 0) (Some ''a'') []])) False"
  by (rule cJSON_Compare_member_order) (simp_all add: type_defs key_def tolower_def)

text \<open>
  An object with two members of one name is not equal to its own copy: both are looked up as the first.
\<close>

lemma cJSON_Compare_duplicate_names:
  "\<not> cJSON_Compare False
     (Some (CJSON 64 None 0 (DNum 0) None [CJSON 2 None 0 (DNum 0) (Some ''a'') [], CJSON 4 None 0 (DNum 0) (Some ''a'') []]))
     (Some (CJSON 64 None 0 (DNum 0) None [CJSON 2 None 0 (DNum 0) (Some ''a'') [], CJSON 4 None 0 (DNum 0) (Some ''a'') []])) True"
  by (simp add: cJSON_Compare_def compare.simps get_object_item_def type_defs)

end
