(* ===== verification/CJson_Minify.thy ===== *)
theory CJson_Minify
  imports Prelude
begin

text \<open>
  \<open>cJSON_Minify\<close> of \<open>seance6/project/cJSON.c\<close>: blanks and comments are removed from a JSON text in
  place. The block of memory is a list of bytes; \<open>json\<close> and \<open>into\<close> are the reading and the writing
  position in it, and an access outside the block is \<open>None\<close>. \<open>minified\<close> is the text that must
  be left in the block.
\<close>

subsection \<open>The code\<close>

definition byte_at :: "string \<Rightarrow> nat \<Rightarrow> char option" where
  "byte_at b i = (if i < length b then Some (b ! i) else None)"

definition store :: "string \<Rightarrow> nat \<Rightarrow> char \<Rightarrow> string option" where
  "store b i c = (if i < length b then Some (b[i := c]) else None)"

lemma byte_at_Some [simp]: "byte_at b i = Some c \<longleftrightarrow> i < length b \<and> b ! i = c"
  by (simp add: byte_at_def)

lemma store_Some [simp]: "store b i c = Some b' \<longleftrightarrow> i < length b \<and> b[i := c] = b'"
  by (simp add: store_def)

function oneline_loop :: "string \<Rightarrow> nat \<Rightarrow> nat option" where
  "oneline_loop b i =
     (case byte_at b i of
        None \<Rightarrow> None
      | Some c \<Rightarrow> if c = NUL then Some i else if c = CHR 0x0A then Some (i + 1) else oneline_loop b (i + 1))"
  by auto
termination by (relation "measure (\<lambda>(b, i). length b - i)") auto

definition skip_oneline_comment :: "string \<Rightarrow> nat \<Rightarrow> nat option" where
  "skip_oneline_comment b i = oneline_loop b (i + 2)"

function multiline_loop :: "string \<Rightarrow> nat \<Rightarrow> nat option" where
  "multiline_loop b i =
     (case byte_at b i of
        None \<Rightarrow> None
      | Some c \<Rightarrow>
          if c = NUL then Some i
          else if c = CHR ''*'' then
            (case byte_at b (i + 1) of
               None \<Rightarrow> None
             | Some d \<Rightarrow> if d = CHR ''/'' then Some (i + 2) else multiline_loop b (i + 1))
          else multiline_loop b (i + 1))"
  by auto
termination by (relation "measure (\<lambda>(b, i). length b - i)") auto

definition skip_multiline_comment :: "string \<Rightarrow> nat \<Rightarrow> nat option" where
  "skip_multiline_comment b i = multiline_loop b (i + 2)"

text \<open>The result is the block and the two positions. Every test reads the block as the write left it.\<close>

function string_loop :: "string \<Rightarrow> nat \<Rightarrow> nat \<Rightarrow> (string \<times> nat \<times> nat) option" where
  "string_loop b i out =
     (case byte_at b i of
        None \<Rightarrow> None
      | Some c \<Rightarrow>
          if c = NUL then Some (b, i, out)
          else (case store b out c of
                  None \<Rightarrow> None
                | Some b1 \<Rightarrow>
                    (case byte_at b1 i of
                       None \<Rightarrow> None
                     | Some c1 \<Rightarrow>
                         if c1 = CHR 0x22 then
                           map_option (\<lambda>b2. (b2, i + 1, out + 1)) (store b1 out (CHR 0x22))
                         else if c1 = CHR 0x5C then
                           (case byte_at b1 (i + 1) of
                              None \<Rightarrow> None
                            | Some d \<Rightarrow>
                                if d = CHR 0x22 then
                                  (case store b1 (out + 1) d of
                                     None \<Rightarrow> None
                                   | Some b2 \<Rightarrow> string_loop b2 (i + 2) (out + 2))
                                else string_loop b1 (i + 1) (out + 1))
                         else string_loop b1 (i + 1) (out + 1))))"
  by auto
termination
  by (relation "measure (\<lambda>(b, i, _). length b - i)") auto

definition minify_string :: "string \<Rightarrow> nat \<Rightarrow> nat \<Rightarrow> (string \<times> nat \<times> nat) option" where
  "minify_string b i out =
     (case byte_at b i of
        None \<Rightarrow> None
      | Some c \<Rightarrow> (case store b out c of None \<Rightarrow> None | Some b1 \<Rightarrow> string_loop b1 (i + 1) (out + 1)))"

declare oneline_loop.simps [simp del] multiline_loop.simps [simp del] string_loop.simps [simp del]

lemma oneline_loop_ge: "oneline_loop b i = Some j \<Longrightarrow> i \<le> j"
proof (induction b i rule: oneline_loop.induct)
  case (1 b i)
  from 1(2) [unfolded oneline_loop.simps [of b i]] 1(1) show ?case
    by (auto split: option.splits if_splits)
qed

lemma multiline_loop_ge: "multiline_loop b i = Some j \<Longrightarrow> i \<le> j"
proof (induction b i rule: multiline_loop.induct)
  case (1 b i)
  from 1(3) [unfolded multiline_loop.simps [of b i]] 1(1,2) show ?case
    by (auto split: option.splits if_splits)
qed

lemma string_loop_ge: "string_loop b i out = Some (b', j, out') \<Longrightarrow> i \<le> j \<and> length b' = length b"
proof (induction b i out rule: string_loop.induct)
  case (1 b i out)
  from 1(4) [unfolded string_loop.simps [of b i out]] 1(1,2,3) show ?case
    by (auto split: option.splits if_splits) (fastforce dest: Suc_leD)+
qed

lemma minify_string_gt: "minify_string b i out = Some (b', j, out') \<Longrightarrow> i < j \<and> length b' = length b"
  by (auto simp: minify_string_def split: option.splits dest!: string_loop_ge)

definition is_blank :: "char \<Rightarrow> bool" where
  "is_blank c \<longleftrightarrow> c = CHR '' '' \<or> c = CHR 0x09 \<or> c = CHR 0x0D \<or> c = CHR 0x0A"

function minify_loop :: "string \<Rightarrow> nat \<Rightarrow> nat \<Rightarrow> (string \<times> nat) option" where
  "minify_loop b json into =
     (case byte_at b json of
        None \<Rightarrow> None
      | Some c \<Rightarrow>
          if c = NUL then Some (b, into)
          else if is_blank c then minify_loop b (json + 1) into
          else if c = CHR ''/'' then
            (case byte_at b (json + 1) of
               None \<Rightarrow> None
             | Some d \<Rightarrow>
                 if d = CHR ''/'' then
                   (case skip_oneline_comment b json of None \<Rightarrow> None | Some j \<Rightarrow> minify_loop b j into)
                 else if d = CHR ''*'' then
                   (case skip_multiline_comment b json of None \<Rightarrow> None | Some j \<Rightarrow> minify_loop b j into)
                 else minify_loop b (json + 1) into)
          else if c = CHR 0x22 then
            (case minify_string b json into of None \<Rightarrow> None | Some (b1, j, out) \<Rightarrow> minify_loop b1 j out)
          else (case store b into c of None \<Rightarrow> None | Some b1 \<Rightarrow> minify_loop b1 (json + 1) (into + 1)))"
  by auto
termination
proof (relation "measure (\<lambda>(b, i, _). length b - i)", goal_cases)
  case (3 b json into c d j)
  then show ?case using oneline_loop_ge [of b "json + 2" j] by (auto simp: skip_oneline_comment_def intro!: diff_less_mono2)
next
  case (4 b json into c d j)
  then show ?case using multiline_loop_ge [of b "json + 2" j] by (auto simp: skip_multiline_comment_def intro!: diff_less_mono2)
next
  case (6 b json into c p b1 q j out)
  then show ?case using minify_string_gt [of b json into b1 j out] by (auto intro!: diff_less_mono2)
qed auto

declare minify_loop.simps [simp del]

definition cJSON_Minify :: "string option \<Rightarrow> string option option" where
  "cJSON_Minify json =
     (case json of
        None \<Rightarrow> Some None
      | Some b \<Rightarrow>
          (case minify_loop b 0 0 of
             None \<Rightarrow> None
           | Some (b1, into) \<Rightarrow> map_option Some (store b1 into NUL)))"

subsection \<open>The text that is left\<close>

fun after_line :: "string \<Rightarrow> string" where
  "after_line [] = []"
| "after_line (c # r) = (if c = CHR 0x0A then r else after_line r)"

fun after_comment :: "string \<Rightarrow> string" where
  "after_comment [] = []"
| "after_comment (c # r) = (if c = CHR ''*'' \<and> r \<noteq> [] \<and> hd r = CHR ''/'' then tl r else after_comment r)"

text \<open>A string literal after its opening quote, and what follows it.\<close>

fun literal :: "string \<Rightarrow> string \<times> string" where
  "literal [] = ([], [])"
| "literal (c # r) =
     (if c = CHR 0x22 then ([c], r)
      else (case r of
              [] \<Rightarrow> ([c], [])
            | d # r' \<Rightarrow>
                if c = CHR 0x5C \<and> d = CHR 0x22 then (case literal r' of (s, t) \<Rightarrow> (c # d # s, t))
                else (case literal r of (s, t) \<Rightarrow> (c # s, t))))"

lemma length_after: "length (after_line s) \<le> length s" "length (after_comment s) \<le> length s"
  by (induction s) (auto simp: le_SucI)

lemma literal_append: "literal s = (u, t) \<Longrightarrow> s = u @ t"
proof (induction s arbitrary: u t rule: literal.induct)
  case (2 c r)
  then show ?case by (cases r) (auto split: if_splits prod.splits)
qed simp

lemma length_literal: "literal s = (u, t) \<Longrightarrow> length t \<le> length s"
  using literal_append by fastforce

function minified :: "string \<Rightarrow> string" where
  "minified [] = []"
| "minified (c # r) =
     (if is_blank c then minified r
      else if c = CHR ''/'' then
        (case r of
           [] \<Rightarrow> []
         | d # r' \<Rightarrow>
             if d = CHR ''/'' then minified (after_line r')
             else if d = CHR ''*'' then minified (after_comment r')
             else minified r)
      else if c = CHR 0x22 then (case literal r of (s, t) \<Rightarrow> c # s @ minified t)
      else c # minified r)"
  by pat_completeness auto
termination
  by (relation "measure length") (auto simp: less_Suc_eq_le length_after le_SucI dest: length_literal [OF sym])

declare minified.simps(2) [simp del]

subsection \<open>The code leaves that text\<close>

text \<open>
  \<open>blk out mid s rest\<close>: \<open>out\<close> is written, \<open>mid\<close> is free, \<open>s\<close> is to be read, up to its NUL.
\<close>

definition blk :: "string \<Rightarrow> string \<Rightarrow> string \<Rightarrow> string \<Rightarrow> string" where
  "blk out mid s rest = out @ mid @ s @ NUL # rest"

lemma length_blk: "length (blk out mid s rest) = Suc (length out + length mid + length s + length rest)"
  by (simp add: blk_def)

lemma nth_blk: "blk out mid s rest ! (length out + length mid) = hd (s @ [NUL])"
  by (cases s) (simp_all add: blk_def nth_append)

lemma nth_blk_Suc: "blk out mid (c # s) rest ! Suc (length out + length mid) = hd (s @ [NUL])"
  by (cases s) (simp_all add: blk_def nth_append)

lemma byte_blk:
  "byte_at (blk out mid [] rest) (length out + length mid) = Some NUL"
  "byte_at (blk out mid (c # s) rest) (length out + length mid) = Some c"
  "byte_at (blk out mid (c # s) rest) (Suc (length out + length mid)) = Some (hd (s @ [NUL]))"
  by (simp_all add: byte_at_Some nth_blk nth_blk_Suc length_blk)

lemma store_blk:
  obtains mid' where "length mid' = length mid" "last (c # mid') = c"
    "store (blk out mid (c # s) rest) (length out) c = Some (blk (out @ [c]) mid' s rest)"
proof (cases mid)
  case Nil
  then show ?thesis using that [of "[]"] by (simp add: blk_def store_def list_update_append)
next
  case (Cons x m)
  then show ?thesis using that [of "m @ [c]"] by (simp add: blk_def store_def list_update_append)
qed

text \<open>Reading moves a character from \<open>s\<close> to the free part.\<close>

lemma blk_shift: "blk out (mid @ [c]) s rest = blk out mid (c # s) rest"
  by (simp add: blk_def)

lemma blk_at: "length mid' = length mid \<Longrightarrow> length out + length mid = length out + length mid'"
  by simp

lemma oneline_step:
  "oneline_loop (blk out mid [] rest) (length out + length mid) = Some (length out + length mid)"
  "c \<noteq> NUL \<Longrightarrow> oneline_loop (blk out mid (c # s) rest) (length out + length mid) =
     (if c = CHR 0x0A then Some (length out + length (mid @ [c]))
      else oneline_loop (blk out (mid @ [c]) s rest) (length out + length (mid @ [c])))"
  by (subst oneline_loop.simps, simp add: byte_blk blk_shift)+

lemma oneline_blk:
  "NUL \<notin> set s \<Longrightarrow> \<exists>mid'. oneline_loop (blk out mid s rest) (length out + length mid) = Some (length out + length mid')
     \<and> blk out mid s rest = blk out mid' (after_line s) rest"
proof (induction s arbitrary: mid)
  case Nil
  show ?case by (intro exI [of _ mid]) (simp add: oneline_step)
next
  case (Cons c s)
  show ?case
  proof (cases "c = CHR 0x0A")
    case True
    then show ?thesis by (intro exI [of _ "mid @ [c]"]) (simp add: oneline_step blk_shift)
  next
    case False
    moreover have "c \<noteq> NUL" using Cons.prems by auto
    ultimately show ?thesis
      using Cons.IH [of "mid @ [c]"] Cons.prems oneline_step(2) [of c out mid s rest] by (simp add: blk_shift)
  qed
qed

lemma multiline_step:
  "multiline_loop (blk out mid [] rest) (length out + length mid) = Some (length out + length mid)"
  "c \<noteq> NUL \<Longrightarrow> multiline_loop (blk out mid (c # s) rest) (length out + length mid) =
     (if c = CHR ''*'' \<and> s \<noteq> [] \<and> hd s = CHR ''/'' then Some (length out + length (mid @ [c, hd s]))
      else multiline_loop (blk out (mid @ [c]) s rest) (length out + length (mid @ [c])))"
  by (subst multiline_loop.simps, cases s, simp_all add: byte_blk blk_shift)+

lemma multiline_blk:
  "NUL \<notin> set s \<Longrightarrow> \<exists>mid'. multiline_loop (blk out mid s rest) (length out + length mid) = Some (length out + length mid')
     \<and> blk out mid s rest = blk out mid' (after_comment s) rest"
proof (induction s arbitrary: mid)
  case Nil
  show ?case by (intro exI [of _ mid]) (simp add: multiline_step)
next
  case (Cons c s)
  show ?case
  proof (cases "c = CHR ''*'' \<and> s \<noteq> [] \<and> hd s = CHR ''/''")
    case True
    then obtain s' where s: "c = CHR ''*''" "s = CHR ''/'' # s'" by (cases s) auto
    then have "blk out mid (c # s) rest = blk out (mid @ [c, hd s]) s' rest" by (simp add: blk_def)
    then show ?thesis
      using multiline_step(2) [of c out mid s rest] by (intro exI [of _ "mid @ [c, hd s]"]) (simp add: s)
  next
    case False
    have cn: "c \<noteq> NUL" using Cons.prems by auto
    have "multiline_loop (blk out mid (c # s) rest) (length out + length mid)
        = multiline_loop (blk out (mid @ [c]) s rest) (length out + length (mid @ [c]))"
      using multiline_step(2) [OF cn, of out mid s rest] False by (simp only: if_False)
    with False show ?thesis
      using Cons.IH [of "mid @ [c]"] Cons.prems by (auto simp: blk_shift)
  qed
qed

lemma byte_blk_hd: "byte_at (blk out mid s rest) (length out + length mid) = Some (hd (s @ [NUL]))"
  by (simp add: nth_blk length_blk)

lemma byte_after_store: "byte_at (blk (out @ [c]) mid s rest) (length out + length mid) = Some (last (c # mid))"
  by (cases mid rule: rev_cases) (simp_all add: blk_def nth_append)

lemma store_same: "store (blk (out @ [c]) mid s rest) (length out) c = Some (blk (out @ [c]) mid s rest)"
  by (simp add: blk_def list_update_append)

text \<open>One turn of the string loop: \<open>c\<close> is copied; an escaped quote is copied with it.\<close>

lemma string_step:
  assumes "c \<noteq> NUL"
  obtains mid1 where "length mid1 = length mid"
    "string_loop (blk out mid (c # s) rest) (length out + length mid) (length out) =
      (if c = CHR 0x22 then Some (blk (out @ [c]) mid1 s rest, length (out @ [c]) + length mid1, length (out @ [c]))
       else if c = CHR 0x5C \<and> s \<noteq> [] \<and> hd s = CHR 0x22 then
         string_loop (blk (out @ [c, hd s]) mid1 (tl s) rest) (length (out @ [c, hd s]) + length mid1) (length (out @ [c, hd s]))
       else string_loop (blk (out @ [c]) mid1 s rest) (length (out @ [c]) + length mid1) (length (out @ [c])))"
proof -
  let ?b = "blk out mid (c # s) rest"
  obtain m1 where m1: "length m1 = length mid" "last (c # m1) = c"
    "store ?b (length out) c = Some (blk (out @ [c]) m1 s rest)"
    by (rule store_blk)
  let ?b1 = "blk (out @ [c]) m1 s rest"
  have r: "byte_at ?b (length out + length mid) = Some c" by (rule byte_blk(2))
  have r1: "byte_at ?b1 (length out + length mid) = Some c"
    using byte_after_store [of out c m1 s rest] m1 by simp
  have r2: "byte_at ?b1 (length out + length mid + 1) = Some (hd (s @ [NUL]))"
    using byte_blk_hd [of "out @ [c]" m1 s rest] m1(1) by simp
  have e: "string_loop ?b (length out + length mid) (length out) =
      (if c = CHR 0x22 then Some (?b1, length (out @ [c]) + length m1, length (out @ [c]))
       else if c = CHR 0x5C then
         (if hd (s @ [NUL]) = CHR 0x22 then
            (case store ?b1 (length (out @ [c])) (CHR 0x22) of
               None \<Rightarrow> None
             | Some b2 \<Rightarrow> string_loop b2 (length out + length mid + 2) (length out + 2))
          else string_loop ?b1 (length (out @ [c]) + length m1) (length (out @ [c])))
       else string_loop ?b1 (length (out @ [c]) + length m1) (length (out @ [c])))"
    using assms m1(1) store_same [of out c m1 s rest]
    by (subst string_loop.simps) (simp only: r r1 r2 m1(3) option.case, auto)
  show ?thesis
  proof (cases "c = CHR 0x5C \<and> s \<noteq> [] \<and> hd s = CHR 0x22")
    case True
    then obtain s' where s: "s = CHR 0x22 # s'" by (cases s) auto
    obtain m2 where m2: "length m2 = length m1"
      "store ?b1 (length (out @ [c])) (CHR 0x22) = Some (blk ((out @ [c]) @ [CHR 0x22]) m2 s' rest)"
      unfolding s by (rule store_blk)
    have f: "hd (s @ [NUL]) = CHR 0x22" by (simp add: s)
    have "string_loop ?b (length out + length mid) (length out)
        = string_loop (blk ((out @ [c]) @ [CHR 0x22]) m2 s' rest) (length out + length mid + 2) (length out + 2)"
      unfolding e f m2(2) using True by simp
    then show ?thesis
      by (intro that [of m2]) (use True m1(1) m2(1) s in simp_all)
  next
    case False
    then have "c = CHR 0x5C \<Longrightarrow> hd (s @ [NUL]) \<noteq> CHR 0x22" by (cases s) auto
    then show ?thesis
      by (intro that [of m1] m1(1)) (use False in \<open>simp only: e, auto\<close>)
  qed
qed

lemma string_loop_end:
  "string_loop (blk out mid [] rest) (length out + length mid) (length out)
     = Some (blk out mid [] rest, length out + length mid, length out)"
  by (subst string_loop.simps) (simp only: byte_blk(1) option.case refl if_True)

lemma string_blk:
  assumes "NUL \<notin> set s" "literal s = (u, t)"
  shows "\<exists>mid'. string_loop (blk out mid s rest) (length out + length mid) (length out)
      = Some (blk (out @ u) mid' t rest, length (out @ u) + length mid', length (out @ u)) \<and> length mid' = length mid"
  using assms
proof (induction s arbitrary: out mid u t rule: literal.induct)
  case 1
  then show ?case
    using string_loop_end by (intro exI [of _ mid]) simp
next
  case (2 c r)
  have cn: "c \<noteq> NUL" using "2.prems" by auto
  obtain m1 where m1: "length m1 = length mid"
    "string_loop (blk out mid (c # r) rest) (length out + length mid) (length out) =
      (if c = CHR 0x22 then Some (blk (out @ [c]) m1 r rest, length (out @ [c]) + length m1, length (out @ [c]))
       else if c = CHR 0x5C \<and> r \<noteq> [] \<and> hd r = CHR 0x22 then
         string_loop (blk (out @ [c, hd r]) m1 (tl r) rest) (length (out @ [c, hd r]) + length m1) (length (out @ [c, hd r]))
       else string_loop (blk (out @ [c]) m1 r rest) (length (out @ [c]) + length m1) (length (out @ [c])))"
    by (rule string_step [OF cn])
  consider "c = CHR 0x22" | d r' where "c = CHR 0x5C" "r = d # r'" "d = CHR 0x22"
    | "c \<noteq> CHR 0x22" "\<not> (c = CHR 0x5C \<and> r \<noteq> [] \<and> hd r = CHR 0x22)" by (cases r) auto
  then show ?case
  proof cases
    case 1
    then show ?thesis using m1 "2.prems" by (intro exI [of _ m1]) auto
  next
    case 2
    obtain u' t' where l: "literal r' = (u', t')" by fastforce
    then have "u = c # d # u'" "t = t'" using "2.prems"(2) 2 by simp_all
    then show ?thesis
      using m1 "2.IH"(1) [OF _ 2(2), of u' t' "out @ [c, d]" m1] "2.prems"(1) 2 l by simp
  next
    case 3
    obtain u' t' where l: "literal r = (u', t')" by fastforce
    have e: "string_loop (blk out mid (c # r) rest) (length out + length mid) (length out)
        = string_loop (blk (out @ [c]) m1 r rest) (length (out @ [c]) + length m1) (length (out @ [c]))"
      using m1(2) 3 by (simp only: if_False)
    show ?thesis
    proof (cases r)
      case Nil
      then have "u = [c]" "t = []" using "2.prems"(2) 3(1) by simp_all
      then show ?thesis
        using e m1(1) string_loop_end [of "out @ [c]" m1 rest] Nil by (intro exI [of _ m1]) simp
    next
      case (Cons d r')
      then have "u = c # u'" "t = t'" using "2.prems"(2) 3 l by (simp_all split: if_splits)
      then show ?thesis
        unfolding e using m1(1) "2.IH"(2) [OF 3(1) Cons, of u' t' "out @ [c]" m1] "2.prems"(1) 3 l Cons by simp
    qed
  qed
qed

lemma minify_string_blk:
  assumes "NUL \<notin> set s" "literal s = (u, t)"
  shows "\<exists>mid'. minify_string (blk out mid (CHR 0x22 # s) rest) (length out + length mid) (length out)
      = Some (blk (out @ CHR 0x22 # u) mid' t rest, length (out @ CHR 0x22 # u) + length mid', length (out @ CHR 0x22 # u))
      \<and> length mid' = length mid"
proof -
  obtain m1 where m1: "length m1 = length mid"
    "store (blk out mid (CHR 0x22 # s) rest) (length out) (CHR 0x22) = Some (blk (out @ [CHR 0x22]) m1 s rest)"
    by (rule store_blk)
  show ?thesis
    using string_blk [OF assms, of "out @ [CHR 0x22]" m1 rest] m1
    by (simp only: minify_string_def byte_blk(2) option.case) simp
qed

lemma minify_loop_end:
  "minify_loop (blk out mid [] rest) (length out + length mid) (length out) = Some (blk out mid [] rest, length out)"
  by (subst minify_loop.simps) (simp only: byte_blk(1) option.case refl if_True)

lemma set_after: "set (after_line s) \<subseteq> set s" "set (after_comment s) \<subseteq> set s"
  by (induction s) (auto dest: list.set_sel(2))

text \<open>\<open>minify_loop\<close> leaves the minified text in front, whatever the free part.\<close>

lemma minify_blk:
  "NUL \<notin> set s \<Longrightarrow> \<exists>mid'. minify_loop (blk out mid s rest) (length out + length mid) (length out)
     = Some (blk (out @ minified s) mid' [] rest, length (out @ minified s))
     \<and> length (minified s) + length mid' = length mid + length s"
proof (induction s arbitrary: out mid rule: minified.induct)
  case 1
  show ?case
    using minify_loop_end by (intro exI [of _ mid]) simp
next
  case (2 c r)
  have cn: "c \<noteq> NUL" and r: "NUL \<notin> set r" using "2.prems" by auto
  let ?p = "length out + length mid"
  let ?b = "blk out mid (c # r) rest"
  have rd: "byte_at ?b ?p = Some c" "byte_at ?b (?p + 1) = Some (hd (r @ [NUL]))"
    using byte_blk(2,3) [of out mid c r rest] by simp_all
  note step = minify_loop.simps [of ?b ?p "length out", unfolded rd, simplified cn option.case if_False]
  have skip: "minify_loop ?b (?p + 1) (length out) = minify_loop (blk out (mid @ [c]) r rest) (length out + length (mid @ [c])) (length out)"
    by (simp add: blk_shift)
  consider "is_blank c" | "c = CHR ''/''" "\<not> is_blank c" | "c = CHR 0x22" "\<not> is_blank c" "c \<noteq> CHR ''/''"
    | "\<not> is_blank c" "c \<noteq> CHR ''/''" "c \<noteq> CHR 0x22" by blast
  then show ?case
  proof cases
    case 1
    then show ?thesis using "2.IH"(1) [OF 1 r, of out "mid @ [c]"] skip step by (simp add: minified.simps(2))
  next
    case 2
    show ?thesis
    proof (cases r)
      case Nil
      then show ?thesis
        using minify_loop_end [of out "mid @ [c]" rest] step skip 2
        by (intro exI [of _ "mid @ [c]"]) (simp add: minified.simps(2))
    next
      case (Cons d r')
      have r': "NUL \<notin> set r'" using r Cons by simp
      have b: "?b = blk out (mid @ [c, d]) r' rest" by (simp add: blk_def Cons)
      have s: "NUL \<notin> set (after_line r')" "NUL \<notin> set (after_comment r')"
        using set_after [of r'] r' by auto
      consider "d = CHR ''/''" | "d = CHR ''*''" | "d \<noteq> CHR ''/''" "d \<noteq> CHR ''*''" by blast
      then show ?thesis
      proof cases
        case 1
        obtain m1 where m1: "skip_oneline_comment ?b ?p = Some (length out + length m1)"
          "?b = blk out m1 (after_line r') rest"
          using oneline_blk [OF r', of out "mid @ [c, d]" rest] b by (auto simp: skip_oneline_comment_def)
        have "minify_loop ?b ?p (length out) = minify_loop (blk out m1 (after_line r') rest) (length out + length m1) (length out)"
          using step m1 2 1 Cons by simp
        then show ?thesis
          using "2.IH"(2) [OF 2(2,1) Cons 1 s(1), of out m1] 2 1 Cons arg_cong [OF m1(2), of length]
          by (simp add: minified.simps(2) length_blk)
      next
        case 2
        obtain m1 where m1: "skip_multiline_comment ?b ?p = Some (length out + length m1)"
          "?b = blk out m1 (after_comment r') rest"
          using multiline_blk [OF r', of out "mid @ [c, d]" rest] b by (auto simp: skip_multiline_comment_def)
        have "minify_loop ?b ?p (length out) = minify_loop (blk out m1 (after_comment r') rest) (length out + length m1) (length out)"
          using step m1 \<open>c = CHR ''/''\<close> \<open>\<not> is_blank c\<close> 2 Cons by simp
        then show ?thesis
          using "2.IH"(3) [OF \<open>\<not> is_blank c\<close> \<open>c = CHR ''/''\<close> Cons _ 2 s(2), of out m1] \<open>c = CHR ''/''\<close> \<open>\<not> is_blank c\<close> 2 Cons
            arg_cong [OF m1(2), of length]
          by (simp add: minified.simps(2) length_blk)
      next
        case 3
        have "minify_loop ?b ?p (length out) = minify_loop (blk out (mid @ [c]) r rest) (length out + length (mid @ [c])) (length out)"
          using step skip 2 3 Cons by simp
        then show ?thesis
          using "2.IH"(4) [OF 2(2,1) Cons 3 r, of out "mid @ [c]"] 2 3 Cons by (simp add: minified.simps(2))
      qed
    qed
  next
    case 3
    obtain u t where l: "literal r = (u, t)" by fastforce
    have t: "NUL \<notin> set t" using literal_append [OF l] r by simp
    obtain m1 where m0: "length m1 = length mid" and m1: "minify_string ?b ?p (length out)
        = Some (blk (out @ CHR 0x22 # u) m1 t rest, length (out @ CHR 0x22 # u) + length m1, length (out @ CHR 0x22 # u))"
      using minify_string_blk [OF r l, of out mid rest] 3(1) by auto
    have "minify_loop ?b ?p (length out) = minify_loop (blk (out @ CHR 0x22 # u) m1 t rest)
        (length (out @ CHR 0x22 # u) + length m1) (length (out @ CHR 0x22 # u))"
      using step m1 3 by simp
    then show ?thesis
      using "2.IH"(5) [OF 3(2,3,1) l [symmetric] t, of "out @ CHR 0x22 # u" m1] 3 l m0 literal_append [OF l]
      by (simp add: minified.simps(2))
  next
    case 4
    obtain m1 where m1: "length m1 = length mid"
      "store ?b (length out) c = Some (blk (out @ [c]) m1 r rest)"
      by (rule store_blk)
    have "minify_loop ?b ?p (length out)
        = minify_loop (blk (out @ [c]) m1 r rest) (length (out @ [c]) + length m1) (length (out @ [c]))"
      using step m1 4 by simp
    then show ?thesis
      using "2.IH"(6) [OF 4 r, of "out @ [c]" m1] 4 m1(1) by (simp add: minified.simps(2))
  qed
qed


lemma minified_simps:
  "is_blank c \<Longrightarrow> minified (c # r) = minified r"
  "minified [CHR ''/''] = []"
  "minified (CHR ''/'' # CHR ''/'' # r) = minified (after_line r)"
  "minified (CHR ''/'' # CHR ''*'' # r) = minified (after_comment r)"
  "d \<noteq> CHR ''/'' \<Longrightarrow> d \<noteq> CHR ''*'' \<Longrightarrow> minified (CHR ''/'' # d # r) = minified (d # r)"
  "literal r = (u, t) \<Longrightarrow> minified (CHR 0x22 # r) = CHR 0x22 # u @ minified t"
  "\<not> is_blank c \<Longrightarrow> c \<noteq> CHR ''/'' \<Longrightarrow> c \<noteq> CHR 0x22 \<Longrightarrow> minified (c # r) = c # minified r"
  by (subst minified.simps(2), simp add: is_blank_def)+

text \<open>The cases of \<open>minified\<close> as an induction rule.\<close>

lemma minified_induct [case_names nil blank slash line block lone string other]:
  assumes "P []" "\<And>c r. is_blank c \<Longrightarrow> P r \<Longrightarrow> P (c # r)" "P [CHR ''/'']"
    "\<And>r. P (after_line r) \<Longrightarrow> P (CHR ''/'' # CHR ''/'' # r)"
    "\<And>r. P (after_comment r) \<Longrightarrow> P (CHR ''/'' # CHR ''*'' # r)"
    "\<And>d r. d \<noteq> CHR ''/'' \<Longrightarrow> d \<noteq> CHR ''*'' \<Longrightarrow> P (d # r) \<Longrightarrow> P (CHR ''/'' # d # r)"
    "\<And>r u t. literal r = (u, t) \<Longrightarrow> P t \<Longrightarrow> P (CHR 0x22 # r)"
    "\<And>c r. \<not> is_blank c \<Longrightarrow> c \<noteq> CHR ''/'' \<Longrightarrow> c \<noteq> CHR 0x22 \<Longrightarrow> P r \<Longrightarrow> P (c # r)"
  shows "P s"
proof (induction s rule: measure_induct_rule [of length])
  case (less s)
  show ?case
  proof (cases s)
    case (Cons c r)
    consider "is_blank c" | "c = CHR ''/''" "r = []" | d r' where "c = CHR ''/''" "r = d # r'" | "c = CHR 0x22"
      | "\<not> is_blank c" "c \<noteq> CHR ''/''" "c \<noteq> CHR 0x22" by (cases r) auto
    then show ?thesis
    proof cases
      case (3 d r')
      have "P (after_line r')" "P (after_comment r')" "P (d # r')"
        using 3 Cons by (auto intro!: less.IH simp: less_Suc_eq_le le_SucI length_after)
      then show ?thesis
        using 3 Cons assms(4) [of r'] assms(5) [of r'] assms(6) [of d r']
        by (cases "d = CHR ''/''"; cases "d = CHR ''*''") simp_all
    next
      case 4
      obtain u t where l: "literal r = (u, t)" by fastforce
      then have "P t" using less.IH [of t] length_literal [OF l] Cons by simp
      then show ?thesis using 4 l Cons assms(7) by blast
    qed (use Cons assms(2,3,8) less.IH in auto)
  qed (use assms(1) in simp)
qed

lemma NUL_minified: "NUL \<notin> set s \<Longrightarrow> NUL \<notin> set (minified s)"
proof (induction s rule: minified_induct)
  case (line r)
  then show ?case using set_after [of r] by (auto simp: minified_simps)
next
  case (block r)
  then show ?case using set_after [of r] by (auto simp: minified_simps)
next
  case (string r u t)
  then show ?case using literal_append [of r u t] by (auto simp: minified_simps)
qed (auto simp: minified_simps)

lemma literal_nonempty: "literal (d # r) = (u, t) \<Longrightarrow> u \<noteq> []"
  by (cases r) (auto split: if_splits prod.splits)

lemma literal_again:
  "literal s = (u, t) \<Longrightarrow> (\<forall>r. literal (u @ r) = (u, r)) \<or> (u = s \<and> t = [])"
proof (induction s arbitrary: u t rule: literal.induct)
  case (2 c s)
  consider "c = CHR 0x22" | "c \<noteq> CHR 0x22" "s = []" | r' where "c = CHR 0x5C" "s = CHR 0x22 # r'"
    | d r' where "c \<noteq> CHR 0x22" "s = d # r'" "\<not> (c = CHR 0x5C \<and> d = CHR 0x22)"
    by (cases s) auto
  then show ?case
  proof cases
    case (3 r')
    obtain u' t' where l: "literal r' = (u', t')" by fastforce
    then show ?thesis using "2.IH"(1) [OF _ 3(2), of u' t'] "2.prems" 3 by auto
  next
    case (4 d r')
    obtain u' t' where l: "literal (d # r') = (u', t')" by fastforce
    have u: "u = c # u'" "t = t'" using "2.prems" 4 l by (auto split: if_splits)
    obtain u'' where u'': "u' = d # u''"
    proof (cases u')
      case Nil
      with literal_nonempty [OF l] show ?thesis by simp
    next
      case (Cons x xs)
      with that literal_append [OF l] show ?thesis by simp
    qed
    show ?thesis using "2.IH"(2) [OF 4(1,2), of u' t'] 4 l u u'' by auto
  qed (use "2.prems" in auto)
qed simp

lemma minified_idem: "minified (minified s) = minified s"
proof (induction s rule: minified_induct)
  case (string r u t)
  show ?case
  proof (cases "t = []")
    case True
    then have "literal u = (u, [])" using literal_again [OF string(1)] literal_append [OF string(1)] string(1)
      by (auto dest: spec [of _ "[]"])
    then show ?thesis using string True by (simp add: minified_simps)
  next
    case False
    then have "literal (u @ minified t) = (u, minified t)" using literal_again [OF string(1)] by auto
    then show ?thesis using string by (simp add: minified_simps)
  qed
qed (simp_all add: minified_simps)

text \<open>What one call leaves in the block.\<close>

lemma minify_block:
  assumes "NUL \<notin> set s"
  shows "\<exists>b. cJSON_Minify (Some (s @ NUL # rest)) = Some (Some b) \<and> cstr b = minified s
     \<and> length b = length (s @ NUL # rest) \<and> drop (Suc (length s)) b = rest"
proof -
  obtain mid where m: "minify_loop (s @ NUL # rest) 0 0 = Some (blk (minified s) mid [] rest, length (minified s))"
    and l: "length (minified s) + length mid = length s"
    using minify_blk [OF assms, of "[]" "[]" rest] by (auto simp: blk_def)
  have n: "NUL \<notin> set (minified s)" by (rule NUL_minified [OF assms])
  obtain mid' where "store (blk (minified s) mid [] rest) (length (minified s)) NUL = Some (minified s @ NUL # mid' @ rest)"
    "length mid' = length mid"
  proof (cases mid)
    case Nil
    then show ?thesis using that [of "[]"] by (simp add: blk_def list_update_append)
  next
    case (Cons x m)
    then show ?thesis using that [of "m @ [NUL]"] by (simp add: blk_def list_update_append)
  qed
  then show ?thesis
    using m l n drop_append_at [of "minified s @ NUL # mid'" "Suc (length s)" rest]
    by (intro exI [of _ "minified s @ NUL # mid' @ rest"]) (simp add: cJSON_Minify_def cstr_append_NUL)
qed

subsection \<open>Properties\<close>

text \<open>C19: \<open>cJSON_Minify\<close> works in place on any NUL-terminated block: it never reads or writes outside the
  text and its NUL, and leaves the minified text, itself NUL-terminated, at the start of the block.\<close>

theorem cJSON_Minify_correct:
  assumes "NUL \<notin> set s"
  shows "\<exists>b. cJSON_Minify (Some (s @ NUL # rest)) = Some (Some b) \<and> cstr b = minified s
     \<and> length b = length (s @ NUL # rest) \<and> drop (Suc (length s)) b = rest"
  by (rule minify_block [OF assms])

theorem cJSON_Minify_correct_witness:
  "\<exists>b. cJSON_Minify (Some (''[1, 2] // x'' @ NUL # ''y'')) = Some (Some b) \<and> cstr b = minified ''[1, 2] // x''
     \<and> length b = length (''[1, 2] // x'' @ NUL # ''y'') \<and> drop (Suc (length ''[1, 2] // x'')) b = ''y''"
  by (rule cJSON_Minify_correct) simp

text \<open>Minifying a second time changes nothing: what \<open>cJSON_Minify\<close> leaves has no blank and no comment
  outside its strings.\<close>

theorem cJSON_Minify_idempotent:
  assumes "NUL \<notin> set s"
  shows "\<exists>b b'. cJSON_Minify (Some (s @ [NUL])) = Some (Some b) \<and> cJSON_Minify (Some (cstr b @ [NUL])) = Some (Some b')
     \<and> cstr b' = cstr b"
proof -
  obtain b where b: "cJSON_Minify (Some (s @ [NUL])) = Some (Some b)" "cstr b = minified s"
    using minify_block [OF assms, of "[]"] by blast
  moreover obtain b' where "cJSON_Minify (Some (cstr b @ [NUL])) = Some (Some b')" "cstr b' = minified (cstr b)"
    using minify_block [of "cstr b" "[]"] by auto
  ultimately show ?thesis by (simp add: minified_idem)
qed

theorem cJSON_Minify_idempotent_witness:
  "\<exists>b b'. cJSON_Minify (Some (''[ 1]'' @ [NUL])) = Some (Some b) \<and> cJSON_Minify (Some (cstr b @ [NUL])) = Some (Some b')
     \<and> cstr b' = cstr b"
  by (rule cJSON_Minify_idempotent) simp

text \<open>The array of a string that is one backslash and a second string \<open>x\<close>.\<close>

definition backslash_and :: "string \<Rightarrow> string" where
  "backslash_and x = [CHR ''['', CHR 0x22, CHR 0x5C, CHR 0x5C, CHR 0x22, CHR '','', CHR 0x22] @ x @ [CHR 0x22, CHR '']'']"

text \<open>A backslash before the closing quote is taken for an escape of the quote even when it is itself
  escaped: after a string that ends in a backslash the next string counts as being outside, and the
  blank in it is removed, so minifying changes the value of the document.\<close>

theorem cJSON_Minify_changes_string:
  "\<exists>b. cJSON_Minify (Some (backslash_and ''a b'' @ [NUL])) = Some (Some b) \<and> cstr b = backslash_and ''ab''"
proof -
  have "minified (backslash_and ''a b'') = backslash_and ''ab''"
    by (simp add: backslash_and_def minified.simps(2) is_blank_def)
  moreover have "NUL \<notin> set (backslash_and ''a b'')" by (simp add: backslash_and_def)
  ultimately show ?thesis
    using minify_block [of "backslash_and ''a b''" "[]"] by auto
qed

end
