(* ===== verification/CJson_Minify_Print.thy ===== *)
theory CJson_Minify_Print
  imports CJson_Minify CJson_Print
begin

text \<open>
  \<open>cJSON_Minify\<close> and the printer of \<open>seance6/project/cJSON.c\<close>: the formatted text of a tree, minified, is
  its unformatted text, provided no string ends in a backslash.
\<close>

definition plain :: "char \<Rightarrow> bool" where
  "plain c \<longleftrightarrow> \<not> is_blank c \<and> c \<noteq> CHR ''/'' \<and> c \<noteq> CHR 0x22"

lemma minified_plain: "list_all plain s \<Longrightarrow> minified (s @ r) = s @ minified r"
  by (induction s) (simp_all add: plain_def minified_simps)

lemma minified_blanks: "list_all is_blank s \<Longrightarrow> minified (s @ r) = minified r"
  by (induction s) (simp_all add: minified_simps)

subsection \<open>Strings\<close>

definition safe_string :: "string option \<Rightarrow> bool" where
  "safe_string s \<longleftrightarrow> (case s of None \<Rightarrow> True | Some t \<Rightarrow> t = [] \<or> last t \<noteq> CHR 0x5C)"

declare literal.simps(2) [simp del]

lemma literal_cons:
  "c \<noteq> CHR 0x22 \<Longrightarrow> c \<noteq> CHR 0x5C \<Longrightarrow> r \<noteq> [] \<Longrightarrow> literal r = (u, t) \<Longrightarrow> literal (c # r) = (c # u, t)"
  "d \<noteq> CHR 0x22 \<Longrightarrow> literal (d # r) = (u, t) \<Longrightarrow> literal (CHR 0x5C # d # r) = (CHR 0x5C # u, t)"
  "literal r = (u, t) \<Longrightarrow> literal (CHR 0x5C # CHR 0x22 # r) = (CHR 0x5C # CHR 0x22 # u, t)"
proof -
  show "c \<noteq> CHR 0x22 \<Longrightarrow> c \<noteq> CHR 0x5C \<Longrightarrow> r \<noteq> [] \<Longrightarrow> literal r = (u, t) \<Longrightarrow> literal (c # r) = (c # u, t)"
    by (cases r) (simp_all add: literal.simps(2) [of c] del: literal.simps)
qed (simp_all add: literal.simps(2) [of "CHR 0x5C"] del: literal.simps)

lemma escape_string_simps [simp]:
  "escape_string [] = []" "escape_string (c # s) = escape_char c @ escape_string s"
  by (simp_all add: escape_string_def)

lemma hex_char_not_special: "n < 16 \<Longrightarrow> hex_char n \<noteq> CHR 0x22 \<and> hex_char n \<noteq> CHR 0x5C"
proof -
  have "list_all (\<lambda>n. hex_char n \<noteq> CHR 0x22 \<and> hex_char n \<noteq> CHR 0x5C) [0..<16]" by code_simp
  then show "n < 16 \<Longrightarrow> hex_char n \<noteq> CHR 0x22 \<and> hex_char n \<noteq> CHR 0x5C" by (simp add: list_all_iff)
qed

text \<open>The escape of one character is one piece of the literal, whatever follows.\<close>

lemma literal_escape_char:
  assumes "r \<noteq> []" "c = CHR 0x5C \<longrightarrow> hd r \<noteq> CHR 0x22" "literal r = (u, t)"
  shows "literal (escape_char c @ r) = (escape_char c @ u, t)"
proof -
  have h: "hex_char (ord c div 16) \<noteq> CHR 0x22" "hex_char (ord c div 16) \<noteq> CHR 0x5C"
    "hex_char (ord c mod 16) \<noteq> CHR 0x22" "hex_char (ord c mod 16) \<noteq> CHR 0x5C"
    using hex_char_not_special [of "ord c div 16"] hex_char_not_special [of "ord c mod 16"] nat_of_char_less_256 [of c]
    by (simp_all add: div_less_iff_less_mult)
  have b: "literal (CHR 0x5C # r) = (CHR 0x5C # u, t)" if "c = CHR 0x5C"
    using that assms by (cases r) (auto intro: literal_cons(2))
  show ?thesis
    using assms(1,3) h b
    by (auto simp: escape_char_def u04x_def literal_cons)
qed

lemma hd_escape: "escape_char c @ s \<noteq> []" "hd (escape_char c @ s) \<noteq> CHR 0x22"
  by (auto simp: escape_char_def)

lemma literal_escape:
  "safe_string (Some s) \<Longrightarrow> literal (escape_string s @ CHR 0x22 # r) = (escape_string s @ [CHR 0x22], r)"
proof (induction s)
  case (Cons c s)
  have s: "safe_string (Some s)" "s = [] \<longrightarrow> c \<noteq> CHR 0x5C" using Cons.prems by (auto simp: safe_string_def split: if_splits)
  have "c = CHR 0x5C \<longrightarrow> hd (escape_string s @ CHR 0x22 # r) \<noteq> CHR 0x22"
    using s(2) hd_escape by (cases s) auto
  then show ?case
    using literal_escape_char [OF _ _ Cons.IH [OF s(1)]] by simp
qed (simp add: literal.simps(2))

lemma minified_quoted: "safe_string k \<Longrightarrow> minified (quoted k @ r) = quoted k @ minified r"
proof -
  assume k: "safe_string k"
  have "literal (CHR 0x22 # r) = ([CHR 0x22], r)" by (simp add: literal.simps(2))
  then show ?thesis
    using k literal_escape [of "the k" r] by (cases k) (simp_all add: quoted_def minified_simps)
qed

subsection \<open>Numbers\<close>

lemma plain_digits: "list_all plain (dec_nat n)"
proof -
  have "is_digit c \<Longrightarrow> plain c" for c by (auto simp: is_digit_def plain_def is_blank_def)
  then show ?thesis using dec_nat_digits [of n] by (auto simp: list_all_iff)
qed

lemma plain_strip: "list_all plain s \<Longrightarrow> list_all plain (strip_zeros s)"
  using set_dropWhileD [of _ _ "rev s"] by (auto simp: strip_zeros_def list_all_iff)

lemma plain_with_point: "list_all plain i \<Longrightarrow> list_all plain f \<Longrightarrow> list_all plain (with_point i f)"
  using plain_strip [of f] by (simp add: with_point_def plain_def is_blank_def)

lemma plain_part: "list_all plain s \<Longrightarrow> list_all plain (take n s) \<and> list_all plain (drop n s)"
  by (auto simp: list_all_iff dest: in_set_takeD in_set_dropD)

lemma plain_fmt_g: "list_all plain (fmt_g P q)"
proof -
  have c: "plain CHR ''0''" "plain CHR ''-''" "plain CHR ''+''" "plain CHR ''e''" by (simp_all add: plain_def is_blank_def)
  have w: "list_all plain (with_point (take n (dec_nat k)) (drop n (dec_nat k)))" for n k
    by (intro plain_with_point) (simp_all add: plain_part plain_digits)
  have z: "list_all plain (with_point ''0'' (replicate n (CHR ''0'') @ dec_nat k))" for n k
    by (intro plain_with_point) (simp_all add: c plain_digits list_all_iff [of plain "replicate _ _"])
  show ?thesis by (simp add: fmt_g_def Let_def w z c plain_digits)
qed

lemma plain_number_text: "list_all plain (number_text v)"
proof -
  have "plain CHR ''-''" by (simp add: plain_def is_blank_def)
  then have "list_all plain (dec_int i)" for i by (simp add: dec_int_def plain_digits)
  moreover have "list_all plain ''null''" by (simp add: plain_def is_blank_def)
  ultimately show ?thesis by (simp add: number_text_def plain_fmt_g Let_def split: double.split prod.split)
qed

subsection \<open>Trees\<close>

fun tidy :: "cJSON \<Rightarrow> bool" where
  "tidy (CJSON ty vs vi vd k ch) \<longleftrightarrow>
     ty AND 0xFF \<noteq> cJSON_Raw \<and> safe_string vs \<and> safe_string k \<and> list_all tidy ch"

lemma plain_words: "list_all plain ''null''" "list_all plain ''true''" "list_all plain ''false''"
  by (simp_all add: plain_def is_blank_def)

lemma tabs_blank: "list_all is_blank (tabs d)"
  by (simp add: tabs_def list_all_iff is_blank_def)

definition minifies :: "string option \<Rightarrow> string option \<Rightarrow> bool" where
  "minifies s t \<longleftrightarrow> (case (s, t) of (None, None) \<Rightarrow> True | (Some u, Some v) \<Rightarrow> (\<forall>r. minified (u @ r) = v @ minified r) | _ \<Rightarrow> False)"

lemma minifies_simps [simp]:
  "minifies None t \<longleftrightarrow> t = None" "minifies (Some u) t \<longleftrightarrow> (\<exists>v. t = Some v \<and> (\<forall>r. minified (u @ r) = v @ minified r))"
  by (auto simp: minifies_def split: option.splits)

lemma render_minifies:
  "fmt \<Longrightarrow> tidy v \<Longrightarrow> minifies (render fmt d v) (render False d v)"
  "fmt \<Longrightarrow> list_all tidy cs \<Longrightarrow> minifies (render_elements fmt d cs) (render_elements False d cs)"
  "fmt \<Longrightarrow> list_all tidy ms \<Longrightarrow> minifies (render_members fmt d ms) (render_members False d ms)"
proof (induction fmt d v and fmt d cs and fmt d ms rule: render_render_elements_render_members.induct)
  case (1 fmt d ty vs vi vd k ch)
  let ?t = "ty AND 0xFF"
  have raw: "?t \<noteq> cJSON_Raw" "safe_string vs" "list_all tidy ch" using 1(4) by simp_all
  have el: "minifies (render_elements fmt (Suc d) ch) (render_elements False (Suc d) ch)"
    if "?t = cJSON_Array" "\<not> CJSON_NESTING_LIMIT \<le> d"
    using 1(1) [OF refl _ _ _ _ _ _ that] 1(3) raw that by (simp add: type_defs)
  have ms: "minifies (render_members fmt (Suc d) ch) (render_members False (Suc d) ch)"
    if "?t = cJSON_Object" "\<not> CJSON_NESTING_LIMIT \<le> d"
    using 1(2) [OF refl _ _ _ _ _ _ _ that] 1(3) raw that by (simp add: type_defs)
  consider "?t = cJSON_NULL" | "?t = cJSON_False" | "?t = cJSON_True" | "?t = cJSON_Number" | "?t = cJSON_String"
    | "?t = cJSON_Array" | "?t = cJSON_Object"
    | "?t \<notin> {cJSON_NULL, cJSON_False, cJSON_True, cJSON_Number, cJSON_String, cJSON_Array, cJSON_Object}" by blast
  then show ?case
  proof cases
    case 6
    show ?thesis
    proof (cases "CJSON_NESTING_LIMIT \<le> d")
      case False
      with el [OF 6] show ?thesis using 6
        by (cases "render_elements fmt (Suc d) ch") (auto simp: type_defs minified_simps is_blank_def)
    qed (use 6 in \<open>simp add: type_defs\<close>)
  next
    case 7
    show ?thesis
    proof (cases "CJSON_NESTING_LIMIT \<le> d")
      case False
      with ms [OF 7] show ?thesis using 7 1(3)
        by (cases "render_members fmt (Suc d) ch")
          (auto simp: type_defs minified_simps is_blank_def sep_def minified_blanks tabs_blank)
    qed (use 7 in \<open>simp add: type_defs\<close>)
  qed (use raw minified_plain [OF plain_words(1)] minified_plain [OF plain_words(2)] minified_plain [OF plain_words(3)]
      minified_plain [OF plain_number_text] minified_quoted [OF raw(2)] in \<open>simp_all add: type_defs\<close>)
next
  case (3 fmt d c cs)
  have t: "tidy c" "list_all tidy cs" using 3(4) by simp_all
  note c = 3(1) [OF 3(3) t(1)]
  show ?case
  proof (cases "render fmt d c")
    case None
    with c show ?thesis by simp
  next
    case (Some u)
    note cs = 3(2) [OF Some 3(3) t(2)]
    obtain v where v: "render False d c = Some v" "\<And>r. minified (u @ r) = v @ minified r" using c Some by auto
    show ?thesis
      using cs 3(3) Some v by (cases "render_elements fmt d cs") (auto simp: sep_def minified_simps is_blank_def)
  qed
next
  case (5 fmt d c cs)
  have t: "tidy c" "list_all tidy cs" using 5(4) by simp_all
  have k: "safe_string (istring c)" using t(1) by (cases c) simp
  note c = 5(1) [OF 5(3) t(1)]
  show ?case
  proof (cases "render fmt d c")
    case None
    with c show ?thesis by simp
  next
    case (Some u)
    note cs = 5(2) [OF Some 5(3) t(2)]
    obtain v where v: "render False d c = Some v" "\<And>r. minified (u @ r) = v @ minified r" using c Some by auto
    show ?thesis
      using cs 5(3) Some v
      by (cases "render_members fmt d cs")
        (auto simp: sep_def minified_simps is_blank_def minified_blanks tabs_blank minified_quoted [OF k])
  qed
qed simp_all

subsection \<open>Property\<close>



end
