(* ===== verification/CJson_List.thy ===== *)
theory CJson_List
  imports CJson_Access "HOL-Library.Monad_Syntax"
begin

text \<open>
  The pointer level of \<open>seance6/project/cJSON.c\<close>: nodes with \<open>next\<close>, \<open>prev\<close> and \<open>child\<close> pointers,
  appending, inserting, detaching, replacing and deleting items. \<open>prev\<close> of the first child is the
  last child. A NULL pointer is \<open>None\<close>; an access to a block that is not allocated (a dangling
  pointer) makes the outer option \<open>None\<close>.
\<close>

subsection \<open>The heap\<close>

record node =
  next_ptr :: "nat option"
  prev_ptr :: "nat option"
  child_ptr :: "nat option"
  node_type :: int
  vstring :: "nat option"
  vint :: int
  vdouble :: double
  name_ptr :: "nat option"

text \<open>\<open>nodes\<close> and \<open>texts\<close> are the allocated blocks, \<open>brk\<close> bounds their addresses, \<open>avail\<close> counts the
  allocations that still succeed.\<close>

record heap =
  nodes :: "nat \<Rightarrow> node option"
  texts :: "nat \<Rightarrow> string option"
  brk :: nat
  avail :: nat

definition update_node :: "nat \<Rightarrow> (node \<Rightarrow> node) \<Rightarrow> heap \<Rightarrow> heap option" where
  "update_node a f h = (case nodes h a of None \<Rightarrow> None | Some n \<Rightarrow> Some (h\<lparr>nodes := (nodes h)(a \<mapsto> f n)\<rparr>))"

definition set_next :: "nat \<Rightarrow> nat option \<Rightarrow> heap \<Rightarrow> heap option" where
  "set_next a p = update_node a (\<lambda>n. n\<lparr>next_ptr := p\<rparr>)"

definition set_prev :: "nat \<Rightarrow> nat option \<Rightarrow> heap \<Rightarrow> heap option" where
  "set_prev a p = update_node a (\<lambda>n. n\<lparr>prev_ptr := p\<rparr>)"

definition set_first :: "nat \<Rightarrow> nat option \<Rightarrow> heap \<Rightarrow> heap option" where
  "set_first a p = update_node a (\<lambda>n. n\<lparr>child_ptr := p\<rparr>)"

text \<open>\<open>free\<close> of a NULL pointer does nothing; of a block that is not allocated it is an error.\<close>

definition free_text :: "nat option \<Rightarrow> heap \<Rightarrow> heap option" where
  "free_text p h =
     (case p of
        None \<Rightarrow> Some h
      | Some a \<Rightarrow> if texts h a = None then None else Some (h\<lparr>texts := (texts h)(a := None)\<rparr>))"

definition free_node :: "nat \<Rightarrow> heap \<Rightarrow> heap option" where
  "free_node a h = (if nodes h a = None then None else Some (h\<lparr>nodes := (nodes h)(a := None)\<rparr>))"

definition zero_node :: node where
  "zero_node = \<lparr>next_ptr = None, prev_ptr = None, child_ptr = None, node_type = 0, vstring = None, vint = 0,
     vdouble = DNum 0, name_ptr = None\<rparr>"

definition New_Item :: "heap \<Rightarrow> nat option \<times> heap" where
  "New_Item h =
     (if avail h = 0 then (None, h)
      else (Some (brk h), h\<lparr>nodes := (nodes h)(brk h \<mapsto> zero_node), brk := Suc (brk h), avail := avail h - 1\<rparr>))"

definition strdup :: "string \<Rightarrow> heap \<Rightarrow> nat option \<times> heap" where
  "strdup s h =
     (if avail h = 0 then (None, h)
      else (Some (brk h), h\<lparr>texts := (texts h)(brk h \<mapsto> s), brk := Suc (brk h), avail := avail h - 1\<rparr>))"

subsection \<open>Deletion\<close>

text \<open>\<open>cJSON_Delete\<close> may run for ever on a cyclic structure; \<open>None\<close> then, as for a dangling pointer.\<close>

partial_function (option) Delete :: "nat option \<Rightarrow> heap \<Rightarrow> heap option" where
  "Delete item h =
     (case item of
        None \<Rightarrow> Some h
      | Some a \<Rightarrow> do {
          n \<leftarrow> nodes h a;
          h \<leftarrow> (if node_type n AND cJSON_IsReference = 0 \<and> child_ptr n \<noteq> None then Delete (child_ptr n) h else Some h);
          h \<leftarrow> (if node_type n AND cJSON_IsReference = 0 then free_text (vstring n) h else Some h);
          h \<leftarrow> (if node_type n AND cJSON_StringIsConst = 0 then free_text (name_ptr n) h else Some h);
          h \<leftarrow> free_node a h;
          Delete (next_ptr n) h })"

subsection \<open>Lookup\<close>

fun walk :: "nat \<Rightarrow> nat option \<Rightarrow> heap \<Rightarrow> nat option option" where
  "walk index None h = Some None"
| "walk 0 (Some a) h = Some (Some a)"
| "walk (Suc index) (Some a) h = (case nodes h a of None \<Rightarrow> None | Some n \<Rightarrow> walk index (next_ptr n) h)"

definition array_item :: "nat option \<Rightarrow> nat \<Rightarrow> heap \<Rightarrow> nat option option" where
  "array_item array index h =
     (case array of None \<Rightarrow> Some None | Some a \<Rightarrow> do { n \<leftarrow> nodes h a; walk index (child_ptr n) h })"

text \<open>The name in a node: \<open>None\<close> of the inner option for NULL.\<close>

definition name_of :: "node \<Rightarrow> heap \<Rightarrow> string option option" where
  "name_of n h = (case name_ptr n of None \<Rightarrow> Some None | Some s \<Rightarrow> map_option Some (texts h s))"

partial_function (option) find_item :: "bool \<Rightarrow> string \<Rightarrow> nat option \<Rightarrow> heap \<Rightarrow> nat option option" where
  "find_item case_sensitive name current h =
     (case current of
        None \<Rightarrow> Some None
      | Some a \<Rightarrow> do {
          n \<leftarrow> nodes h a;
          k \<leftarrow> name_of n h;
          (if (if case_sensitive then k \<noteq> None \<and> k \<noteq> Some name else case_insensitive_strcmp (Some name) k \<noteq> 0)
           then find_item case_sensitive name (next_ptr n) h
           else Some (if k = None then None else Some a)) })"

definition object_item :: "nat option \<Rightarrow> string option \<Rightarrow> bool \<Rightarrow> heap \<Rightarrow> nat option option" where
  "object_item object name case_sensitive h =
     (case (object, name) of
        (Some a, Some s) \<Rightarrow> do { n \<leftarrow> nodes h a; find_item case_sensitive s (child_ptr n) h }
      | _ \<Rightarrow> Some None)"

subsection \<open>Adding items\<close>

definition suffix_object :: "nat \<Rightarrow> nat \<Rightarrow> heap \<Rightarrow> heap option" where
  "suffix_object prev item h = do { h \<leftarrow> set_next prev (Some item) h; set_prev item (Some prev) h }"

definition add_item_to_array :: "nat option \<Rightarrow> nat option \<Rightarrow> heap \<Rightarrow> (bool \<times> heap) option" where
  "add_item_to_array array item h =
     (case (array, item) of
        (Some a, Some i) \<Rightarrow>
          if a = i then Some (False, h)
          else do {
            n \<leftarrow> nodes h a;
            case child_ptr n of
              None \<Rightarrow> do {
                h \<leftarrow> set_first a (Some i) h;
                h \<leftarrow> set_prev i (Some i) h;
                h \<leftarrow> set_next i None h;
                Some (True, h) }
            | Some c \<Rightarrow> do {
                cn \<leftarrow> nodes h c;
                case prev_ptr cn of
                  None \<Rightarrow> Some (True, h)
                | Some p \<Rightarrow> do {
                    h \<leftarrow> suffix_object p i h;
                    h \<leftarrow> set_prev c (Some i) h;
                    Some (True, h) } } }
      | _ \<Rightarrow> Some (False, h))"

definition cJSON_AddItemToArray :: "nat option \<Rightarrow> nat option \<Rightarrow> heap \<Rightarrow> (bool \<times> heap) option" where
  "cJSON_AddItemToArray = add_item_to_array"

text \<open>\<open>name\<close> is the address of the key: the constant-key variant stores it, the other copies the text.\<close>

definition add_item_to_object ::
  "nat option \<Rightarrow> nat option \<Rightarrow> nat option \<Rightarrow> bool \<Rightarrow> heap \<Rightarrow> (bool \<times> heap) option" where
  "add_item_to_object object name item constant_key h =
     (case (object, name, item) of
        (Some a, Some s, Some i) \<Rightarrow>
          if a = i then Some (False, h)
          else do {
            n \<leftarrow> nodes h i;
            new \<leftarrow> (if constant_key then Some (Some s, h) else map_option (\<lambda>key. strdup key h) (texts h s));
            (case new of
               (None, h) \<Rightarrow> Some (False, h)
             | (Some new_key, h) \<Rightarrow> do {
                 h \<leftarrow> (if node_type n AND cJSON_StringIsConst = 0 then free_text (name_ptr n) h else Some h);
                 h \<leftarrow> update_node i (\<lambda>n. n\<lparr>name_ptr := Some new_key,
                        node_type := (if constant_key then node_type n OR cJSON_StringIsConst
                                      else node_type n AND NOT cJSON_StringIsConst)\<rparr>) h;
                 add_item_to_array (Some a) (Some i) h }) }
      | _ \<Rightarrow> Some (False, h))"

definition cJSON_AddItemToObject :: "nat option \<Rightarrow> nat option \<Rightarrow> nat option \<Rightarrow> heap \<Rightarrow> (bool \<times> heap) option" where
  "cJSON_AddItemToObject object name item = add_item_to_object object name item False"

definition cJSON_AddItemToObjectCS :: "nat option \<Rightarrow> nat option \<Rightarrow> nat option \<Rightarrow> heap \<Rightarrow> (bool \<times> heap) option" where
  "cJSON_AddItemToObjectCS object name item = add_item_to_object object name item True"

definition create_reference :: "nat option \<Rightarrow> heap \<Rightarrow> (nat option \<times> heap) option" where
  "create_reference item h =
     (case item of
        None \<Rightarrow> Some (None, h)
      | Some i \<Rightarrow>
          (case New_Item h of
             (None, h) \<Rightarrow> Some (None, h)
           | (Some r, h) \<Rightarrow> do {
               n \<leftarrow> nodes h i;
               h \<leftarrow> update_node r (\<lambda>_. n\<lparr>name_ptr := None, node_type := node_type n OR cJSON_IsReference,
                      next_ptr := None, prev_ptr := None\<rparr>) h;
               Some (Some r, h) }))"

definition cJSON_AddItemReferenceToArray :: "nat option \<Rightarrow> nat option \<Rightarrow> heap \<Rightarrow> (bool \<times> heap) option" where
  "cJSON_AddItemReferenceToArray array item h =
     (if array = None then Some (False, h)
      else do { (r, h) \<leftarrow> create_reference item h; add_item_to_array array r h })"

definition cJSON_AddItemReferenceToObject :: "nat option \<Rightarrow> nat option \<Rightarrow> nat option \<Rightarrow> heap \<Rightarrow> (bool \<times> heap) option" where
  "cJSON_AddItemReferenceToObject object name item h =
     (if object = None \<or> name = None then Some (False, h)
      else do { (r, h) \<leftarrow> create_reference item h; add_item_to_object object name r False h })"

text \<open>
  The \<open>cJSON_Add...ToObject\<close> family: create, add, and delete the item when it was not added.
\<close>

definition add_created :: "(heap \<Rightarrow> (nat option \<times> heap) option) \<Rightarrow> nat option \<Rightarrow> nat option \<Rightarrow> heap \<Rightarrow> (nat option \<times> heap) option" where
  "add_created create object name h = do {
     (i, h) \<leftarrow> create h;
     (ok, h) \<leftarrow> add_item_to_object object name i False h;
     if ok then Some (i, h) else map_option (Pair None) (Delete i h) }"

definition create_with :: "(node \<Rightarrow> node) \<Rightarrow> heap \<Rightarrow> (nat option \<times> heap) option" where
  "create_with f h =
     (case New_Item h of
        (None, h) \<Rightarrow> Some (None, h)
      | (Some i, h) \<Rightarrow> map_option (Pair (Some i)) (update_node i f h))"

definition create_text :: "int \<Rightarrow> string option \<Rightarrow> heap \<Rightarrow> (nat option \<times> heap) option" where
  "create_text ty s h =
     (case New_Item h of
        (None, h) \<Rightarrow> Some (None, h)
      | (Some i, h) \<Rightarrow> do {
          h \<leftarrow> update_node i (\<lambda>n. n\<lparr>node_type := ty\<rparr>) h;
          (case (case s of None \<Rightarrow> (None, h) | Some t \<Rightarrow> strdup t h) of
             (None, h) \<Rightarrow> map_option (Pair None) (Delete (Some i) h)
           | (Some p, h) \<Rightarrow> map_option (Pair (Some i)) (update_node i (\<lambda>n. n\<lparr>vstring := Some p\<rparr>) h)) })"

definition cJSON_AddNullToObject :: "nat option \<Rightarrow> nat option \<Rightarrow> heap \<Rightarrow> (nat option \<times> heap) option" where
  "cJSON_AddNullToObject = add_created (create_with (\<lambda>n. n\<lparr>node_type := cJSON_NULL\<rparr>))"

definition cJSON_AddTrueToObject :: "nat option \<Rightarrow> nat option \<Rightarrow> heap \<Rightarrow> (nat option \<times> heap) option" where
  "cJSON_AddTrueToObject = add_created (create_with (\<lambda>n. n\<lparr>node_type := cJSON_True\<rparr>))"

definition cJSON_AddFalseToObject :: "nat option \<Rightarrow> nat option \<Rightarrow> heap \<Rightarrow> (nat option \<times> heap) option" where
  "cJSON_AddFalseToObject = add_created (create_with (\<lambda>n. n\<lparr>node_type := cJSON_False\<rparr>))"

definition cJSON_AddBoolToObject :: "nat option \<Rightarrow> nat option \<Rightarrow> bool \<Rightarrow> heap \<Rightarrow> (nat option \<times> heap) option" where
  "cJSON_AddBoolToObject object name b =
     add_created (create_with (\<lambda>n. n\<lparr>node_type := (if b then cJSON_True else cJSON_False)\<rparr>)) object name"

definition cJSON_AddNumberToObject :: "nat option \<Rightarrow> nat option \<Rightarrow> double \<Rightarrow> heap \<Rightarrow> (nat option \<times> heap) option" where
  "cJSON_AddNumberToObject object name d =
     add_created (create_with (\<lambda>n. n\<lparr>node_type := cJSON_Number, vdouble := d, vint := double_to_valueint d\<rparr>)) object name"

definition cJSON_AddStringToObject :: "nat option \<Rightarrow> nat option \<Rightarrow> string option \<Rightarrow> heap \<Rightarrow> (nat option \<times> heap) option" where
  "cJSON_AddStringToObject object name s = add_created (create_text cJSON_String s) object name"

definition cJSON_AddRawToObject :: "nat option \<Rightarrow> nat option \<Rightarrow> string option \<Rightarrow> heap \<Rightarrow> (nat option \<times> heap) option" where
  "cJSON_AddRawToObject object name s = add_created (create_text cJSON_Raw s) object name"

definition cJSON_AddObjectToObject :: "nat option \<Rightarrow> nat option \<Rightarrow> heap \<Rightarrow> (nat option \<times> heap) option" where
  "cJSON_AddObjectToObject = add_created (create_with (\<lambda>n. n\<lparr>node_type := cJSON_Object\<rparr>))"

definition cJSON_AddArrayToObject :: "nat option \<Rightarrow> nat option \<Rightarrow> heap \<Rightarrow> (nat option \<times> heap) option" where
  "cJSON_AddArrayToObject = add_created (create_with (\<lambda>n. n\<lparr>node_type := cJSON_Array\<rparr>))"

subsection \<open>Detaching, inserting and replacing\<close>

definition cJSON_DetachItemViaPointer :: "nat option \<Rightarrow> nat option \<Rightarrow> heap \<Rightarrow> (nat option \<times> heap) option" where
  "cJSON_DetachItemViaPointer parent item h =
     (case (parent, item) of
        (Some p, Some i) \<Rightarrow> do {
          pn \<leftarrow> nodes h p;
          n \<leftarrow> nodes h i;
          if Some i \<noteq> child_ptr pn \<and> prev_ptr n = None then Some (None, h)
          else do {
            h \<leftarrow> (if Some i \<noteq> child_ptr pn then set_next (the (prev_ptr n)) (next_ptr n) h else Some h);
            h \<leftarrow> (case next_ptr n of None \<Rightarrow> Some h | Some x \<Rightarrow> set_prev x (prev_ptr n) h);
            h \<leftarrow> (if Some i = child_ptr pn then set_first p (next_ptr n) h
                 else if next_ptr n = None then
                   (case child_ptr pn of None \<Rightarrow> None | Some c \<Rightarrow> set_prev c (prev_ptr n) h)
                 else Some h);
            h \<leftarrow> set_prev i None h;
            h \<leftarrow> set_next i None h;
            Some (Some i, h) } }
      | _ \<Rightarrow> Some (None, h))"

definition cJSON_DetachItemFromArray :: "nat option \<Rightarrow> int \<Rightarrow> heap \<Rightarrow> (nat option \<times> heap) option" where
  "cJSON_DetachItemFromArray array which h =
     (if which < 0 then Some (None, h)
      else do { i \<leftarrow> array_item array (nat which) h; cJSON_DetachItemViaPointer array i h })"

definition cJSON_DeleteItemFromArray :: "nat option \<Rightarrow> int \<Rightarrow> heap \<Rightarrow> heap option" where
  "cJSON_DeleteItemFromArray array which h = do { (i, h) \<leftarrow> cJSON_DetachItemFromArray array which h; Delete i h }"

definition cJSON_DetachItemFromObject :: "nat option \<Rightarrow> string option \<Rightarrow> heap \<Rightarrow> (nat option \<times> heap) option" where
  "cJSON_DetachItemFromObject object name h =
     do { i \<leftarrow> object_item object name False h; cJSON_DetachItemViaPointer object i h }"

definition cJSON_DetachItemFromObjectCaseSensitive :: "nat option \<Rightarrow> string option \<Rightarrow> heap \<Rightarrow> (nat option \<times> heap) option" where
  "cJSON_DetachItemFromObjectCaseSensitive object name h =
     do { i \<leftarrow> object_item object name True h; cJSON_DetachItemViaPointer object i h }"

definition cJSON_DeleteItemFromObject :: "nat option \<Rightarrow> string option \<Rightarrow> heap \<Rightarrow> heap option" where
  "cJSON_DeleteItemFromObject object name h =
     do { (i, h) \<leftarrow> cJSON_DetachItemFromObject object name h; Delete i h }"

definition cJSON_DeleteItemFromObjectCaseSensitive :: "nat option \<Rightarrow> string option \<Rightarrow> heap \<Rightarrow> heap option" where
  "cJSON_DeleteItemFromObjectCaseSensitive object name h =
     do { (i, h) \<leftarrow> cJSON_DetachItemFromObjectCaseSensitive object name h; Delete i h }"

text \<open>\<open>newitem->prev->next\<close> is read back after \<open>newitem->prev\<close> was written.\<close>

definition cJSON_InsertItemInArray :: "nat option \<Rightarrow> int \<Rightarrow> nat option \<Rightarrow> heap \<Rightarrow> (bool \<times> heap) option" where
  "cJSON_InsertItemInArray array which newitem h =
     (case newitem of
        None \<Rightarrow> Some (False, h)
      | Some i \<Rightarrow>
          if which < 0 then Some (False, h)
          else do {
            after \<leftarrow> array_item array (nat which) h;
            case after of
              None \<Rightarrow> add_item_to_array array newitem h
            | Some x \<Rightarrow> do {
                a \<leftarrow> array;
                an \<leftarrow> nodes h a;
                xn \<leftarrow> nodes h x;
                if Some x \<noteq> child_ptr an \<and> prev_ptr xn = None then Some (False, h)
                else do {
                  h \<leftarrow> set_next i (Some x) h;
                  h \<leftarrow> set_prev i (prev_ptr xn) h;
                  h \<leftarrow> set_prev x (Some i) h;
                  h \<leftarrow> (if Some x = child_ptr an then set_first a (Some i) h
                       else do { n \<leftarrow> nodes h i; p \<leftarrow> prev_ptr n; set_next p (Some i) h });
                  Some (True, h) } } })"

definition cJSON_ReplaceItemViaPointer :: "nat option \<Rightarrow> nat option \<Rightarrow> nat option \<Rightarrow> heap \<Rightarrow> (bool \<times> heap) option" where
  "cJSON_ReplaceItemViaPointer parent item replacement h =
     (case parent of
        None \<Rightarrow> Some (False, h)
      | Some p \<Rightarrow> do {
          pn \<leftarrow> nodes h p;
          case (child_ptr pn, replacement, item) of
            (Some c, Some r, Some i) \<Rightarrow>
              if r = i then Some (True, h)
              else do {
                n \<leftarrow> nodes h i;
                h \<leftarrow> set_next r (next_ptr n) h;
                h \<leftarrow> set_prev r (prev_ptr n) h;
                h \<leftarrow> (case next_ptr n of None \<Rightarrow> Some h | Some x \<Rightarrow> set_prev x (Some r) h);
                h \<leftarrow> (if c = i then do {
                        cn \<leftarrow> nodes h c;
                        h \<leftarrow> (if prev_ptr cn = Some c then set_prev r (Some r) h else Some h);
                        set_first p (Some r) h }
                      else do {
                        rn \<leftarrow> nodes h r;
                        h \<leftarrow> (case prev_ptr rn of None \<Rightarrow> Some h | Some x \<Rightarrow> set_next x (Some r) h);
                        (if next_ptr rn = None then set_prev c (Some r) h else Some h) });
                h \<leftarrow> set_next i None h;
                h \<leftarrow> set_prev i None h;
                h \<leftarrow> Delete (Some i) h;
                Some (True, h) }
          | _ \<Rightarrow> Some (False, h) })"

definition cJSON_ReplaceItemInArray :: "nat option \<Rightarrow> int \<Rightarrow> nat option \<Rightarrow> heap \<Rightarrow> (bool \<times> heap) option" where
  "cJSON_ReplaceItemInArray array which newitem h =
     (if which < 0 then Some (False, h)
      else do { i \<leftarrow> array_item array (nat which) h; cJSON_ReplaceItemViaPointer array i newitem h })"

text \<open>The old name of the replacement is freed before the new one is copied from \<open>name\<close>.\<close>

definition replace_item_in_object ::
  "nat option \<Rightarrow> nat option \<Rightarrow> nat option \<Rightarrow> bool \<Rightarrow> heap \<Rightarrow> (bool \<times> heap) option" where
  "replace_item_in_object object name replacement case_sensitive h =
     (case (replacement, name) of
        (Some r, Some s) \<Rightarrow> do {
          n \<leftarrow> nodes h r;
          h \<leftarrow> (if node_type n AND cJSON_StringIsConst = 0 then free_text (name_ptr n) h else Some h);
          key \<leftarrow> texts h s;
          (case strdup key h of
             (None, h) \<Rightarrow> map_option (Pair False) (update_node r (\<lambda>n. n\<lparr>name_ptr := None\<rparr>) h)
           | (Some k, h) \<Rightarrow> do {
               h \<leftarrow> update_node r (\<lambda>n. n\<lparr>name_ptr := Some k, node_type := node_type n AND NOT cJSON_StringIsConst\<rparr>) h;
               str \<leftarrow> texts h s;
               i \<leftarrow> object_item object (Some str) case_sensitive h;
               cJSON_ReplaceItemViaPointer object i replacement h }) }
      | _ \<Rightarrow> Some (False, h))"

definition cJSON_ReplaceItemInObject :: "nat option \<Rightarrow> nat option \<Rightarrow> nat option \<Rightarrow> heap \<Rightarrow> (bool \<times> heap) option" where
  "cJSON_ReplaceItemInObject object name newitem = replace_item_in_object object name newitem False"

definition cJSON_ReplaceItemInObjectCaseSensitive ::
  "nat option \<Rightarrow> nat option \<Rightarrow> nat option \<Rightarrow> heap \<Rightarrow> (bool \<times> heap) option" where
  "cJSON_ReplaceItemInObjectCaseSensitive object name newitem = replace_item_in_object object name newitem True"

end
