(* ===== verification/CJson_Chain.thy ===== *)
theory CJson_Chain
  imports CJson_List
begin

text \<open>
  The doubly linked chains behind the arrays and objects of \<open>seance6/project/cJSON.c\<close>: what a well-formed
  chain of children is, and that the operations of \<open>CJson_List\<close> are the list operations on it, that
  deleting frees exactly the blocks of the deleted tree, and the cases in which they do not behave.
\<close>

subsection \<open>Chains\<close>

definition first :: "nat list \<Rightarrow> nat option \<Rightarrow> nat option" where
  "first xs q = (case xs of [] \<Rightarrow> q | b # _ \<Rightarrow> Some b)"

definition final :: "nat option \<Rightarrow> nat list \<Rightarrow> nat option" where
  "final p xs = (if xs = [] then p else Some (last xs))"

lemma first_simps [simp]: "first [] q = q" "first (b # xs) q = Some b" "first (xs @ ys) q = first xs (first ys q)"
  by (simp_all add: first_def split: list.split)

lemma final_simps [simp]: "final p [] = p" "final p (b # xs) = final (Some b) xs" "final p (xs @ ys) = final (final p xs) ys"
  by (simp_all add: final_def)

text \<open>\<open>dl h p xs q\<close>: the nodes \<open>xs\<close> are linked both ways; \<open>p\<close> is before them and \<open>q\<close> after them.\<close>

fun dl :: "heap \<Rightarrow> nat option \<Rightarrow> nat list \<Rightarrow> nat option \<Rightarrow> bool" where
  "dl h p [] q \<longleftrightarrow> True"
| "dl h p (a # xs) q \<longleftrightarrow>
     (\<exists>n. nodes h a = Some n \<and> prev_ptr n = p \<and> next_ptr n = first xs q) \<and> dl h (Some a) xs q"

lemma dl_append [simp]: "dl h p (xs @ ys) q \<longleftrightarrow> dl h p xs (first ys q) \<and> dl h (final p xs) ys q"
  by (induction xs arbitrary: p) auto

lemma dl_cong: "(\<And>a. a \<in> set xs \<Longrightarrow> nodes h' a = nodes h a) \<Longrightarrow> dl h' p xs q = dl h p xs q"
  by (induction xs arbitrary: p) auto

lemma dl_upd [simp]: "a \<notin> set xs \<Longrightarrow> dl (h\<lparr>nodes := f(a := n)\<rparr>) p xs q = dl (h\<lparr>nodes := f\<rparr>) p xs q"
  by (rule dl_cong) auto

lemma heap_nodes_id [simp]: "h\<lparr>nodes := nodes h\<rparr> = h"
  by simp

definition children :: "heap \<Rightarrow> nat \<Rightarrow> nat list \<Rightarrow> bool" where
  "children h a xs \<longleftrightarrow>
     (\<exists>n. nodes h a = Some n \<and> child_ptr n = first xs None) \<and> dl h (final None xs) xs None \<and> distinct (a # xs)"

definition loose :: "heap \<Rightarrow> nat \<Rightarrow> bool" where
  "loose h i \<longleftrightarrow> (\<exists>n. nodes h i = Some n \<and> next_ptr n = None \<and> prev_ptr n = None)"

lemma set_simps [simp]:
  "nodes h a = Some n \<Longrightarrow> set_next a p h = Some (h\<lparr>nodes := (nodes h)(a \<mapsto> n\<lparr>next_ptr := p\<rparr>)\<rparr>)"
  "nodes h a = Some n \<Longrightarrow> set_prev a p h = Some (h\<lparr>nodes := (nodes h)(a \<mapsto> n\<lparr>prev_ptr := p\<rparr>)\<rparr>)"
  "nodes h a = Some n \<Longrightarrow> set_first a p h = Some (h\<lparr>nodes := (nodes h)(a \<mapsto> n\<lparr>child_ptr := p\<rparr>)\<rparr>)"
  by (simp_all add: set_next_def set_prev_def set_first_def update_node_def)

subsection \<open>Walking to an index\<close>

lemma walk_dl: "dl h p xs None \<Longrightarrow> walk i (first xs None) h = Some (if i < length xs then Some (xs ! i) else None)"
proof (induction xs arbitrary: p i)
  case (Cons a xs)
  then show ?case by (cases i) auto
qed simp

lemma array_item_children:
  "children h a xs \<Longrightarrow> array_item (Some a) i h = Some (if i < length xs then Some (xs ! i) else None)"
  using walk_dl by (auto simp: children_def array_item_def)

subsection \<open>Appending\<close>

lemma ends_cases [case_names nil one more]:
  assumes "xs = [] \<Longrightarrow> P" "\<And>c. xs = [c] \<Longrightarrow> P" "\<And>c mid l. xs = c # mid @ [l] \<Longrightarrow> P"
  shows P
  using assms by (cases xs; cases "tl xs" rule: rev_cases) auto

text \<open>\<open>relinks h h' a xs A\<close>: \<open>xs\<close> are now the children of \<open>a\<close>; only nodes in \<open>A\<close> changed, and in them only
  the links.\<close>

definition content :: "bool \<Rightarrow> node \<Rightarrow> node" where
  "content parent n = n\<lparr>next_ptr := None, prev_ptr := None, child_ptr := (if parent then None else child_ptr n)\<rparr>"

definition relinks :: "heap \<Rightarrow> heap \<Rightarrow> nat \<Rightarrow> nat list \<Rightarrow> nat set \<Rightarrow> bool" where
  "relinks h h' a xs A \<longleftrightarrow> children h' a xs \<and> (\<forall>b. b \<notin> A \<longrightarrow> nodes h' b = nodes h b) \<and> texts h' = texts h
     \<and> brk h' = brk h \<and> avail h' = avail h
     \<and> (\<forall>b. map_option (content (b = a)) (nodes h' b) = map_option (content (b = a)) (nodes h b))"

lemma add_item_children:
  assumes "children h a xs" "nodes h i = Some n" "next_ptr n = None" "i \<notin> set (a # xs)"
  shows "\<exists>h'. add_item_to_array (Some a) (Some i) h = Some (True, h') \<and> relinks h h' a (xs @ [i]) (set (a # i # xs))"
proof -
  obtain an where an: "nodes h a = Some an" "child_ptr an = first xs None" using assms(1) by (auto simp: children_def)
  have d: "distinct xs" "a \<notin> set xs" "i \<notin> set xs" "i \<noteq> a" "dl h (final None xs) xs None"
    using assms(1,4) by (auto simp: children_def)
  show ?thesis
    by (cases xs rule: ends_cases)
      (use assms(2,3) an d in \<open>auto simp: add_item_to_array_def children_def suffix_object_def relinks_def content_def\<close>)
qed

subsection \<open>Inserting, detaching, replacing\<close>

lemma insert_item_children:
  assumes "children h a (xs @ x # ys)" "nodes h i = Some n" "i \<notin> set (a # xs @ x # ys)" "0 \<le> w" "nat w = length xs"
  shows "\<exists>h'. cJSON_InsertItemInArray (Some a) w (Some i) h = Some (True, h')
     \<and> relinks h h' a (xs @ i # x # ys) (set (a # i # xs @ x # ys))"
proof -
  have w: "array_item (Some a) (nat w) h = Some (Some x)" "\<not> w < 0"
    using array_item_children [OF assms(1), of "length xs"] assms(4,5) by simp_all
  obtain an where an: "nodes h a = Some an" "child_ptr an = first (xs @ x # ys) None" using assms(1) by (auto simp: children_def)
  have d: "distinct (xs @ x # ys)" "a \<notin> set (xs @ x # ys)" "i \<notin> set (xs @ x # ys)" "i \<noteq> a"
    "dl h (final None (xs @ x # ys)) (xs @ x # ys) None"
    using assms(1,3) by (auto simp: children_def)
  show ?thesis
  proof (cases xs rule: rev_cases)
    case Nil
    then show ?thesis
      by (cases ys rule: ends_cases)
       (use assms(2) an d w in \<open>auto simp: cJSON_InsertItemInArray_def children_def relinks_def content_def\<close>)
  next
    case (snoc xs' l)
    then show ?thesis
      by (cases xs'; cases ys rule: ends_cases)
       (use assms(2) an d w in \<open>auto simp: cJSON_InsertItemInArray_def children_def relinks_def content_def\<close>)
  qed
qed

lemma detach_item_children:
  assumes "children h a (xs @ i # ys)"
  shows "\<exists>h'. cJSON_DetachItemViaPointer (Some a) (Some i) h = Some (Some i, h')
     \<and> relinks h h' a (xs @ ys) (set (a # xs @ i # ys))
     \<and> nodes h' i = map_option (\<lambda>n. n\<lparr>next_ptr := None, prev_ptr := None\<rparr>) (nodes h i)"
proof -
  obtain an where an: "nodes h a = Some an" "child_ptr an = first (xs @ i # ys) None" using assms(1) by (auto simp: children_def)
  have d: "distinct (xs @ i # ys)" "a \<notin> set (xs @ i # ys)" "dl h (final None (xs @ i # ys)) (xs @ i # ys) None"
    using assms(1) by (auto simp: children_def)
  show ?thesis
    by (cases xs rule: ends_cases; cases ys rule: ends_cases)
      (use an d in \<open>auto simp: cJSON_DetachItemViaPointer_def children_def relinks_def content_def\<close>)
qed

subsection \<open>Deleting a tree\<close>

text \<open>The shape of a tree of nodes: addresses only. \<open>owns h t\<close>: the heap has such a tree; a reference
  node does not own the children it points to.\<close>

datatype tree = N (adr: nat) (subs: "tree list")

fun cells :: "tree \<Rightarrow> nat list" where
  "cells (N a ks) = a # concat (map cells ks)"

definition is_ref :: "node \<Rightarrow> bool" where
  "is_ref n \<longleftrightarrow> node_type n AND cJSON_IsReference \<noteq> 0"

definition const_name :: "node \<Rightarrow> bool" where
  "const_name n \<longleftrightarrow> node_type n AND cJSON_StringIsConst \<noteq> 0"

fun owns :: "heap \<Rightarrow> tree \<Rightarrow> bool" where
  "owns h (N a ks) \<longleftrightarrow>
     (\<exists>n. nodes h a = Some n \<and>
       (if is_ref n then ks = []
        else child_ptr n = first (map adr ks) None \<and> dl h (final None (map adr ks)) (map adr ks) None))
     \<and> list_all (owns h) ks"

definition own_texts :: "node \<Rightarrow> nat list" where
  "own_texts n =
     (if is_ref n then [] else case vstring n of None \<Rightarrow> [] | Some s \<Rightarrow> [s])
     @ (if const_name n then [] else case name_ptr n of None \<Rightarrow> [] | Some s \<Rightarrow> [s])"

fun strings :: "heap \<Rightarrow> tree \<Rightarrow> nat list" where
  "strings h (N a ks) = (case nodes h a of None \<Rightarrow> [] | Some n \<Rightarrow> own_texts n) @ concat (map (strings h) ks)"

text \<open>A forest is \<open>sound\<close> when no block is owned twice and all owned strings are allocated.\<close>

definition sound :: "heap \<Rightarrow> tree list \<Rightarrow> bool" where
  "sound h ts \<longleftrightarrow> list_all (owns h) ts \<and> distinct (concat (map cells ts))
     \<and> distinct (concat (map (strings h) ts)) \<and> list_all (\<lambda>s. texts h s \<noteq> None) (concat (map (strings h) ts))"

definition erase :: "heap \<Rightarrow> nat list \<Rightarrow> nat list \<Rightarrow> heap" where
  "erase h ns ss = h\<lparr>nodes := nodes h |` (- set ns), texts := texts h |` (- set ss)\<rparr>"

lemma owns_cong:
  "(\<And>b. b \<in> set (cells t) \<Longrightarrow> nodes h' b = nodes h b) \<Longrightarrow> owns h' t = owns h t \<and> strings h' t = strings h t"
proof (induction t)
  case (N a ks)
  have k: "owns h' k = owns h k \<and> strings h' k = strings h k" if "k \<in> set ks" for k
    using that N.prems by (intro N.IH) auto
  have c: "adr k \<in> set (cells k)" for k by (cases k) simp
  have "dl h' p (map adr ks) q = dl h p (map adr ks) q" for p q
    using N.prems c by (intro dl_cong) fastforce
  moreover have "nodes h' a = nodes h a" using N.prems by simp
  moreover have "concat (map (strings h') ks) = concat (map (strings h) ks)" using k by (intro arg_cong [of _ _ concat] map_cong) auto
  ultimately show ?case using k by (simp add: list_all_iff)
qed

lemma sound_simps [simp]: "sound h []"
  by (simp add: sound_def)

lemma size_subs: "size_list size (subs t) < size t"
  by (cases t) simp

lemma erase_simps [simp]:
  "nodes (erase h ns ss) b = (if b \<in> set ns then None else nodes h b)"
  "texts (erase h ns ss) b = (if b \<in> set ss then None else texts h b)"
  "brk (erase h ns ss) = brk h" "avail (erase h ns ss) = avail h" "erase h [] [] = h"
  by (simp_all add: erase_def restrict_map_def)

lemma erase_erase: "erase (erase h ns ss) ns' ss' = erase h (ns @ ns') (ss @ ss')"
  by (simp add: erase_def restrict_map_def fun_eq_iff)

lemma free_erase:
  "free_node a h = (if nodes h a = None then None else Some (erase h [a] []))"
  "free_text p h = (case p of None \<Rightarrow> Some h | Some s \<Rightarrow> if texts h s = None then None else Some (erase h [] [s]))"
  by (auto simp: free_node_def free_text_def erase_def restrict_map_def fun_eq_iff split: option.split)

lemma erase_set: "set ns = set ns' \<Longrightarrow> set ss = set ss' \<Longrightarrow> erase h ns ss = erase h ns' ss'"
  by (simp add: erase_def)

text \<open>The two strings of a node are freed when they are owned.\<close>

lemma free_own_texts:
  assumes "distinct (own_texts n)" "\<forall>s \<in> set (own_texts n). texts h s \<noteq> None"
  shows "do {
      h \<leftarrow> (if node_type n AND cJSON_IsReference = 0 then free_text (vstring n) h else Some h);
      (if node_type n AND cJSON_StringIsConst = 0 then free_text (name_ptr n) h else Some h) } = Some (erase h [] (own_texts n))"
  using assms
  by (cases "is_ref n"; cases "vstring n"; cases "const_name n"; cases "name_ptr n")
    (auto simp: free_erase own_texts_def erase_erase is_ref_def const_name_def)

lemma sound_Cons:
  assumes "sound h (N a ks # ts)"
  obtains n where "nodes h a = Some n" "sound h ks" "sound h ts" "distinct (own_texts n)"
    "\<And>s. s \<in> set (own_texts n) \<Longrightarrow> texts h s \<noteq> None \<and> s \<notin> set (concat (map (strings h) ks))"
    "a \<notin> set (concat (map cells ks))"
    "set (concat (map cells ts)) \<inter> set (a # concat (map cells ks)) = {}"
    "set (concat (map (strings h) ts)) \<inter> set (own_texts n @ concat (map (strings h) ks)) = {}"
proof -
  obtain n where n: "nodes h a = Some n" using assms by (auto simp: sound_def)
  show ?thesis
    by (rule that [OF n]) (use assms n in \<open>auto simp: sound_def list_all_iff\<close>)
qed

lemma Delete_forest:
  "sound h ts \<Longrightarrow> dl h p (map adr ts) None \<Longrightarrow>
     Delete (first (map adr ts) None) h = Some (erase h (concat (map cells ts)) (concat (map (strings h) ts)))"
proof (induction "size_list size ts" arbitrary: ts h p rule: less_induct)
  case less
  show ?case
  proof (cases ts)
    case Nil
    then show ?thesis by (simp add: Delete.simps)
  next
    case (Cons t rest)
    obtain a ks where t: "t = N a ks" by (cases t)
    obtain n where n: "nodes h a = Some n" "sound h ks" "sound h rest" "distinct (own_texts n)"
      "\<And>s. s \<in> set (own_texts n) \<Longrightarrow> texts h s \<noteq> None \<and> s \<notin> set (concat (map (strings h) ks))"
      "a \<notin> set (concat (map cells ks))"
      "set (concat (map cells rest)) \<inter> set (a # concat (map cells ks)) = {}"
      "set (concat (map (strings h) rest)) \<inter> set (own_texts n @ concat (map (strings h) ks)) = {}"
      using sound_Cons less.prems(1) Cons t by blast
    have nx: "next_ptr n = first (map adr rest) None" "dl h (Some a) (map adr rest) None"
      using less.prems(2) Cons t n(1) by auto
    have ow: "if is_ref n then ks = []
        else child_ptr n = first (map adr ks) None \<and> dl h (final None (map adr ks)) (map adr ks) None"
      using less.prems(1) Cons t n(1) by (simp add: sound_def)
    let ?h1 = "erase h (concat (map cells ks)) (concat (map (strings h) ks))"
    have d1: "(if node_type n AND cJSON_IsReference = 0 \<and> child_ptr n \<noteq> None then Delete (child_ptr n) h else Some h) = Some ?h1"
    proof (cases "ks = []")
      case False
      have "Delete (first (map adr ks) None) h = Some ?h1"
        using less.hyps [of ks h "final None (map adr ks)"] n(2) ow False Cons t by (auto split: if_splits)
      moreover have "first (map adr ks) None \<noteq> None" using False by (cases ks) auto
      ultimately show ?thesis using ow False by (auto simp: is_ref_def)
    qed (use ow in \<open>auto simp: is_ref_def\<close>)
    let ?h2 = "erase ?h1 [] (own_texts n)"
    have d2: "do { h \<leftarrow> (if node_type n AND cJSON_IsReference = 0 then free_text (vstring n) ?h1 else Some ?h1);
        (if node_type n AND cJSON_StringIsConst = 0 then free_text (name_ptr n) h else Some h) } = Some ?h2"
      using n(5) by (intro free_own_texts n(4)) auto
    let ?h3 = "erase ?h2 [a] []"
    have d3: "free_node a ?h2 = Some ?h3" using n(1,6) by (simp add: free_erase)
    have k: "owns ?h3 k = owns h k \<and> strings ?h3 k = strings h k" if "k \<in> set rest" for k
      using that n(7) by (intro owns_cong) auto
    have ss: "concat (map (strings ?h3) rest) = concat (map (strings h) rest)" using k by (intro arg_cong [of _ _ concat] map_cong) auto
    have "sound ?h3 rest"
      unfolding sound_def ss using n(3,8) k by (auto simp: sound_def list_all_iff)
    moreover have "dl ?h3 (Some a) (map adr rest) None"
    proof -
      have c: "adr k \<in> set (cells k)" for k by (cases k) simp
      have "dl ?h3 (Some a) (map adr rest) None = dl h (Some a) (map adr rest) None"
        using n(7) c by (intro dl_cong) fastforce
      with nx(2) show ?thesis by simp
    qed
    ultimately have "Delete (first (map adr rest) None) ?h3
        = Some (erase ?h3 (concat (map cells rest)) (concat (map (strings ?h3) rest)))"
      using less.hyps [of rest ?h3 "Some a"] Cons by simp
    moreover have "Delete (Some a) h = Delete (next_ptr n) ?h3"
    proof -
      obtain h' where "(if node_type n AND cJSON_IsReference = 0 then free_text (vstring n) ?h1 else Some ?h1) = Some h'"
        "(if node_type n AND cJSON_StringIsConst = 0 then free_text (name_ptr n) h' else Some h') = Some ?h2"
        using d2 by (auto simp only: Option.bind_eq_Some_conv)
      then show ?thesis
        by (subst Delete.simps) (simp only: option.case n(1) d1 d3 Option.bind.bind_lunit)
    qed
    ultimately show ?thesis
      using nx(1) Cons t n(1) unfolding ss by (simp add: erase_erase) (rule erase_set; auto)
  qed
qed

subsection \<open>Replacing and deleting a child\<close>

lemma replace_links:
  assumes "children h a (xs @ i # ys)" "nodes h r = Some rn" "r \<notin> set (a # xs @ i # ys)"
  shows "\<exists>h1. cJSON_ReplaceItemViaPointer (Some a) (Some i) (Some r) h = map_option (Pair True) (Delete (Some i) h1)
     \<and> relinks h h1 a (xs @ r # ys) (set (a # r # xs @ i # ys))
     \<and> nodes h1 i = map_option (\<lambda>n. n\<lparr>next_ptr := None, prev_ptr := None\<rparr>) (nodes h i)"
proof -
  obtain an where an: "nodes h a = Some an" "child_ptr an = first (xs @ i # ys) None" using assms(1) by (auto simp: children_def)
  have d: "distinct (xs @ i # ys)" "a \<notin> set (xs @ i # ys)" "r \<notin> set (xs @ i # ys)" "r \<noteq> a"
    "dl h (final None (xs @ i # ys)) (xs @ i # ys) None"
    using assms(1,3) by (auto simp: children_def)
  have m: "(x \<bind> (\<lambda>h. Some (True, h))) = map_option (Pair True) x" for x :: "heap option" by (cases x) simp_all
  show ?thesis
    by (cases xs rule: ends_cases; cases ys rule: ends_cases)
      (use an d assms(2) in \<open>auto simp: cJSON_ReplaceItemViaPointer_def children_def relinks_def content_def m\<close>)
qed

lemma Delete_root:
  assumes "sound h [N i ks]" "nodes h1 i = map_option (\<lambda>n. n\<lparr>next_ptr := None, prev_ptr := None\<rparr>) (nodes h i)"
    "\<And>b. b \<in> set (concat (map cells ks)) \<Longrightarrow> nodes h1 b = nodes h b" "texts h1 = texts h"
  shows "Delete (Some i) h1 = Some (erase h1 (cells (N i ks)) (strings h (N i ks)))"
proof -
  obtain n where n: "nodes h i = Some n" using assms(1) by (auto simp: sound_def)
  have k: "owns h1 k = owns h k \<and> strings h1 k = strings h k" if "k \<in> set ks" for k
    using that assms(3) by (intro owns_cong) auto
  have ss: "concat (map (strings h1) ks) = concat (map (strings h) ks)"
    using k by (intro arg_cong [of _ _ concat] map_cong) auto
  have c: "adr k \<in> set (cells k)" for k by (cases k) simp
  have d: "dl h1 p (map adr ks) q = dl h p (map adr ks) q" for p q
    using assms(3) c by (intro dl_cong) fastforce
  have st: "strings h1 (N i ks) = strings h (N i ks)"
    using n assms(2) ss by (simp add: own_texts_def is_ref_def const_name_def)
  have "owns h1 (N i ks)"
    using assms(1,2) n k d by (auto simp: sound_def is_ref_def list_all_iff)
  then have "sound h1 [N i ks]" using assms(1,4) st by (simp add: sound_def del: strings.simps)
  moreover have "dl h1 None (map adr [N i ks]) None" using n assms(2) by simp
  ultimately show ?thesis using Delete_forest [of h1 "[N i ks]" None] st by (simp del: strings.simps cells.simps)
qed

lemma relinks_erase:
  assumes "relinks h h1 a zs A" "set ns \<inter> set (a # zs) = {}"
  shows "children (erase h1 ns ss) a zs"
proof -
  have "dl (erase h1 ns ss) p zs q = dl h1 p zs q" for p q using assms(2) by (intro dl_cong) auto
  then show ?thesis using assms by (auto simp: relinks_def children_def)
qed

subsection \<open>Sequences of edits\<close>

text \<open>
  A client edits one array: it adds or inserts nodes of its pool of loose nodes, and detaches
  children, which go back to the pool. \<open>edit_heap\<close> runs the code, \<open>edit_list\<close> the list operations; the
  output is the item of a call that succeeded, \<open>None\<close> of one that failed.
\<close>

datatype edit = AddItem nat | InsertItem int nat | DetachItem int

fun edit_heap :: "nat \<Rightarrow> edit \<Rightarrow> heap \<Rightarrow> (nat option \<times> heap) option" where
  "edit_heap a (AddItem i) h = map_option (\<lambda>(ok, h). (if ok then Some i else None, h)) (cJSON_AddItemToArray (Some a) (Some i) h)"
| "edit_heap a (InsertItem w i) h =
     map_option (\<lambda>(ok, h). (if ok then Some i else None, h)) (cJSON_InsertItemInArray (Some a) w (Some i) h)"
| "edit_heap a (DetachItem w) h = cJSON_DetachItemFromArray (Some a) w h"

fun edit_list :: "edit \<Rightarrow> nat list \<times> nat set \<Rightarrow> nat option \<times> nat list \<times> nat set" where
  "edit_list (AddItem i) (xs, pool) = (Some i, xs @ [i], pool - {i})"
| "edit_list (InsertItem w i) (xs, pool) =
     (if w < 0 then (None, xs, pool) else (Some i, take (nat w) xs @ i # drop (nat w) xs, pool - {i}))"
| "edit_list (DetachItem w) (xs, pool) =
     (if 0 \<le> w \<and> nat w < length xs
      then (Some (xs ! nat w), take (nat w) xs @ drop (Suc (nat w)) xs, insert (xs ! nat w) pool)
      else (None, xs, pool))"

text \<open>The client only gives nodes of its pool.\<close>

fun legal :: "edit \<Rightarrow> nat set \<Rightarrow> bool" where
  "legal (AddItem i) pool \<longleftrightarrow> i \<in> pool"
| "legal (InsertItem w i) pool \<longleftrightarrow> i \<in> pool"
| "legal (DetachItem w) pool \<longleftrightarrow> True"

fun edits_heap :: "nat \<Rightarrow> edit list \<Rightarrow> heap \<Rightarrow> (nat option list \<times> heap) option" where
  "edits_heap a [] h = Some ([], h)"
| "edits_heap a (e # es) h =
     (case edit_heap a e h of None \<Rightarrow> None | Some (v, h) \<Rightarrow> map_option (\<lambda>(vs, h). (v # vs, h)) (edits_heap a es h))"

fun edits_list :: "edit list \<Rightarrow> nat list \<times> nat set \<Rightarrow> (nat option list \<times> nat list \<times> nat set) option" where
  "edits_list [] s = Some ([], s)"
| "edits_list (e # es) s =
     (if legal e (snd s) then
        case edit_list e s of (v, s) \<Rightarrow> map_option (\<lambda>(vs, s). (v # vs, s)) (edits_list es s)
      else None)"

definition represents :: "heap \<Rightarrow> nat \<Rightarrow> nat list \<times> nat set \<Rightarrow> bool" where
  "represents h a s \<longleftrightarrow> children h a (fst s) \<and> (\<forall>i \<in> snd s. loose h i) \<and> snd s \<inter> set (a # fst s) = {}"

lemma relinks_represents:
  assumes "relinks h h' a ys A" "represents h a (xs, pool)" "pool' \<inter> set (a # ys) = {}"
    "\<And>i. i \<in> pool' \<Longrightarrow> i \<in> A \<Longrightarrow> loose h' i" "\<And>i. i \<in> pool' \<Longrightarrow> i \<notin> A \<Longrightarrow> i \<in> pool"
  shows "represents h' a (ys, pool')"
proof -
  have "loose h' i" if "i \<in> pool'" for i
  proof (cases "i \<in> A")
    case False
    then show ?thesis using assms(1,2) assms(5) [OF that] by (auto simp: relinks_def represents_def loose_def)
  qed (rule assms(4) [OF that])
  then show ?thesis using assms(1,3) by (simp add: represents_def relinks_def)
qed

lemma edit_refines:
  assumes "represents h a (xs, pool)" "legal e pool"
  shows "\<exists>h'. edit_heap a e h = Some (fst (edit_list e (xs, pool)), h') \<and> represents h' a (snd (edit_list e (xs, pool)))"
proof -
  have ch: "children h a xs" using assms(1) by (simp add: represents_def)
  have new: "\<exists>n. nodes h i = Some n \<and> next_ptr n = None" "i \<notin> set (a # xs)" if "i \<in> pool" for i
    using that assms(1) by (auto simp: represents_def loose_def)
  have add: "\<exists>h'. add_item_to_array (Some a) (Some i) h = Some (True, h') \<and> represents h' a (xs @ [i], pool - {i})"
    if "i \<in> pool" for i
  proof -
    obtain n where n: "nodes h i = Some n" "next_ptr n = None" using new(1) \<open>i \<in> pool\<close> by blast
    obtain h' where h': "add_item_to_array (Some a) (Some i) h = Some (True, h')" "relinks h h' a (xs @ [i]) (set (a # i # xs))"
      using add_item_children [OF ch n new(2) [OF \<open>i \<in> pool\<close>]] by blast
    have "represents h' a (xs @ [i], pool - {i})"
      by (rule relinks_represents [OF h'(2) assms(1)]) (use assms(1) in \<open>auto simp: represents_def\<close>)
    with h'(1) show ?thesis by blast
  qed
  show ?thesis
  proof (cases e)
    case (AddItem i)
    then show ?thesis using add [of i] assms(2) by (auto simp: cJSON_AddItemToArray_def)
  next
    case (InsertItem w i)
    have i: "i \<in> pool" using assms(2) InsertItem by simp
    consider "w < 0" | "0 \<le> w" "length xs \<le> nat w" | "0 \<le> w" "nat w < length xs" by linarith
    then show ?thesis
    proof cases
      case 1
      then show ?thesis using InsertItem assms(1) by (simp add: cJSON_InsertItemInArray_def)
    next
      case 2
      then show ?thesis
        using InsertItem add [OF i] array_item_children [OF ch, of "nat w"] by (auto simp: cJSON_InsertItemInArray_def)
    next
      case 3
      define us x vs where split: "us = take (nat w) xs" "x = xs ! nat w" "vs = drop (Suc (nat w)) xs"
      have xs: "xs = us @ x # vs" using 3 by (simp add: split id_take_nth_drop [symmetric])
      have l: "nat w = length us" using 3 by (simp add: split)
      obtain n where n: "nodes h i = Some n" using new [OF i] by blast
      obtain h' where h': "cJSON_InsertItemInArray (Some a) w (Some i) h = Some (True, h')"
        "relinks h h' a (us @ i # x # vs) (set (a # i # us @ x # vs))"
        using insert_item_children [of h a us x vs i n w] ch n new(2) [OF i] 3(1) l xs by auto
      have "represents h' a (us @ i # x # vs, pool - {i})"
        by (rule relinks_represents [OF h'(2) assms(1)]) (use assms(1) xs in \<open>auto simp: represents_def\<close>)
      moreover have "take (nat w) xs @ i # drop (nat w) xs = us @ i # x # vs" using l xs by simp
      ultimately show ?thesis using InsertItem 3 h'(1) by simp
    qed
  next
    case (DetachItem w)
    show ?thesis
    proof (cases "0 \<le> w \<and> nat w < length xs")
      case True
      define us x vs where split: "us = take (nat w) xs" "x = xs ! nat w" "vs = drop (Suc (nat w)) xs"
      have xs: "xs = us @ x # vs" using True by (simp add: split id_take_nth_drop [symmetric])
      obtain h' where h': "cJSON_DetachItemViaPointer (Some a) (Some x) h = Some (Some x, h')"
        "relinks h h' a (us @ vs) (set (a # us @ x # vs))"
        "nodes h' x = map_option (\<lambda>n. n\<lparr>next_ptr := None, prev_ptr := None\<rparr>) (nodes h x)"
        using detach_item_children [of h a us x vs] ch xs by auto
      have "\<exists>n. nodes h x = Some n" using ch xs by (auto simp: children_def)
      then have "loose h' x" using h'(3) by (auto simp: loose_def)
      then have "represents h' a (us @ vs, insert x pool)"
        by (intro relinks_represents [OF h'(2) assms(1)])
          (use assms(1) ch xs in \<open>auto simp: represents_def children_def\<close>)
      then show ?thesis
        using DetachItem True h'(1) array_item_children [OF ch, of "nat w"]
        by (simp add: cJSON_DetachItemFromArray_def split)
    next
      case False
      then show ?thesis
        using DetachItem assms(1) array_item_children [OF ch, of "nat w"]
        by (auto simp: cJSON_DetachItemFromArray_def cJSON_DetachItemViaPointer_def split: option.split)
    qed
  qed
qed

text \<open>C15: Appending, inserting and detaching are list operations: whatever the sequence of calls on an array,
  with items the client owns, the code never follows a bad pointer, returns what the list operations
  return, and leaves a chain, linked both ways and with the first \<open>prev\<close> at the last child, of exactly
  the listed items; detached items point nowhere.\<close>

theorem array_edits_refine_lists:
  assumes "represents h a s" "edits_list es s = Some (vs, s')"
  shows "\<exists>h'. edits_heap a es h = Some (vs, h') \<and> represents h' a s'"
  using assms
proof (induction es arbitrary: h s vs)
  case (Cons e es)
  obtain xs pool where s: "s = (xs, pool)" by fastforce
  obtain v s1 where e: "edit_list e s = (v, s1)" by (metis surj_pair)
  obtain vs1 where r: "edits_list es s1 = Some (vs1, s')" "vs = v # vs1" "legal e pool"
    using Cons.prems(2) s e by (auto split: if_splits)
  obtain h1 where "edit_heap a e h = Some (v, h1)" "represents h1 a s1"
    using edit_refines [of h a xs pool e] Cons.prems(1) s r(3) e by auto
  then show ?case using Cons.IH [OF _ r(1), of h1] r(2) by auto
qed simp

theorem array_edits_refine_lists_witness:
  "\<exists>h'. edits_heap 0 [AddItem 1, InsertItem 0 2, DetachItem 1]
      \<lparr>nodes = [0 \<mapsto> zero_node, 1 \<mapsto> zero_node, 2 \<mapsto> zero_node], texts = Map.empty, brk = 3, avail = 0\<rparr>
      = Some ([Some 1, Some 2, Some 1], h') \<and> represents h' 0 ([2], {1})"
  by (rule array_edits_refine_lists [where s = "([], {1, 2})"])
    (auto simp: represents_def children_def loose_def zero_node_def)

text \<open>C16: \<open>cJSON_Delete\<close> on a detached tree returns, frees every node of it once, and exactly the strings it
  owns: not constant names, and neither the children nor the value of a reference.\<close>

theorem cJSON_Delete_frees_tree:
  assumes "sound h [t]" "loose h (adr t)"
  shows "Delete (Some (adr t)) h = Some (erase h (cells t) (strings h t))"
proof -
  have "dl h None (map adr [t]) None" using assms(2) by (auto simp: loose_def)
  then show ?thesis using Delete_forest [OF assms(1), of None] by simp
qed

definition sample_heap :: heap where
  "sample_heap =
     \<lparr>nodes = [0 \<mapsto> zero_node\<lparr>node_type := cJSON_Object, child_ptr := Some 1\<rparr>,
              1 \<mapsto> zero_node\<lparr>node_type := cJSON_String, prev_ptr := Some 1, vstring := Some 3, name_ptr := Some 4\<rparr>,
              2 \<mapsto> zero_node\<lparr>node_type := cJSON_True\<rparr>],
      texts = [3 \<mapsto> ''v'', 4 \<mapsto> ''k''], brk = 5, avail = 0\<rparr>"

lemma sample_sound: "sound sample_heap [N 0 [N 1 []]]" "sound sample_heap [N 1 []]" "children sample_heap 0 [1]"
  by (simp_all add: sample_heap_def sound_def zero_node_def is_ref_def const_name_def own_texts_def type_defs children_def)

theorem cJSON_Delete_frees_tree_witness:
  "Delete (Some (adr (N 0 [N 1 []]))) sample_heap
     = Some (erase sample_heap (cells (N 0 [N 1 []])) (strings sample_heap (N 0 [N 1 []])))"
  by (rule cJSON_Delete_frees_tree) (rule sample_sound, simp add: loose_def sample_heap_def zero_node_def)

text \<open>C17: \<open>cJSON_ReplaceItemInArray\<close> puts the new item in the place of the old one and frees the old one with
  all it owns; the rest of the chain keeps its order.\<close>

theorem cJSON_ReplaceItemInArray_correct:
  assumes "children h a xs" "0 \<le> w" "nat w < length xs" "sound h [t]" "adr t = xs ! nat w"
    "nodes h r = Some rn" "r \<notin> set (a # xs)" "set (cells t) \<inter> set (a # r # take (nat w) xs @ drop (Suc (nat w)) xs) = {}"
  shows "\<exists>h'. cJSON_ReplaceItemInArray (Some a) w (Some r) h = Some (True, h') \<and> children h' a (xs[nat w := r])
     \<and> list_all (\<lambda>b. nodes h' b = None) (cells t) \<and> texts h' = texts h |` (- set (strings h t))"
proof -
  define us x vs where split: "us = take (nat w) xs" "x = xs ! nat w" "vs = drop (Suc (nat w)) xs"
  have xs: "xs = us @ x # vs" using assms(3) by (simp add: split id_take_nth_drop [symmetric])
  have len: "length us = nat w" using assms(3) by (simp add: split)
  obtain ks where t: "t = N x ks" using assms(5) split by (cases t) auto
  obtain h1 where h1: "cJSON_ReplaceItemViaPointer (Some a) (Some x) (Some r) h = map_option (Pair True) (Delete (Some x) h1)"
    "relinks h h1 a (us @ r # vs) (set (a # r # us @ x # vs))"
    "nodes h1 x = map_option (\<lambda>n. n\<lparr>next_ptr := None, prev_ptr := None\<rparr>) (nodes h x)"
    using replace_links [of h a us x vs r rn] assms(1,6,7) xs by auto
  have sub: "nodes h1 b = nodes h b" if "b \<in> set (concat (map cells ks))" for b
  proof -
    have "b \<in> set (cells t)" "b \<noteq> x" using that t assms(4) by (auto simp: sound_def)
    then have "b \<notin> set (a # r # us @ x # vs)" using assms(8) split by auto
    then show ?thesis using h1(2) by (simp add: relinks_def)
  qed
  have d: "Delete (Some x) h1 = Some (erase h1 (cells t) (strings h t))"
    using Delete_root [of h x ks h1] assms(4) h1(2,3) sub unfolding t by (simp add: relinks_def)
  have "children (erase h1 (cells t) (strings h t)) a (us @ r # vs)"
    by (rule relinks_erase [OF h1(2)]) (use assms(8) split in auto)
  moreover have "us @ r # vs = xs[nat w := r]" using xs len by (metis list_update_length)
  ultimately show ?thesis
    using h1(1,2) d assms(2) array_item_children [OF assms(1), of "nat w"] assms(3) split
    by (simp add: cJSON_ReplaceItemInArray_def list_all_iff relinks_def) (simp add: erase_def)
qed

theorem cJSON_ReplaceItemInArray_correct_witness:
  "\<exists>h'. cJSON_ReplaceItemInArray (Some 0) 0 (Some 2) sample_heap = Some (True, h') \<and> children h' 0 ([1][nat 0 := 2])
     \<and> list_all (\<lambda>b. nodes h' b = None) (cells (N 1 []))
     \<and> texts h' = texts sample_heap |` (- set (strings sample_heap (N 1 [])))"
  by (rule cJSON_ReplaceItemInArray_correct [OF sample_sound(3) _ _ sample_sound(2)])
    (simp_all add: sample_heap_def)

subsection \<open>Adding a created member\<close>

definition fresh_above :: "heap \<Rightarrow> bool" where
  "fresh_above h \<longleftrightarrow> (\<forall>b. brk h \<le> b \<longrightarrow> nodes h b = None \<and> texts h b = None)"

lemma children_upd:
  "children h a xs \<Longrightarrow> b \<notin> set (a # xs) \<Longrightarrow> nodes h' = (nodes h)(b := v) \<Longrightarrow> children h' a xs"
proof -
  assume c: "children h a xs" "b \<notin> set (a # xs)" "nodes h' = (nodes h)(b := v)"
  then have "dl h' p xs q = dl h p xs q" for p q by (intro dl_cong) auto
  with c show ?thesis by (auto simp: children_def)
qed

lemma children_alloc: "children h a xs \<Longrightarrow> b \<in> set (a # xs) \<Longrightarrow> nodes h b \<noteq> None"
proof -
  have "dl h p xs q \<Longrightarrow> b \<in> set xs \<Longrightarrow> nodes h b \<noteq> None" for p q
    by (induction xs arbitrary: p) auto
  then show "children h a xs \<Longrightarrow> b \<in> set (a # xs) \<Longrightarrow> nodes h b \<noteq> None" by (auto simp: children_def)
qed

lemma Delete_leaf:
  assumes "nodes h i = Some n" "child_ptr n = None" "vstring n = None" "name_ptr n = None" "next_ptr n = None"
  shows "Delete (Some i) h = Some (h\<lparr>nodes := (nodes h)(i := None)\<rparr>)"
  using assms by (subst Delete.simps) (simp add: free_text_def free_node_def Delete.simps [of None])

text \<open>
  \<open>added h h' a xs name i n\<close>: the new node \<open>i\<close>, \<open>n\<close> up to its links, is the last member and has a fresh copy
  of the name.
\<close>

definition added :: "heap \<Rightarrow> heap \<Rightarrow> nat \<Rightarrow> nat list \<Rightarrow> string \<Rightarrow> nat \<Rightarrow> node \<Rightarrow> bool" where
  "added h h' a xs name i n \<longleftrightarrow> children h' a (xs @ [i]) \<and> nodes h i = None
     \<and> (case nodes h' i of None \<Rightarrow> False
        | Some m \<Rightarrow> m\<lparr>prev_ptr := None, name_ptr := None\<rparr> = n
            \<and> (case name_ptr m of None \<Rightarrow> False | Some k \<Rightarrow> texts h k = None \<and> texts h' k = Some name))"

lemma add_created_node:
  assumes "children h a xs" "texts h s = Some name" "fresh_above h"
    "f zero_node = zero_node\<lparr>node_type := ty, vint := vi, vdouble := vd\<rparr>" "ty AND cJSON_StringIsConst = 0"
  shows "\<exists>r h'. add_created (create_with f) (Some a) (Some s) h = Some (r, h')
     \<and> (case r of None \<Rightarrow> nodes h' = nodes h \<and> texts h' = texts h \<and> avail h < 2
        | Some i \<Rightarrow> added h h' a xs name i (f zero_node))"
proof -
  let ?i = "brk h"
  have fr: "nodes h b = None" "texts h b = None" if "brk h \<le> b" for b using assms(3) that by (simp_all add: fresh_above_def)
  have i: "?i \<notin> set (a # xs)" using children_alloc [OF assms(1), of ?i] fr by auto
  have s: "s \<noteq> ?i" using fr(2) [of s] assms(2) by auto
  have ty: "ty AND NOT cJSON_StringIsConst = ty"
  proof -
    have "ty AND NOT cJSON_StringIsConst = ty AND NOT (ty AND cJSON_StringIsConst)"
      by (rule bit_eqI) (auto simp: bit_and_iff bit_or_iff bit_not_iff)
    then show ?thesis using assms(5) by simp
  qed
  have z: "next_ptr zero_node = None" "prev_ptr zero_node = None" "name_ptr zero_node = None" "child_ptr zero_node = None"
    "vstring zero_node = None"
    by (simp_all add: zero_node_def)
  show ?thesis
  proof (cases "avail h < 2")
    case True
    show ?thesis
    proof (cases "avail h = 0")
      case True
      then show ?thesis
        by (simp add: add_created_def create_with_def New_Item_def add_item_to_object_def Delete.simps [of None])
    next
      case False
      let ?h = "h\<lparr>brk := Suc ?i, avail := 0, nodes := (nodes h)(?i \<mapsto> f zero_node)\<rparr>"
      have "Delete (Some ?i) ?h = Some (?h\<lparr>nodes := (nodes ?h)(?i := None)\<rparr>)"
        by (rule Delete_leaf [of _ _ "f zero_node"]) (simp_all add: assms(4) z)
      moreover have "(nodes h)(?i := None) = nodes h" using fr(1) [of ?i] by auto
      ultimately show ?thesis
        using False True i assms(2) s
        by (auto simp: add_created_def create_with_def New_Item_def update_node_def add_item_to_object_def strdup_def)
    qed
  next
    case False
    let ?n = "zero_node\<lparr>vint := vi, vdouble := vd, name_ptr := Some (Suc ?i), node_type := ty\<rparr>"
    let ?h = "h\<lparr>texts := (texts h)(Suc ?i \<mapsto> name), brk := Suc (Suc ?i), avail := avail h - 2, nodes := (nodes h)(?i \<mapsto> ?n)\<rparr>"
    have c: "children ?h a xs" by (rule children_upd [OF assms(1) i]) simp
    obtain h' where h': "add_item_to_array (Some a) (Some ?i) ?h = Some (True, h')"
      "relinks ?h h' a (xs @ [?i]) (set (a # ?i # xs))"
      using add_item_children [OF c, of ?i ?n] i by (auto simp: assms(4) z)
    obtain m where m: "nodes h' ?i = Some m" "next_ptr m = None"
      using h'(2) by (auto simp: relinks_def children_def)
    have "content False m = content False ?n"
      using h'(2) m i by (auto simp: relinks_def dest: spec [of _ ?i])
    then have "m\<lparr>prev_ptr := None, name_ptr := None\<rparr> = f zero_node" "name_ptr m = Some (Suc ?i)"
      using m(2) assms(4) by (cases m, simp add: content_def zero_node_def)+
    then have ad: "added h h' a xs name ?i (f zero_node)"
      using h'(2) m fr by (auto simp: added_def relinks_def)
    have "add_created (create_with f) (Some a) (Some s) h = Some (Some ?i, h')"
      using False i assms(2) s h'(1) ty
      by (auto simp: add_created_def create_with_def New_Item_def update_node_def add_item_to_object_def strdup_def
          free_text_def z assms(4) numeral_2_eq_2)
    with ad show ?thesis by simp
  qed
qed

text \<open>C18: \<open>cJSON_AddNumberToObject\<close> is all or nothing: with the memory for the item and the copy of its name
  it appends a number item with that value and name as the last member; otherwise it returns NULL and
  leaves every block of the heap as it was.\<close>

theorem cJSON_AddNumberToObject_atomic:
  assumes "children h a xs" "texts h s = Some name" "fresh_above h"
  shows "\<exists>r h'. cJSON_AddNumberToObject (Some a) (Some s) d h = Some (r, h')
     \<and> (case r of None \<Rightarrow> nodes h' = nodes h \<and> texts h' = texts h \<and> avail h < 2
        | Some i \<Rightarrow> added h h' a xs name i (zero_node\<lparr>node_type := cJSON_Number, vdouble := d, vint := double_to_valueint d\<rparr>))"
  unfolding cJSON_AddNumberToObject_def
  by (rule add_created_node [OF assms, where ty = cJSON_Number and vi = "double_to_valueint d" and vd = d])
    (simp_all add: type_defs)

theorem cJSON_AddNumberToObject_atomic_witness:
  "\<exists>r h'. cJSON_AddNumberToObject (Some 0) (Some 4) (DNum 1) sample_heap = Some (r, h')
     \<and> (case r of None \<Rightarrow> nodes h' = nodes sample_heap \<and> texts h' = texts sample_heap \<and> avail sample_heap < 2
        | Some i \<Rightarrow> added sample_heap h' 0 [1] ''k'' i
            (zero_node\<lparr>node_type := cJSON_Number, vdouble := DNum 1, vint := double_to_valueint (DNum 1)\<rparr>))"
  by (rule cJSON_AddNumberToObject_atomic [OF sample_sound(3)]) (auto simp: sample_heap_def fresh_above_def)

subsection \<open>Where the code fails\<close>

text \<open>\<open>replace_item_in_object\<close> frees the old name of the replacement before it copies the new one: a
  caller that passes the replacement's own name (the natural way to keep it) makes the code read the
  freed string.\<close>

theorem replace_item_in_object_own_name:
  assumes "nodes h r = Some n" "name_ptr n = Some s" "\<not> const_name n"
  shows "replace_item_in_object object (Some s) (Some r) case_sensitive h = None"
  using assms by (simp add: replace_item_in_object_def free_text_def const_name_def)

theorem replace_item_in_object_own_name_witness:
  "replace_item_in_object (Some 0) (Some 4) (Some 1) True sample_heap = None"
  by (rule replace_item_in_object_own_name [where n = "zero_node\<lparr>node_type := cJSON_String, prev_ptr := Some 1, vstring := Some 3, name_ptr := Some 4\<rparr>"])
    (simp_all add: sample_heap_def const_name_def type_defs)

text \<open>When memory runs out after the reference was created, \<open>cJSON_AddItemReferenceToObject\<close> returns false
  and loses the reference: the node stays allocated and nothing points to it.\<close>

theorem add_reference_leaks:
  assumes "nodes h i = Some n" "texts h s = Some name" "a \<noteq> brk h" "i \<noteq> brk h" "avail h = 1"
  shows "\<exists>h'. cJSON_AddItemReferenceToObject (Some a) (Some s) (Some i) h = Some (False, h')
     \<and> nodes h' = (nodes h)(brk h \<mapsto> n\<lparr>name_ptr := None, node_type := node_type n OR cJSON_IsReference,
         next_ptr := None, prev_ptr := None\<rparr>)"
  using assms
  by (simp add: cJSON_AddItemReferenceToObject_def create_reference_def New_Item_def update_node_def
      add_item_to_object_def strdup_def)

theorem add_reference_leaks_witness:
  "\<exists>h'. cJSON_AddItemReferenceToObject (Some 0) (Some 4) (Some 2) (sample_heap\<lparr>avail := 1\<rparr>) = Some (False, h')
     \<and> nodes h' = (nodes (sample_heap\<lparr>avail := 1\<rparr>))(brk (sample_heap\<lparr>avail := 1\<rparr>) \<mapsto>
         (zero_node\<lparr>node_type := cJSON_True\<rparr>)\<lparr>name_ptr := None,
           node_type := node_type (zero_node\<lparr>node_type := cJSON_True\<rparr>) OR cJSON_IsReference,
           next_ptr := None, prev_ptr := None\<rparr>)"
  by (rule add_reference_leaks [where name = "''k''"]) (simp_all add: sample_heap_def)

text \<open>
  Adding to a list whose first item has no \<open>prev\<close>, as the child of \<open>cJSON_CreateArrayReference\<close> has when
  it is a detached item, reports success and adds nothing.
\<close>

lemma add_item_to_array_lost:
  assumes "nodes h a = Some n" "child_ptr n = Some c" "nodes h c = Some m" "prev_ptr m = None" "a \<noteq> i"
  shows "add_item_to_array (Some a) (Some i) h = Some (True, h)"
  using assms by (simp add: add_item_to_array_def)

end
