(* ===== verification/Transition.thy ===== *)
theory Transition
  imports Prelude
begin

text \<open>
  Transition systems given by an executable successor function: \<open>reachable next s s'\<close> holds when some
  interleaving leads from \<open>s\<close> to \<open>s'\<close>. \<open>run next s ks\<close> follows one schedule, the list of the numbers of
  the successors taken, and is used to exhibit behaviours.
\<close>

inductive reachable :: "('s \<Rightarrow> 's list) \<Rightarrow> 's \<Rightarrow> 's \<Rightarrow> bool" for next0 :: "'s \<Rightarrow> 's list" where
  refl: "reachable next0 s s"
| step: "reachable next0 s s' \<Longrightarrow> s'' \<in> set (next0 s') \<Longrightarrow> reachable next0 s s''"

lemma reach_keeps:
  assumes "reachable next0 s s'" "I s" "\<And>u v. I u \<Longrightarrow> v \<in> set (next0 u) \<Longrightarrow> I v"
  shows "I s'"
  using assms by (induction rule: reachable.induct) auto

lemma reachable_trans: "reachable next0 s' s'' \<Longrightarrow> reachable next0 s s' \<Longrightarrow> reachable next0 s s''"
  by (induction rule: reachable.induct) (auto intro: reachable.step)

fun run :: "('s \<Rightarrow> 's list) \<Rightarrow> 's \<Rightarrow> nat list \<Rightarrow> 's option" where
  "run next0 s [] = Some s"
| "run next0 s (k # ks) = (if k < length (next0 s) then run next0 (next0 s ! k) ks else None)"

lemma run_reachable: "run next0 s ks = Some s' \<Longrightarrow> reachable next0 s s'"
proof (induction ks arbitrary: s)
  case Nil
  then show ?case by (simp add: reachable.refl)
next
  case (Cons k ks)
  then have "reachable next0 (next0 s ! k) s'" "next0 s ! k \<in> set (next0 s)" by (auto split: if_splits)
  then show ?case by (rule reachable_trans [OF _ reachable.step [OF reachable.refl]])
qed

text \<open>A measure that every step lowers bounds the length of every run.\<close>

lemma run_bounded:
  assumes "run next0 s ks = Some s'" "\<And>u v. v \<in> set (next0 u) \<Longrightarrow> m v < (m u :: nat)"
  shows "length ks + m s' \<le> m s"
  using assms(1)
proof (induction ks arbitrary: s)
  case (Cons k ks)
  then have "k < length (next0 s)" "length ks + m s' \<le> m (next0 s ! k)" by (auto split: if_splits)
  with assms(2) [of "next0 s ! k" s] show ?case by simp
qed simp

text \<open>The same when only steps from states of an invariant lower the measure.\<close>

lemma run_bounded_inv:
  assumes "run next0 s ks = Some s'" "I s" "\<And>u v. I u \<Longrightarrow> v \<in> set (next0 u) \<Longrightarrow> I v \<and> m v < (m u :: nat)"
  shows "length ks + m s' \<le> m s"
  using assms(1,2)
proof (induction ks arbitrary: s)
  case (Cons k ks)
  then have k: "k < length (next0 s)" "run next0 (next0 s ! k) ks = Some s'" by (auto split: if_splits)
  then have "I (next0 s ! k) \<and> m (next0 s ! k) < m s" using assms(3) [OF Cons.prems(2)] by simp
  with Cons.IH [OF k(2)] show ?case by simp
qed simp

text \<open>What a program owes for an invariant, and what it gets.\<close>

locale invariant_system =
  fixes next0 :: "'s \<Rightarrow> 's list" and init :: 's and inv :: "'s \<Rightarrow> bool"
  assumes inv_init: "inv init" and inv_step: "inv u \<Longrightarrow> v \<in> set (next0 u) \<Longrightarrow> inv v"
begin

lemma reach_inv: "reachable next0 init s \<Longrightarrow> inv s"
  by (erule reach_keeps [where I = inv]) (rule inv_init, rule inv_step)

lemma run_inv: "run next0 init ks = Some s \<Longrightarrow> inv s"
  by (rule reach_inv) (rule run_reachable)

end

text \<open>A program that also lowers a measure with every step: every run ends, after at most that many steps.\<close>

locale terminating_system = invariant_system +
  fixes measure0 :: "'s \<Rightarrow> nat"
  assumes measure_step: "v \<in> set (next0 u) \<Longrightarrow> measure0 v < measure0 u"
begin

lemma run_length: "run next0 init ks = Some s \<Longrightarrow> length ks + measure0 s \<le> measure0 init"
  by (rule run_bounded [OF _ measure_step])

end

end
