(* ===== verification/Trylock_Lab.thy ===== *)
theory Trylock_Lab
  imports Transition
begin

text \<open>
  \<open>thread/lab26_thread_trylock.c\<close>: three threads try the resource mutex at most five times each. The
  sleeps are delays that any interleaving covers; \<open>pthread_mutex_trylock\<close> returns 0 when the mutex
  is free and \<open>EBUSY\<close> otherwise.
\<close>

datatype try_pc = Trying | Working | Released | Gave_Up

record trylab =
  resource_mutex :: "nat option"
  try_at :: "nat \<Rightarrow> try_pc"
  retry_count :: "nat \<Rightarrow> nat"

definition TRY_THREADS :: nat where "TRY_THREADS = 3"
definition MAX_RETRIES :: nat where "MAX_RETRIES = 5"

definition try_init :: trylab where
  "try_init = \<lparr>resource_mutex = None, try_at = (\<lambda>_. Trying), retry_count = (\<lambda>_. 0)\<rparr>"

definition goto_try :: "nat \<Rightarrow> try_pc \<Rightarrow> trylab \<Rightarrow> trylab" where
  "goto_try t p s = s\<lparr>try_at := (try_at s)(t := p)\<rparr>"

text \<open>One turn of the loop of \<open>thread_function\<close>, or the work and the unlock.\<close>

definition thread_function :: "nat \<Rightarrow> trylab \<Rightarrow> trylab list" where
  "thread_function t s =
     (case try_at s t of
        Trying \<Rightarrow>
          if retry_count s t < MAX_RETRIES then
            (if resource_mutex s = None then [goto_try t Working (s\<lparr>resource_mutex := Some t\<rparr>)]
             else [s\<lparr>retry_count := (retry_count s)(t := retry_count s t + 1)\<rparr>])
          else [goto_try t Gave_Up s]
      | Working \<Rightarrow> [goto_try t Released (s\<lparr>resource_mutex := None\<rparr>)]
      | _ \<Rightarrow> [])"

definition try_next :: "trylab \<Rightarrow> trylab list" where
  "try_next s = concat (map (\<lambda>t. thread_function t s) [0..<TRY_THREADS])"

lemma try_next_mem: "s' \<in> set (try_next s) \<longleftrightarrow> (\<exists>t < TRY_THREADS. s' \<in> set (thread_function t s))"
  by (auto simp: try_next_def)

text \<open>
  The owner is the one working thread; a thread that gave up tried five times; nobody has retried before
  somebody got the mutex.
\<close>

definition try_inv :: "trylab \<Rightarrow> bool" where
  "try_inv s \<longleftrightarrow> (\<forall>t. try_at s t = Working \<longleftrightarrow> resource_mutex s = Some t)
     \<and> (\<forall>t. retry_count s t \<le> MAX_RETRIES) \<and> (\<forall>t. try_at s t = Gave_Up \<longrightarrow> retry_count s t = MAX_RETRIES)
     \<and> ((\<exists>t. retry_count s t > 0) \<longrightarrow> (\<exists>t < TRY_THREADS. try_at s t = Working \<or> try_at s t = Released))
     \<and> (\<forall>t. try_at s t = Working \<longrightarrow> t < TRY_THREADS)"

lemma try_inv_step: "try_inv s \<Longrightarrow> s' \<in> set (try_next s) \<Longrightarrow> try_inv s'"
proof -
  assume s: "try_inv s" and "s' \<in> set (try_next s)"
  then obtain t where t: "t < TRY_THREADS" "s' \<in> set (thread_function t s)" by (auto simp: try_next_mem)
  show "try_inv s'"
  proof (cases "try_at s t")
    case Trying
    show ?thesis
    proof (cases "resource_mutex s")
      case None
      show ?thesis
      proof (cases "retry_count s t < MAX_RETRIES")
        case True
        with s t Trying None show ?thesis by (auto simp: try_inv_def thread_function_def goto_try_def)
      next
        case False
        then have m: "retry_count s t = MAX_RETRIES" using s by (auto simp: try_inv_def intro: le_antisym)
        then have "\<exists>u < TRY_THREADS. u \<noteq> t \<and> (try_at s u = Working \<or> try_at s u = Released)"
          using s Trying by (fastforce simp: try_inv_def MAX_RETRIES_def)
        with s t Trying None False m show ?thesis by (auto simp: try_inv_def thread_function_def goto_try_def)
      qed
    next
      case (Some u)
      then have u: "try_at s u = Working" "u < TRY_THREADS" using s by (auto simp: try_inv_def)
      then have "u \<noteq> t" using Trying by auto
      note u = u this
      show ?thesis
      proof (cases "retry_count s t < MAX_RETRIES")
        case True
        with s t Trying Some u show ?thesis by (auto simp: try_inv_def thread_function_def goto_try_def)
      next
        case False
        then have "retry_count s t = MAX_RETRIES" using s by (auto simp: try_inv_def intro: le_antisym)
        with s t Trying Some False u show ?thesis by (auto simp: try_inv_def thread_function_def goto_try_def)
      qed
    qed
  next
    case Working
    with s t show ?thesis by (auto simp: try_inv_def thread_function_def goto_try_def)
  qed (use t in \<open>simp_all add: thread_function_def\<close>)
qed

text \<open>Every step uses up one try or one of the two last steps of a thread.\<close>

definition try_left :: "nat \<Rightarrow> trylab \<Rightarrow> nat" where
  "try_left t s = (case try_at s t of Trying \<Rightarrow> 2 + (MAX_RETRIES - retry_count s t) | Working \<Rightarrow> 1 | _ \<Rightarrow> 0)"

definition try_measure :: "trylab \<Rightarrow> nat" where
  "try_measure s = sum_list (map (\<lambda>t. try_left t s) [0..<TRY_THREADS])"

lemma try_measure_step: "s' \<in> set (try_next s) \<Longrightarrow> try_measure s' < try_measure s"
proof -
  assume "s' \<in> set (try_next s)"
  then obtain t where t: "t < TRY_THREADS" "s' \<in> set (thread_function t s)" by (auto simp: try_next_mem)
  have d: "try_left t s' < try_left t s"
    using t(2) by (auto simp: thread_function_def goto_try_def try_left_def split: try_pc.splits if_splits)
  have o: "try_left u s' = try_left u s" if "u \<noteq> t" for u
    using t(2) that by (auto simp: thread_function_def goto_try_def try_left_def split: try_pc.splits if_splits)
  have "t = 0 \<or> t = 1 \<or> t = 2" using t(1) by (auto simp: TRY_THREADS_def)
  then show ?thesis
    using d o [of 0] o [of 1] o [of 2]
    by (auto simp: try_measure_def TRY_THREADS_def numeral_3_eq_3 numeral_2_eq_2)
qed

interpretation trylab: terminating_system try_next try_init try_inv try_measure
proof
  show "try_inv try_init" by (simp add: try_inv_def try_init_def)
qed (rule try_inv_step, assumption+, rule try_measure_step)

lemma try_next_empty: "try_next s = [] \<longleftrightarrow> (\<forall>t < TRY_THREADS. try_at s t = Released \<or> try_at s t = Gave_Up)"
proof -
  have "thread_function t s = [] \<longleftrightarrow> try_at s t = Released \<or> try_at s t = Gave_Up" for t
    by (simp add: thread_function_def split: try_pc.split)
  then show ?thesis by (auto simp: try_next_def)
qed

text \<open>C32: In \<open>lab26_thread_trylock.c\<close> no thread ever blocks: every run has at most 21 steps, and it can only
  end with all three threads returned, the mutex free, at least one of them having had the resource,
  and every other one having tried exactly five times.\<close>

theorem trylock_outcome:
  assumes "run try_next try_init ks = Some s"
  shows "length ks \<le> 21
     \<and> (if try_next s = [] then resource_mutex s = None \<and> (\<exists>t. t < TRY_THREADS \<and> try_at s t = Released)
            \<and> list_all (\<lambda>t. try_at s t = Released \<or> try_at s t = Gave_Up \<and> retry_count s t = MAX_RETRIES) [0..<TRY_THREADS]
        else \<not> (\<exists>t u. t \<noteq> u \<and> try_at s t = Working \<and> try_at s u = Working))"
proof -
  have i: "try_inv s" by (rule trylab.run_inv [OF assms])
  have "length ks + try_measure s \<le> try_measure try_init" by (rule trylab.run_length [OF assms])
  moreover have "try_measure try_init = 21"
    by (simp add: try_measure_def try_left_def try_init_def TRY_THREADS_def MAX_RETRIES_def numeral_3_eq_3)
  ultimately have l: "length ks \<le> 21" by simp
  show ?thesis
  proof (cases "try_next s = []")
    case True
    then have e: "\<forall>t < TRY_THREADS. try_at s t = Released \<or> try_at s t = Gave_Up" by (simp add: try_next_empty)
    have f: "resource_mutex s = None"
    proof (cases "resource_mutex s")
      case (Some t)
      then have "try_at s t = Working" "t < TRY_THREADS" using i by (auto simp: try_inv_def)
      with e show ?thesis by auto
    qed
    have "\<exists>t. t < TRY_THREADS \<and> try_at s t = Released"
    proof (cases "try_at s 0 = Released")
      case False
      then have "try_at s 0 = Gave_Up" using spec [OF e, of 0] by (simp add: TRY_THREADS_def)
      then have "retry_count s 0 > 0" using i by (simp add: try_inv_def MAX_RETRIES_def)
      then show ?thesis using i e by (auto simp: try_inv_def)
    qed (auto simp: TRY_THREADS_def intro!: exI [of _ 0])
    then show ?thesis using l f e i True by (auto simp: list_all_iff try_inv_def)
  next
    case False
    then show ?thesis using l i by (auto simp: try_inv_def)
  qed
qed

theorem trylock_outcome_witness:
  "length [0, 0, 0, 0 :: nat] \<le> 21
     \<and> (if try_next (the (run try_next try_init [0, 0, 0, 0])) = []
        then resource_mutex (the (run try_next try_init [0, 0, 0, 0])) = None
            \<and> (\<exists>t. t < TRY_THREADS \<and> try_at (the (run try_next try_init [0, 0, 0, 0])) t = Released)
            \<and> list_all (\<lambda>t. try_at (the (run try_next try_init [0, 0, 0, 0])) t = Released
                \<or> try_at (the (run try_next try_init [0, 0, 0, 0])) t = Gave_Up
                  \<and> retry_count (the (run try_next try_init [0, 0, 0, 0])) t = MAX_RETRIES) [0..<TRY_THREADS]
        else \<not> (\<exists>t u. t \<noteq> u \<and> try_at (the (run try_next try_init [0, 0, 0, 0])) t = Working
            \<and> try_at (the (run try_next try_init [0, 0, 0, 0])) u = Working))"
proof (rule trylock_outcome)
  have "run try_next try_init [0, 0, 0, 0] \<noteq> None"
    by (simp add: try_next_def thread_function_def goto_try_def try_init_def TRY_THREADS_def MAX_RETRIES_def
        numeral_3_eq_3)
  then show "run try_next try_init [0, 0, 0, 0] = Some (the (run try_next try_init [0, 0, 0, 0]))" by simp
qed

end
