(* ===== verification/Store_Buffering.thy ===== *)
theory Store_Buffering
  imports Transition
begin

text \<open>
  \<open>thread/lab31_mem_Weakconsistency.c\<close> and \<open>thread/lab32_mem_Seqconsistency.c\<close>: two threads store to one
  variable and load the other, without and with a fence between. The memory is that of x86 (total store
  order): a store waits in the buffer of its thread and reaches memory at any later moment, a load looks
  in the own buffer first, a fence waits until the buffer is empty. One iteration of the loop in
  \<open>main\<close> is modelled; the joins make the iterations independent.
\<close>

datatype loc = X | Y
datatype instr = Store loc nat | Fence | Load loc

definition thread1 :: "bool \<Rightarrow> instr list" where
  "thread1 fence = (if fence then [Store X 1, Fence, Load Y] else [Store X 1, Load Y])"

definition thread2 :: "bool \<Rightarrow> instr list" where
  "thread2 fence = (if fence then [Store Y 1, Fence, Load X] else [Store Y 1, Load X])"

text \<open>A thread: the instructions left, its store buffer, and its result register.\<close>

record core =
  code :: "instr list"
  store_buffer :: "(loc \<times> nat) list"
  register :: nat

record machine =
  x :: nat
  y :: nat
  core1 :: core
  core2 :: core

definition machine_init :: "bool \<Rightarrow> machine" where
  "machine_init fence =
     \<lparr>x = 0, y = 0, core1 = \<lparr>code = thread1 fence, store_buffer = [], register = 0\<rparr>,
      core2 = \<lparr>code = thread2 fence, store_buffer = [], register = 0\<rparr>\<rparr>"

definition mem_read :: "loc \<Rightarrow> machine \<Rightarrow> nat" where
  "mem_read l m = (case l of X \<Rightarrow> x m | Y \<Rightarrow> y m)"

definition mem_write :: "loc \<Rightarrow> nat \<Rightarrow> machine \<Rightarrow> machine" where
  "mem_write l v m = (case l of X \<Rightarrow> m\<lparr>x := v\<rparr> | Y \<Rightarrow> m\<lparr>y := v\<rparr>)"

text \<open>A load takes the youngest own store to the location, if one is still in the buffer.\<close>

definition load :: "loc \<Rightarrow> core \<Rightarrow> machine \<Rightarrow> nat" where
  "load l c m = (case map_of (rev (store_buffer c)) l of None \<Rightarrow> mem_read l m | Some v \<Rightarrow> v)"

definition execute :: "core \<Rightarrow> machine \<Rightarrow> core list" where
  "execute c m =
     (case code c of
        [] \<Rightarrow> []
      | Store l v # js \<Rightarrow> [c\<lparr>code := js, store_buffer := store_buffer c @ [(l, v)]\<rparr>]
      | Fence # js \<Rightarrow> if store_buffer c = [] then [c\<lparr>code := js\<rparr>] else []
      | Load l # js \<Rightarrow> [c\<lparr>code := js, register := load l c m\<rparr>])"

definition flush :: "core \<Rightarrow> ((loc \<times> nat) \<times> core) list" where
  "flush c = (case store_buffer c of [] \<Rightarrow> [] | w # ws \<Rightarrow> [(w, c\<lparr>store_buffer := ws\<rparr>)])"

definition machine_next :: "machine \<Rightarrow> machine list" where
  "machine_next m =
     map (\<lambda>c. m\<lparr>core1 := c\<rparr>) (execute (core1 m) m) @ map (\<lambda>c. m\<lparr>core2 := c\<rparr>) (execute (core2 m) m)
     @ map (\<lambda>((l, v), c). (mem_write l v m)\<lparr>core1 := c\<rparr>) (flush (core1 m))
     @ map (\<lambda>((l, v), c). (mem_write l v m)\<lparr>core2 := c\<rparr>) (flush (core2 m))"

text \<open>What \<open>main\<close> can see after the two joins: \<open>(r1, r2)\<close> when everything has happened.\<close>

definition outcomes :: "bool \<Rightarrow> (nat \<times> nat) set" where
  "outcomes fence = {(register (core1 m), register (core2 m)) | m.
     reachable machine_next (machine_init fence) m \<and> machine_next m = []}"

lemma outcome_of_run:
  "run machine_next (machine_init fence) ks = Some m \<Longrightarrow> machine_next m = [] \<Longrightarrow>
     (register (core1 m), register (core2 m)) \<in> outcomes fence"
  using run_reachable [of machine_next "machine_init fence" ks m] by (auto simp: outcomes_def)

lemmas machine_defs = machine_next_def execute_def flush_def load_def mem_read_def mem_write_def machine_init_def
  thread1_def thread2_def

lemma machine_next_cases:
  assumes "m' \<in> set (machine_next m)"
  obtains c where "c \<in> set (execute (core1 m) m)" "m' = m\<lparr>core1 := c\<rparr>"
    | c where "c \<in> set (execute (core2 m) m)" "m' = m\<lparr>core2 := c\<rparr>"
    | l v c where "((l, v), c) \<in> set (flush (core1 m))" "m' = (mem_write l v m)\<lparr>core1 := c\<rparr>"
    | l v c where "((l, v), c) \<in> set (flush (core2 m))" "m' = (mem_write l v m)\<lparr>core2 := c\<rparr>"
  using assms by (auto simp: machine_next_def)

lemma mem_write_simps [simp]:
  "x (mem_write X v m) = v" "y (mem_write Y v m) = v" "x (mem_write Y v m) = x m" "y (mem_write X v m) = y m"
  "core1 (mem_write l v m) = core1 m" "core2 (mem_write l v m) = core2 m"
  by (cases l; simp add: mem_write_def)+

text \<open>All stores write 1, so memory and registers hold 0 or 1.\<close>

definition core_ok :: "core \<Rightarrow> bool" where
  "core_ok c \<longleftrightarrow> (\<forall>w \<in> set (store_buffer c). snd w = 1) \<and> (\<forall>i \<in> set (code c). case i of Store l v \<Rightarrow> v = 1 | _ \<Rightarrow> True) \<and> register c \<le> 1"

lemma load_ok: "core_ok c \<Longrightarrow> x m \<le> 1 \<Longrightarrow> y m \<le> 1 \<Longrightarrow> load l c m \<le> 1"
proof (cases "map_of (rev (store_buffer c)) l")
  case (Some v)
  then have "(l, v) \<in> set (store_buffer c)" by (auto dest: map_of_SomeD)
  moreover assume "core_ok c"
  ultimately have "v = 1" by (force simp: core_ok_def)
  with Some show ?thesis by (simp add: load_def)
qed (cases l; simp add: load_def mem_read_def)

lemma execute_ok: "core_ok c \<Longrightarrow> x m \<le> 1 \<Longrightarrow> y m \<le> 1 \<Longrightarrow> c' \<in> set (execute c m) \<Longrightarrow> core_ok c'"
proof (cases "code c")
  case (Cons i js)
  assume c: "core_ok c" "x m \<le> 1" "y m \<le> 1" "c' \<in> set (execute c m)"
  show ?thesis
    by (cases i) (use c load_ok [OF c(1-3)] Cons in \<open>auto simp: execute_def core_ok_def split: if_splits\<close>)
qed (simp add: execute_def)

lemma flush_ok: "core_ok c \<Longrightarrow> ((l, v), c') \<in> set (flush c) \<Longrightarrow> core_ok c' \<and> v = 1"
  by (cases "store_buffer c") (auto simp: flush_def core_ok_def)

definition bit_inv :: "machine \<Rightarrow> bool" where
  "bit_inv m \<longleftrightarrow> x m \<le> 1 \<and> y m \<le> 1 \<and> core_ok (core1 m) \<and> core_ok (core2 m)"

lemma bit_inv_step: "bit_inv m \<Longrightarrow> m' \<in> set (machine_next m) \<Longrightarrow> bit_inv m'"
proof (erule machine_next_cases)
  fix l v c
  assume "bit_inv m" "((l, v), c) \<in> set (flush (core1 m))" "m' = (mem_write l v m)\<lparr>core1 := c\<rparr>"
  then show ?thesis using flush_ok [of "core1 m" l v c] by (cases l) (simp_all add: bit_inv_def)
next
  fix l v c
  assume "bit_inv m" "((l, v), c) \<in> set (flush (core2 m))" "m' = (mem_write l v m)\<lparr>core2 := c\<rparr>"
  then show ?thesis using flush_ok [of "core2 m" l v c] by (cases l) (simp_all add: bit_inv_def)
qed (use execute_ok in \<open>auto simp: bit_inv_def\<close>)

interpretation bits: invariant_system machine_next "machine_init fence" bit_inv for fence
proof
  show "bit_inv (machine_init fence)"
    by (simp add: bit_inv_def core_ok_def machine_init_def thread1_def thread2_def)
qed (rule bit_inv_step)

text \<open>
  With the fence a thread is in one of four stages, and past its fence its store is in memory, so the
  second of the two loads sees the other's store.
\<close>

definition stage :: "loc \<Rightarrow> loc \<Rightarrow> core \<Rightarrow> nat \<Rightarrow> bool" where
  "stage l l' c v \<longleftrightarrow>
     code c = [Store l 1, Fence, Load l'] \<and> store_buffer c = [] \<and> v = 0
   \<or> code c = [Fence, Load l'] \<and> (store_buffer c = [(l, 1)] \<and> v = 0 \<or> store_buffer c = [] \<and> v = 1)
   \<or> (code c = [Load l'] \<or> code c = []) \<and> store_buffer c = [] \<and> v = 1"

lemma stage_execute:
  "stage l l' c v \<Longrightarrow> c' \<in> set (execute c m) \<Longrightarrow> stage l l' c' v \<and> (code c' = [] \<longrightarrow> register c' = mem_read l' m)"
  by (auto simp: stage_def execute_def load_def)

lemma stage_flush: "stage l l' c v \<Longrightarrow> ((k, w), c') \<in> set (flush c) \<Longrightarrow> k = l \<and> w = 1 \<and> stage l l' c' 1 \<and> code c' \<noteq> []"
  by (auto simp: stage_def flush_def)

lemma stage_done: "stage l l' c v \<Longrightarrow> code c = [] \<Longrightarrow> v = 1"
  by (auto simp: stage_def)

definition fence_inv :: "machine \<Rightarrow> bool" where
  "fence_inv m \<longleftrightarrow> stage X Y (core1 m) (x m) \<and> stage Y X (core2 m) (y m)
     \<and> (code (core1 m) = [] \<and> code (core2 m) = [] \<longrightarrow> register (core1 m) = 1 \<or> register (core2 m) = 1)"

lemma fence_inv_step: "fence_inv m \<Longrightarrow> m' \<in> set (machine_next m) \<Longrightarrow> fence_inv m'"
proof (erule machine_next_cases)
  fix c
  assume "fence_inv m" "c \<in> set (execute (core1 m) m)" "m' = m\<lparr>core1 := c\<rparr>"
  then show ?thesis
    using stage_execute [of X Y "core1 m" "x m" c m] stage_done [of Y X "core2 m" "y m"]
    by (auto simp: fence_inv_def mem_read_def)
next
  fix c
  assume "fence_inv m" "c \<in> set (execute (core2 m) m)" "m' = m\<lparr>core2 := c\<rparr>"
  then show ?thesis
    using stage_execute [of Y X "core2 m" "y m" c m] stage_done [of X Y "core1 m" "x m"]
    by (auto simp: fence_inv_def mem_read_def)
next
  fix l v c
  assume "fence_inv m" "((l, v), c) \<in> set (flush (core1 m))" "m' = (mem_write l v m)\<lparr>core1 := c\<rparr>"
  then show ?thesis using stage_flush [of X Y "core1 m" "x m" l v c] by (auto simp: fence_inv_def)
next
  fix l v c
  assume "fence_inv m" "((l, v), c) \<in> set (flush (core2 m))" "m' = (mem_write l v m)\<lparr>core2 := c\<rparr>"
  then show ?thesis using stage_flush [of Y X "core2 m" "y m" l v c] by (auto simp: fence_inv_def)
qed

interpretation fences: invariant_system machine_next "machine_init True" fence_inv
proof
  show "fence_inv (machine_init True)" by (simp add: fence_inv_def stage_def machine_init_def thread1_def thread2_def)
qed (rule fence_inv_step)

lemma outcomes_bits: "outcomes fence \<subseteq> {(0, 0), (0, 1), (1, 0), (1, 1)}"
proof
  fix r
  assume "r \<in> outcomes fence"
  then obtain m where m: "r = (register (core1 m), register (core2 m))" "reachable machine_next (machine_init fence) m"
    by (auto simp: outcomes_def)
  have "bit_inv m" using m(2) by (rule bits.reach_inv)
  then show "r \<in> {(0, 0), (0, 1), (1, 0), (1, 1)}" using m(1) by (auto simp: bit_inv_def core_ok_def le_Suc_eq)
qed

lemma outcomes_fence: "(0, 0) \<notin> outcomes True"
proof
  assume "(0, 0) \<in> outcomes True"
  then obtain m where m: "register (core1 m) = 0" "register (core2 m) = 0"
    "reachable machine_next (machine_init True) m" "machine_next m = []"
    by (auto simp: outcomes_def)
  have "fence_inv m" using m(3) by (rule fences.reach_inv)
  then show False using m(1,2,4) by (auto simp: fence_inv_def stage_def machine_next_def execute_def flush_def)
qed

text \<open>C31: The two labs show what they are meant to show: without a fence every combination of the two
  results can be observed, also \<open>r1 = r2 = 0\<close>, which no interleaving of the four statements gives; with
  the fence exactly that one is impossible.\<close>

theorem fence_forbids_exactly_00:
  "outcomes fence = (if fence then {(0, 1), (1, 0), (1, 1)} else {(0, 0), (0, 1), (1, 0), (1, 1)})"
proof (cases fence)
  case True
  have "(0, 1) \<in> outcomes True"
    using outcome_of_run [of True "[0, 0, 0, 0, 0, 0, 0, 0]"] by (simp add: machine_defs)
  moreover have "(1, 1) \<in> outcomes True"
    using outcome_of_run [of True "[0, 0, 0, 0, 1, 0, 0, 0]"] by (simp add: machine_defs)
  moreover have "(1, 0) \<in> outcomes True"
    using outcome_of_run [of True "[0, 0, 1, 0, 0, 0, 0, 0]"] by (simp add: machine_defs)
  ultimately show ?thesis using True outcomes_bits [of True] outcomes_fence by auto
next
  case False
  have "(0, 0) \<in> outcomes False"
    using outcome_of_run [of False "[0, 0, 0, 0, 0, 0]"] by (simp add: machine_defs)
  moreover have "(0, 1) \<in> outcomes False"
    using outcome_of_run [of False "[0, 0, 0, 1, 0, 0]"] by (simp add: machine_defs)
  moreover have "(1, 0) \<in> outcomes False"
    using outcome_of_run [of False "[0, 1, 1, 1, 1, 0]"] by (simp add: machine_defs)
  moreover have "(1, 1) \<in> outcomes False"
    using outcome_of_run [of False "[0, 1, 2, 1, 1, 0]"] by (simp add: machine_defs)
  ultimately show ?thesis using False outcomes_bits [of False] by auto
qed

end
