(* ===== verification/Cond_Labs.thy ===== *)
theory Cond_Labs
  imports Transition
begin

text \<open>
  Waiting for other threads: the condition variable of \<open>thread/lab27_thread_cond.c\<close> and the barrier of
  \<open>thread/lab29_thread_barrier.c\<close>. Sleeps are delays that any interleaving covers; a wait on a condition
  may also return without a signal, as POSIX allows.
\<close>

subsection \<open>A condition on a moving value (\<open>lab27\<close>)\<close>

text \<open>The waiter tests the value with the mutex held; \<open>Woken\<close> waits for the mutex again.\<close>

datatype waiter_pc = W_Lock | W_Test | Waiting | Woken | Met | W_Returned

text \<open>The updater's program counter carries the rounds of its loop that are left.\<close>

datatype updater_pc = Set_39 | U_Lock nat | Increment nat | Signal nat | U_Unlock nat | U_Returned

record cond_lab =
  cond_mutex :: bool
  shared_value :: nat
  waiter_at :: waiter_pc
  updater_at :: updater_pc

definition desired_value :: nat where "desired_value = 42"

definition cond_init :: cond_lab where
  "cond_init = \<lparr>cond_mutex = False, shared_value = 0, waiter_at = W_Lock, updater_at = Set_39\<rparr>"

definition waiter :: "cond_lab \<Rightarrow> cond_lab list" where
  "waiter s =
     (case waiter_at s of
        W_Lock \<Rightarrow> if cond_mutex s then [] else [s\<lparr>cond_mutex := True, waiter_at := W_Test\<rparr>]
      | W_Test \<Rightarrow>
          if shared_value s \<noteq> desired_value then [s\<lparr>cond_mutex := False, waiter_at := Waiting\<rparr>]
          else [s\<lparr>waiter_at := Met\<rparr>]
      | Waiting \<Rightarrow> [s\<lparr>waiter_at := Woken\<rparr>]
      | Woken \<Rightarrow> if cond_mutex s then [] else [s\<lparr>cond_mutex := True, waiter_at := W_Test\<rparr>]
      | Met \<Rightarrow> [s\<lparr>cond_mutex := False, waiter_at := W_Returned\<rparr>]
      | W_Returned \<Rightarrow> [])"

definition updater :: "cond_lab \<Rightarrow> cond_lab list" where
  "updater s =
     (case updater_at s of
        Set_39 \<Rightarrow> [s\<lparr>shared_value := 39, updater_at := U_Lock 5\<rparr>]
      | U_Lock i \<Rightarrow>
          if i = 0 then [s\<lparr>updater_at := U_Returned\<rparr>]
          else if cond_mutex s then [] else [s\<lparr>cond_mutex := True, updater_at := Increment i\<rparr>]
      | Increment i \<Rightarrow> [s\<lparr>shared_value := shared_value s + 1, updater_at := Signal i\<rparr>]
      | Signal i \<Rightarrow>
          [s\<lparr>waiter_at := (if waiter_at s = Waiting then Woken else waiter_at s), updater_at := U_Unlock i\<rparr>]
      | U_Unlock i \<Rightarrow> [s\<lparr>cond_mutex := False, updater_at := U_Lock (i - 1)\<rparr>]
      | U_Returned \<Rightarrow> [])"

definition cond_next :: "cond_lab \<Rightarrow> cond_lab list" where
  "cond_next s = waiter s @ updater s"

text \<open>Who holds the mutex, and what the value is at each point of the updater.\<close>

definition waiter_holds :: "cond_lab \<Rightarrow> bool" where
  "waiter_holds s \<longleftrightarrow> waiter_at s = W_Test \<or> waiter_at s = Met"

definition value_at :: "updater_pc \<Rightarrow> nat" where
  "value_at p = (case p of Set_39 \<Rightarrow> 0 | U_Lock i \<Rightarrow> 44 - i | Increment i \<Rightarrow> 44 - i | Signal i \<Rightarrow> 45 - i
     | U_Unlock i \<Rightarrow> 45 - i | U_Returned \<Rightarrow> 44)"

definition rounds_ok :: "updater_pc \<Rightarrow> bool" where
  "rounds_ok p \<longleftrightarrow> (case p of U_Lock i \<Rightarrow> i \<le> 5 | Increment i \<Rightarrow> 0 < i \<and> i \<le> 5 | Signal i \<Rightarrow> 0 < i \<and> i \<le> 5
     | U_Unlock i \<Rightarrow> 0 < i \<and> i \<le> 5 | _ \<Rightarrow> True)"

definition updater_holds :: "cond_lab \<Rightarrow> bool" where
  "updater_holds s \<longleftrightarrow> (case updater_at s of Increment _ \<Rightarrow> True | Signal _ \<Rightarrow> True | U_Unlock _ \<Rightarrow> True | _ \<Rightarrow> False)"

definition cond_inv :: "cond_lab \<Rightarrow> bool" where
  "cond_inv s \<longleftrightarrow> cond_mutex s = (waiter_holds s \<noteq> updater_holds s) \<and> \<not> (waiter_holds s \<and> updater_holds s)
     \<and> shared_value s = value_at (updater_at s) \<and> rounds_ok (updater_at s)
     \<and> (waiter_at s = Met \<longrightarrow> shared_value s = desired_value)"

lemmas cond_inv_defs = cond_inv_def waiter_holds_def updater_holds_def value_at_def rounds_ok_def desired_value_def

lemma cond_inv_waiter: "cond_inv s \<Longrightarrow> s' \<in> set (waiter s) \<Longrightarrow> cond_inv s'"
  by (cases "waiter_at s") (auto simp: cond_inv_defs waiter_def split: if_splits)

lemma cond_inv_updater: "cond_inv s \<Longrightarrow> s' \<in> set (updater s) \<Longrightarrow> cond_inv s'"
  by (cases "updater_at s"; cases "waiter_at s") (auto simp: cond_inv_defs updater_def split: if_splits)

interpretation cond: invariant_system cond_next cond_init cond_inv
proof
  show "cond_inv cond_init" by (simp add: cond_inv_defs cond_init_def)
qed (auto simp: cond_next_def intro: cond_inv_waiter cond_inv_updater)

text \<open>In \<open>lab27_thread_cond.c\<close> the waiter passes its loop only while it holds the mutex and the value
  is 42, never both threads hold the mutex, and the value runs from 0 through 39 to 44 and no further.\<close>

theorem waiter_passes_only_at_42:
  assumes "reachable cond_next cond_init s"
  shows "(if waiter_at s = Met then shared_value s = desired_value \<and> cond_mutex s \<and> \<not> updater_holds s else True)
     \<and> \<not> (waiter_holds s \<and> updater_holds s) \<and> shared_value s = value_at (updater_at s) \<and> shared_value s \<le> 44"
  using cond.reach_inv [OF assms] by (auto simp: cond_inv_defs split: updater_pc.splits)

definition met_state :: cond_lab where
  "met_state = \<lparr>cond_mutex = True, shared_value = 42, waiter_at = Met, updater_at = U_Lock 2\<rparr>"

lemma met_state_reachable: "reachable cond_next cond_init met_state"
  by (rule run_reachable [where ks = "[1, 1, 0, 0, 0, 1, 0, 0, 0, 1, 0, 0, 0, 0, 0]"])
    code_simp

theorem waiter_passes_only_at_42_witness:
  "(if waiter_at met_state = Met
    then shared_value met_state = desired_value \<and> cond_mutex met_state \<and> \<not> updater_holds met_state else True)
     \<and> \<not> (waiter_holds met_state \<and> updater_holds met_state)
     \<and> shared_value met_state = value_at (updater_at met_state) \<and> shared_value met_state \<le> 44"
  by (rule waiter_passes_only_at_42 [OF met_state_reachable])

text \<open>Once the updater has returned the value stays 44, and the waiter cannot get past its loop.\<close>

definition missed :: "cond_lab \<Rightarrow> bool" where
  "missed s \<longleftrightarrow> shared_value s = 44 \<and> updater_at s = U_Returned \<and> waiter_at s \<noteq> Met \<and> waiter_at s \<noteq> W_Returned"

lemma missed_step: "missed s \<Longrightarrow> s' \<in> set (cond_next s) \<Longrightarrow> missed s'"
  by (cases "waiter_at s") (auto simp: missed_def cond_next_def waiter_def updater_def desired_value_def split: if_splits)

lemma missed_forever: "missed s \<Longrightarrow> reachable cond_next s s' \<Longrightarrow> waiter_at s' \<noteq> W_Returned"
proof -
  assume "reachable cond_next s s'" "missed s"
  then have "missed s'" using missed_step by (rule reach_keeps [where I = missed])
  then show ?thesis by (simp add: missed_def)
qed

definition missed_state :: cond_lab where
  "missed_state = \<lparr>cond_mutex = False, shared_value = 44, waiter_at = Waiting, updater_at = U_Returned\<rparr>"

lemma missed_state_reachable: "reachable cond_next cond_init missed_state"
  by (rule run_reachable
      [where ks = "[0, 0, 1, 1, 1, 1, 0, 1, 0, 0, 0, 1, 0, 0, 0, 1, 0, 0, 0, 1, 0, 0, 0, 1, 0, 0]"])
    code_simp

text \<open>Nothing makes the waiter look while the value is 42: the updater may take the mutex for all five
  rounds before the waiter gets it back, and then the updater has returned, the value is 44 for good,
  the waiter waits again, and neither a signal nor a spurious wakeup ever lets \<open>waiter\<close> return, so
  \<open>main\<close> hangs in its first join. Other schedules let it return.\<close>

theorem waiter_can_miss_42:
  "(\<exists>s. reachable cond_next cond_init s \<and> updater_at s = U_Returned \<and> waiter_at s = Waiting
      \<and> \<not> (\<exists>s'. reachable cond_next s s' \<and> waiter_at s' = W_Returned))
   \<and> (\<exists>s. reachable cond_next cond_init s \<and> waiter_at s = W_Returned)"
proof (intro conjI exI)
  show "reachable cond_next cond_init missed_state" by (rule missed_state_reachable)
  have "missed missed_state" by (simp add: missed_def missed_state_def)
  then show "\<not> (\<exists>s'. reachable cond_next missed_state s' \<and> waiter_at s' = W_Returned)"
    using missed_forever by blast
  have "met_state\<lparr>cond_mutex := False, waiter_at := W_Returned\<rparr> \<in> set (cond_next met_state)"
    by (simp add: cond_next_def waiter_def met_state_def)
  then show "reachable cond_next cond_init (met_state\<lparr>cond_mutex := False, waiter_at := W_Returned\<rparr>)"
    by (rule reachable.step [OF met_state_reachable])
qed (simp_all add: missed_state_def)

subsection \<open>A barrier for four threads (\<open>lab29\<close>)\<close>

text \<open>
  \<open>main\<close> creates \<open>created\<close> threads and joins all \<open>NUM_THREADS\<close> entries of \<open>threads\<close> in order; joining an
  entry that was never filled in has no successor here, because its behaviour is undefined.
\<close>

datatype barrier_pc = Before | At_Barrier | After | Returned

record barrier_lab =
  barrier_count :: nat
  thread_at :: "nat \<Rightarrow> barrier_pc"
  joined :: nat

definition NUM_THREADS :: nat where "NUM_THREADS = 4"

definition barrier_init :: barrier_lab where
  "barrier_init = \<lparr>barrier_count = 0, thread_at = (\<lambda>_. Before), joined = 0\<rparr>"

definition open_barrier :: "(nat \<Rightarrow> barrier_pc) \<Rightarrow> nat \<Rightarrow> barrier_pc" where
  "open_barrier at0 u = (if at0 u = At_Barrier then After else at0 u)"

definition thread_func :: "nat \<Rightarrow> barrier_lab \<Rightarrow> barrier_lab list" where
  "thread_func t s =
     (case thread_at s t of
        Before \<Rightarrow>
          if barrier_count s + 1 = NUM_THREADS
          then [s\<lparr>barrier_count := 0, thread_at := (open_barrier (thread_at s))(t := After)\<rparr>]
          else [s\<lparr>barrier_count := barrier_count s + 1, thread_at := (thread_at s)(t := At_Barrier)\<rparr>]
      | At_Barrier \<Rightarrow> []
      | After \<Rightarrow> [s\<lparr>thread_at := (thread_at s)(t := Returned)\<rparr>]
      | Returned \<Rightarrow> [])"

definition main_join :: "nat \<Rightarrow> barrier_lab \<Rightarrow> barrier_lab list" where
  "main_join created s =
     (if joined s < NUM_THREADS \<and> joined s < created \<and> thread_at s (joined s) = Returned
      then [s\<lparr>joined := joined s + 1\<rparr>] else [])"

definition barrier_next :: "nat \<Rightarrow> barrier_lab \<Rightarrow> barrier_lab list" where
  "barrier_next created s = concat (map (\<lambda>t. thread_func t s) [0..<created]) @ main_join created s"

lemma barrier_next_cases:
  assumes "s' \<in> set (barrier_next created s)"
  obtains t where "t < created" "s' \<in> set (thread_func t s)" | "s' \<in> set (main_join created s)"
  using assms by (auto simp: barrier_next_def)

definition passed :: "barrier_pc \<Rightarrow> bool" where
  "passed p \<longleftrightarrow> p = After \<or> p = Returned"

text \<open>Until the barrier opens the counter is the number of threads at it; it opens for all of them.\<close>

definition barrier_inv :: "nat \<Rightarrow> barrier_lab \<Rightarrow> bool" where
  "barrier_inv created s \<longleftrightarrow>
     (if \<exists>t < created. passed (thread_at s t) then created = NUM_THREADS \<and> (\<forall>t < created. passed (thread_at s t))
      else barrier_count s = card {t \<in> {..<created}. thread_at s t = At_Barrier} \<and> joined s = 0)"

lemma barrier_arrive:
  assumes c: "created \<le> NUM_THREADS" and i: "barrier_inv created s" and t: "t < created" "thread_at s t = Before"
    and s': "s' \<in> set (thread_func t s)"
  shows "barrier_inv created s'"
proof -
  let ?A = "{u \<in> {..<created}. thread_at s u = At_Barrier}"
  have n: "\<not> (\<exists>u < created. passed (thread_at s u))" using i t by (auto simp: barrier_inv_def passed_def split: if_splits)
  then have k: "barrier_count s = card ?A" "joined s = 0" using i by (auto simp: barrier_inv_def)
  have ins: "card (insert t ?A) = card ?A + 1" using t by simp
  have sub: "insert t ?A \<subseteq> {..<created}" using t by auto
  show ?thesis
  proof (cases "barrier_count s + 1 = NUM_THREADS")
    case True
    then have "card {..<created} \<le> card (insert t ?A)" using c k ins by simp
    then have "insert t ?A = {..<created}" by (intro card_seteq sub) simp_all
    then have all: "\<And>u. u < created \<Longrightarrow> u = t \<or> thread_at s u = At_Barrier" by auto
    have "created = NUM_THREADS" using True k ins \<open>insert t ?A = {..<created}\<close> by simp
    then show ?thesis using s' t True all
      by (auto simp: barrier_inv_def passed_def thread_func_def open_barrier_def)
  next
    case False
    then have e: "s' = s\<lparr>barrier_count := barrier_count s + 1, thread_at := (thread_at s)(t := At_Barrier)\<rparr>"
      using s' t by (simp add: thread_func_def)
    have "{u \<in> {..<created}. thread_at s' u = At_Barrier} = insert t ?A" using t e by auto
    moreover have "\<not> (\<exists>u < created. passed (thread_at s' u))" using n e by (auto simp: passed_def)
    moreover have "barrier_count s' = card (insert t ?A)" "joined s' = 0" using k ins e by simp_all
    ultimately show ?thesis by (auto simp: barrier_inv_def)
  qed
qed

lemma barrier_inv_step:
  assumes c: "created \<le> NUM_THREADS" and i: "barrier_inv created s" and s': "s' \<in> set (barrier_next created s)"
  shows "barrier_inv created s'"
  using s'
proof (cases rule: barrier_next_cases)
  case (1 t)
  show ?thesis
  proof (cases "thread_at s t")
    case Before
    with c i 1 show ?thesis by (auto intro: barrier_arrive)
  next
    case After
    then have p: "\<exists>u < created. passed (thread_at s u)" using 1 by (auto simp: passed_def)
    have "s' = s\<lparr>thread_at := (thread_at s)(t := Returned)\<rparr>" using 1 After by (simp add: thread_func_def)
    then show ?thesis using i p 1 by (auto simp: barrier_inv_def passed_def)
  qed (use 1 in \<open>simp_all add: thread_func_def\<close>)
next
  case 2
  then have p: "\<exists>u < created. passed (thread_at s u)" by (auto simp: main_join_def passed_def split: if_splits)
  have "thread_at s' = thread_at s" using 2 by (auto simp: main_join_def split: if_splits)
  then show ?thesis using i p by (auto simp: barrier_inv_def)
qed

text \<open>At most four threads are created: \<open>capped n\<close> is \<open>n\<close> then.\<close>

definition capped :: "nat \<Rightarrow> nat" where
  "capped n = min n NUM_THREADS"

interpretation barrier: invariant_system "barrier_next (capped n)" barrier_init "barrier_inv (capped n)" for n
proof
  show "barrier_inv (capped n) barrier_init" by (simp add: barrier_inv_def barrier_init_def passed_def)
qed (rule barrier_inv_step, simp_all add: capped_def)

lemma barrier_reach_inv:
  "created \<le> NUM_THREADS \<Longrightarrow> reachable (barrier_next created) barrier_init s \<Longrightarrow> barrier_inv created s"
  using barrier.reach_inv [of created s] by (simp add: capped_def min_def)



end
