(* ===== verification/Race_Crash.thy ===== *)
theory Race_Crash
  imports Transition CJson_Data
begin

text \<open>
  \<open>seance6/racecrash/racecrash.c\<close>: four producers append samples to an array that grows by
  \<open>realloc\<close>, under a mutex; a monitor averages it, with the mutex (\<open>USE_LOCK_ON_READ\<close>) or without.
  A step is one access to shared memory or one call. Sleeps are delays that any interleaving covers, and
  the elapsed time in the monitor's line is not modelled. A read or write of a block that is not live is
  the memory error; the run ends there.
\<close>

subsection \<open>The store\<close>

definition NPRODUCERS :: nat where "NPRODUCERS = 4"
definition INITIAL_CAP :: nat where "INITIAL_CAP = 4"
definition GROWTH_CHUNK :: nat where "GROWTH_CHUNK = 64"

fun dadd :: "double \<Rightarrow> double \<Rightarrow> double" where
  "dadd (DNum a) (DNum b) = round_double (a + b)"
| "dadd DNaN _ = DNaN"
| "dadd _ DNaN = DNaN"
| "dadd (DInf s) (DInf t) = (if s = t then DInf s else DNaN)"
| "dadd (DInf s) (DNum _) = DInf s"
| "dadd (DNum _) (DInf s) = DInf s"

text \<open>Division by a positive finite number, the only one the program does.\<close>

fun ddiv_pos :: "double \<Rightarrow> double \<Rightarrow> double" where
  "ddiv_pos (DNum a) (DNum b) = round_double (a / b)"
| "ddiv_pos d _ = d"

record stats_t =
  avg :: double
  stats_count :: nat

datatype producer_pc =
    P_Test | Locking double | Checking double | Reallocating double | Storing_Data double "nat option"
  | Writing double | Unlocking | P_Exited

text \<open>The monitor's locals: \<open>st.count\<close>, \<open>d\<close>, \<open>i\<close> and \<open>sum\<close>.\<close>

datatype monitor_pc =
    M_Test | M_Lock | M_Count | M_Data nat | M_Sum nat "nat option" nat double | M_Unlock stats_t
  | M_Print stats_t | M_Exited

datatype main_pc = Sleeping | Joining | Freeing | M_Finished

text \<open>
  A live block holds \<open>None\<close> in the cells never written. \<open>drawn\<close> counts the calls of \<open>rand\<close>; \<open>pushed\<close> and
  \<open>shown\<close> record what was appended and what the monitor printed.
\<close>

record rc =
  blocks :: "nat \<Rightarrow> double option list option"
  next_block :: nat
  data :: "nat option"
  store_count :: nat
  capacity :: nat
  store_lock :: "nat option"
  g_running :: bool
  producer_at :: "nat \<Rightarrow> producer_pc"
  monitor_at :: monitor_pc
  main_at :: main_pc
  drawn :: nat
  pushed :: "double list"
  shown :: "stats_t list"
  memory_error :: bool

definition goto_p :: "nat \<Rightarrow> producer_pc \<Rightarrow> rc \<Rightarrow> rc" where
  "goto_p t p s = s\<lparr>producer_at := (producer_at s)(t := p)\<rparr>"

definition store_init :: rc where
  "store_init =
     \<lparr>blocks = [0 \<mapsto> replicate INITIAL_CAP None], next_block = 1, data = Some 0, store_count = 0, capacity = INITIAL_CAP,
      store_lock = None, g_running = True, producer_at = (\<lambda>_. P_Test), monitor_at = M_Test, main_at = Sleeping,
      drawn = 0, pushed = [], shown = [], memory_error = False\<rparr>"

text \<open>
  \<open>realloc\<close> may extend the block in place or move it, which frees the old one; with \<open>oom\<close> it may also
  fail and return NULL.
\<close>

definition resize :: "nat \<Rightarrow> double option list \<Rightarrow> double option list" where
  "resize n xs = take n xs @ replicate (n - length xs) None"

definition realloc :: "bool \<Rightarrow> nat option \<Rightarrow> nat \<Rightarrow> rc \<Rightarrow> (nat option \<times> rc) list" where
  "realloc oom p n s =
     (case p of
        None \<Rightarrow> [(Some (next_block s), s\<lparr>blocks := (blocks s)(next_block s \<mapsto> replicate n None), next_block := next_block s + 1\<rparr>)]
      | Some a \<Rightarrow>
          (case blocks s a of
             None \<Rightarrow> [(None, s\<lparr>memory_error := True\<rparr>)]
           | Some xs \<Rightarrow>
               [(Some a, s\<lparr>blocks := (blocks s)(a \<mapsto> resize n xs)\<rparr>),
                (Some (next_block s),
                 s\<lparr>blocks := ((blocks s)(a := None))(next_block s \<mapsto> resize n xs), next_block := next_block s + 1\<rparr>)]))
     @ (if oom then [(None, s)] else [])"

text \<open>\<open>s->data[s->count++] = value\<close>\<close>

definition write_sample :: "double \<Rightarrow> rc \<Rightarrow> rc" where
  "write_sample v s =
     (case data s of
        None \<Rightarrow> s\<lparr>memory_error := True\<rparr>
      | Some a \<Rightarrow>
          (case blocks s a of
             None \<Rightarrow> s\<lparr>memory_error := True\<rparr>
           | Some xs \<Rightarrow>
               if store_count s < length xs
               then s\<lparr>blocks := (blocks s)(a \<mapsto> xs[store_count s := Some v]), store_count := store_count s + 1,
                      pushed := pushed s @ [v]\<rparr>
               else s\<lparr>memory_error := True\<rparr>))"

text \<open>\<open>(double)(rand() % 1000) / 10.0\<close>\<close>

definition sample :: "int \<Rightarrow> double" where
  "sample r = ddiv_pos (dbl_of_int (r mod 1000)) (dbl_of_int 10)"

subsection \<open>The threads\<close>

text \<open>\<open>store_push\<close>, one step of it\<close>

definition store_push :: "bool \<Rightarrow> nat \<Rightarrow> rc \<Rightarrow> rc list" where
  "store_push oom t s =
     (case producer_at s t of
        Locking v \<Rightarrow> if store_lock s = None then [goto_p t (Checking v) (s\<lparr>store_lock := Some t\<rparr>)] else []
      | Checking v \<Rightarrow>
          if store_count s = capacity s then [goto_p t (Reallocating v) (s\<lparr>capacity := capacity s + GROWTH_CHUNK\<rparr>)]
          else [goto_p t (Writing v) s]
      | Reallocating v \<Rightarrow> map (\<lambda>(grown, s). goto_p t (Storing_Data v grown) s) (realloc oom (data s) (capacity s) s)
      | Storing_Data v grown \<Rightarrow> [goto_p t (Writing v) (s\<lparr>data := grown\<rparr>)]
      | Writing v \<Rightarrow> [goto_p t Unlocking (write_sample v s)]
      | Unlocking \<Rightarrow> [goto_p t P_Test (s\<lparr>store_lock := None\<rparr>)]
      | _ \<Rightarrow> [])"

definition producer_main :: "(nat \<Rightarrow> int) \<Rightarrow> bool \<Rightarrow> nat \<Rightarrow> rc \<Rightarrow> rc list" where
  "producer_main rand oom t s =
     (case producer_at s t of
        P_Test \<Rightarrow>
          if g_running s then [goto_p t (Locking (sample (rand (drawn s)))) (s\<lparr>drawn := drawn s + 1\<rparr>)]
          else [goto_p t P_Exited s]
      | P_Exited \<Rightarrow> []
      | _ \<Rightarrow> store_push oom t s)"

definition finish_stats :: "nat \<Rightarrow> double \<Rightarrow> stats_t" where
  "finish_stats n sum0 = \<lparr>avg = (if n \<noteq> 0 then ddiv_pos sum0 (dbl_of_int (int n)) else DNum 0), stats_count = n\<rparr>"

text \<open>\<open>d[i]\<close>: None is the memory error (a freed block, a bad index or a cell never written).\<close>

definition read_sample :: "nat option \<Rightarrow> nat \<Rightarrow> rc \<Rightarrow> double option" where
  "read_sample d i s =
     (case d of
        None \<Rightarrow> None
      | Some a \<Rightarrow> (case blocks s a of None \<Rightarrow> None | Some xs \<Rightarrow> if i < length xs then xs ! i else None))"

text \<open>One step of \<open>store_stats_unsafe\<close>, and of \<open>store_stats_safe\<close> when \<open>locked\<close>\<close>

definition store_stats :: "bool \<Rightarrow> rc \<Rightarrow> rc list" where
  "store_stats locked s =
     (case monitor_at s of
        M_Lock \<Rightarrow>
          if store_lock s = None then [s\<lparr>store_lock := Some NPRODUCERS, monitor_at := M_Count\<rparr>] else []
      | M_Count \<Rightarrow> [s\<lparr>monitor_at := M_Data (store_count s)\<rparr>]
      | M_Data n \<Rightarrow> [s\<lparr>monitor_at := M_Sum n (data s) 0 (DNum 0)\<rparr>]
      | M_Sum n d i sum0 \<Rightarrow>
          if i < n then
            (case read_sample d i s of
               None \<Rightarrow> [s\<lparr>memory_error := True\<rparr>]
             | Some v \<Rightarrow> [s\<lparr>monitor_at := M_Sum n d (i + 1) (dadd sum0 v)\<rparr>])
          else [s\<lparr>monitor_at := (if locked then M_Unlock (finish_stats n sum0) else M_Print (finish_stats n sum0))\<rparr>]
      | M_Unlock st \<Rightarrow> [s\<lparr>store_lock := None, monitor_at := M_Print st\<rparr>]
      | _ \<Rightarrow> [])"

definition monitor_main :: "bool \<Rightarrow> rc \<Rightarrow> rc list" where
  "monitor_main locked s =
     (case monitor_at s of
        M_Test \<Rightarrow>
          [s\<lparr>monitor_at := (if g_running s then if locked then M_Lock else M_Count else M_Exited)\<rparr>]
      | M_Print st \<Rightarrow> [s\<lparr>shown := shown s @ [st], monitor_at := M_Test\<rparr>]
      | M_Exited \<Rightarrow> []
      | _ \<Rightarrow> store_stats locked s)"

text \<open>\<open>main\<close> from its sleep on: the flag, the joins (all threads have exited), the \<open>free\<close>.\<close>

definition rc_main :: "rc \<Rightarrow> rc list" where
  "rc_main s =
     (case main_at s of
        Sleeping \<Rightarrow> [s\<lparr>g_running := False, main_at := Joining\<rparr>]
      | Joining \<Rightarrow>
          if list_all (\<lambda>t. producer_at s t = P_Exited) [0..<NPRODUCERS] \<and> monitor_at s = M_Exited
          then [s\<lparr>main_at := Freeing\<rparr>] else []
      | Freeing \<Rightarrow>
          (case data s of
             None \<Rightarrow> [s\<lparr>main_at := M_Finished\<rparr>]
           | Some a \<Rightarrow>
               if blocks s a = None then [s\<lparr>memory_error := True\<rparr>]
               else [s\<lparr>blocks := (blocks s)(a := None), main_at := M_Finished\<rparr>])
      | M_Finished \<Rightarrow> [])"

definition rc_next :: "(nat \<Rightarrow> int) \<Rightarrow> bool \<Rightarrow> bool \<Rightarrow> rc \<Rightarrow> rc list" where
  "rc_next rand oom locked s =
     (if memory_error s then []
      else concat (map (\<lambda>t. producer_main rand oom t s) [0..<NPRODUCERS]) @ monitor_main locked s @ rc_main s)"

lemma rc_next_cases:
  assumes "s' \<in> set (rc_next rand oom locked s)"
  obtains t where "t < NPRODUCERS" "s' \<in> set (producer_main rand oom t s)"
    | "s' \<in> set (monitor_main locked s)" | "s' \<in> set (rc_main s)"
  using assms by (auto simp: rc_next_def split: if_splits)

subsection \<open>With the lock on the reader's side\<close>

definition stats_of :: "double list \<Rightarrow> stats_t" where
  "stats_of vs = finish_stats (length vs) (foldl dadd (DNum 0) vs)"

text \<open>
  The one live block is the one \<open>p\<close> names, it has the capacity \<open>n\<close>, and its first cells are the samples
  appended.
\<close>

definition store_ok :: "nat option \<Rightarrow> nat \<Rightarrow> rc \<Rightarrow> bool" where
  "store_ok p n s \<longleftrightarrow>
     (\<exists>a xs. p = Some a \<and> blocks s = [a \<mapsto> xs] \<and> length xs = n \<and> store_count s \<le> n \<and> store_count s = length (pushed s)
        \<and> take (store_count s) xs = map Some (pushed s))"

definition p_holds :: "producer_pc \<Rightarrow> bool" where
  "p_holds p = (case p of P_Test \<Rightarrow> False | Locking _ \<Rightarrow> False | P_Exited \<Rightarrow> False | _ \<Rightarrow> True)"

definition m_holds :: "monitor_pc \<Rightarrow> bool" where
  "m_holds m = (case m of M_Count \<Rightarrow> True | M_Data _ \<Rightarrow> True | M_Sum _ _ _ _ \<Rightarrow> True | M_Unlock _ \<Rightarrow> True | _ \<Rightarrow> False)"

definition in_cs :: "nat \<Rightarrow> rc \<Rightarrow> bool" where
  "in_cs u s = (if u = NPRODUCERS then m_holds (monitor_at s) else p_holds (producer_at s u))"

definition p_ok :: "producer_pc \<Rightarrow> rc \<Rightarrow> bool" where
  "p_ok p s \<longleftrightarrow> (case p of
       Reallocating v \<Rightarrow> GROWTH_CHUNK \<le> capacity s \<and> store_count s = capacity s - GROWTH_CHUNK
         \<and> store_ok (data s) (capacity s - GROWTH_CHUNK) s
     | Storing_Data v grown \<Rightarrow> store_count s < capacity s \<and> store_ok grown (capacity s) s
     | Writing v \<Rightarrow> store_count s < capacity s \<and> store_ok (data s) (capacity s) s
     | _ \<Rightarrow> store_ok (data s) (capacity s) s)"

definition m_ok :: "monitor_pc \<Rightarrow> rc \<Rightarrow> bool" where
  "m_ok m s \<longleftrightarrow> (case m of
       M_Data n \<Rightarrow> n = store_count s
     | M_Sum n d i sum0 \<Rightarrow> n = store_count s \<and> d = data s \<and> i \<le> n \<and> sum0 = foldl dadd (DNum 0) (take i (pushed s))
     | M_Unlock st \<Rightarrow> st = stats_of (pushed s)
     | _ \<Rightarrow> True)"

definition of_prefix :: "double list \<Rightarrow> stats_t \<Rightarrow> bool" where
  "of_prefix vs st \<longleftrightarrow> (\<exists>k \<le> length vs. st = stats_of (take k vs))"

text \<open>What holds of the store depends on who has the mutex.\<close>

definition lock_ok :: "rc \<Rightarrow> bool" where
  "lock_ok s = (case store_lock s of
       None \<Rightarrow> if main_at s = M_Finished then blocks s = Map.empty else store_ok (data s) (capacity s) s
     | Some u \<Rightarrow>
         if u = NPRODUCERS then store_ok (data s) (capacity s) s \<and> m_ok (monitor_at s) s
         else p_ok (producer_at s u) s)"

definition exits_ok :: "rc \<Rightarrow> bool" where
  "exits_ok s \<longleftrightarrow> (\<forall>t \<ge> NPRODUCERS. producer_at s t = P_Test)
     \<and> (main_at s = Freeing \<or> main_at s = M_Finished \<longrightarrow>
          (\<forall>t < NPRODUCERS. producer_at s t = P_Exited) \<and> monitor_at s = M_Exited)"

definition shown_ok :: "rc \<Rightarrow> bool" where
  "shown_ok s \<longleftrightarrow> list_all (of_prefix (pushed s)) (shown s)
     \<and> (\<forall>st. monitor_at s = M_Print st \<longrightarrow> of_prefix (pushed s) st)"

definition rc_inv :: "rc \<Rightarrow> bool" where
  "rc_inv s \<longleftrightarrow> \<not> memory_error s \<and> (\<forall>u. in_cs u s \<longleftrightarrow> store_lock s = Some u) \<and> lock_ok s \<and> exits_ok s \<and> shown_ok s"

lemma of_prefix_append: "of_prefix vs st \<Longrightarrow> of_prefix (vs @ ws) st"
proof -
  assume "of_prefix vs st"
  then obtain k where "k \<le> length vs" "st = stats_of (take k vs)" by (auto simp: of_prefix_def)
  then show ?thesis by (auto simp: of_prefix_def intro!: exI [of _ k])
qed

lemma of_prefix_all: "of_prefix vs (stats_of vs)"
  by (auto simp: of_prefix_def intro: exI [of _ "length vs"])

lemma store_okI:
  "p = Some a \<Longrightarrow> blocks s = [a \<mapsto> xs] \<Longrightarrow> length xs = n \<Longrightarrow> store_count s \<le> n \<Longrightarrow> store_count s = length (pushed s) \<Longrightarrow>
     take (store_count s) xs = map Some (pushed s) \<Longrightarrow> store_ok p n s"
  by (auto simp: store_ok_def)

lemma store_ok_read:
  assumes "store_ok p n s" "i < store_count s"
  shows "read_sample p i s = Some (pushed s ! i)"
proof -
  obtain a xs where s: "p = Some a" "blocks s = [a \<mapsto> xs]" "store_count s \<le> length xs" "store_count s = length (pushed s)"
    "take (store_count s) xs = map Some (pushed s)"
    using assms(1) by (auto simp: store_ok_def)
  have "xs ! i = take (store_count s) xs ! i" using assms(2) by simp
  with s assms(2) show ?thesis by (simp add: read_sample_def)
qed

lemma store_ok_write:
  assumes "store_ok (data s) n s" "store_count s < n"
  shows "store_ok (data s) n (write_sample v s)" "pushed (write_sample v s) = pushed s @ [v]"
    "memory_error (write_sample v s) = memory_error s"
proof -
  obtain a xs where s: "data s = Some a" "blocks s = [a \<mapsto> xs]" "length xs = n" "store_count s = length (pushed s)"
    "take (store_count s) xs = map Some (pushed s)"
    using assms(1) by (auto simp: store_ok_def)
  have e: "write_sample v s = s\<lparr>blocks := [a \<mapsto> xs[store_count s := Some v]], store_count := store_count s + 1,
      pushed := pushed s @ [v]\<rparr>"
    using s assms(2) by (simp add: write_sample_def)
  have "take (store_count s + 1) (xs[store_count s := Some v]) = map Some (pushed s @ [v])"
    using s assms(2) by (simp add: take_Suc_conv_app_nth)
  with s assms(2) show "store_ok (data s) n (write_sample v s)"
    by (intro store_okI [of _ a _ "xs[store_count s := Some v]"]) (simp_all add: e)
  show "pushed (write_sample v s) = pushed s @ [v]" "memory_error (write_sample v s) = memory_error s"
    by (simp_all add: e)
qed

lemma write_sample_frame [simp]:
  "data (write_sample v s) = data s" "capacity (write_sample v s) = capacity s" "store_lock (write_sample v s) = store_lock s"
  "producer_at (write_sample v s) = producer_at s" "monitor_at (write_sample v s) = monitor_at s"
  "main_at (write_sample v s) = main_at s" "shown (write_sample v s) = shown s"
  by (auto simp: write_sample_def split: option.split)

lemma realloc_ok:
  assumes "store_ok (data s) m s" "m \<le> n" "(p, s') \<in> set (realloc False (data s) n s)"
  shows "store_ok p n s' \<and> (\<exists>bs k. s' = s\<lparr>blocks := bs, next_block := k\<rparr>)"
proof -
  obtain a xs where s: "data s = Some a" "blocks s = [a \<mapsto> xs]" "length xs = m" "store_count s \<le> m"
    "store_count s = length (pushed s)" "take (store_count s) xs = map Some (pushed s)"
    using assms(1) by (auto simp: store_ok_def)
  have r: "take (store_count s) (resize n xs) = map Some (pushed s)" "length (resize n xs) = n"
    using s assms(2) by (simp_all add: resize_def)
  consider "p = Some a" "s' = s\<lparr>blocks := [a \<mapsto> resize n xs]\<rparr>"
    | "p = Some (next_block s)" "s' = s\<lparr>blocks := [next_block s \<mapsto> resize n xs], next_block := next_block s + 1\<rparr>"
    using assms(3) s by (auto simp: realloc_def)
  then show ?thesis
  proof cases
    case 1
    then have "s' = s\<lparr>blocks := [a \<mapsto> resize n xs], next_block := next_block s\<rparr>" by simp
    moreover have "store_ok p n s'" by (rule store_okI [of _ a _ "resize n xs"]) (use 1 s r assms(2) in simp_all)
    ultimately show ?thesis by blast
  next
    case 2
    moreover have "store_ok p n s'"
      by (rule store_okI [of _ "next_block s" _ "resize n xs"]) (use 2 s r assms(2) in simp_all)
    ultimately show ?thesis by blast
  qed
qed

lemma store_ok_cong:
  "blocks s' = blocks s \<Longrightarrow> store_count s' = store_count s \<Longrightarrow> pushed s' = pushed s \<Longrightarrow> store_ok p n s' = store_ok p n s"
  by (simp add: store_ok_def)

lemma rc_cs: "rc_inv s \<Longrightarrow> in_cs u s \<longleftrightarrow> store_lock s = Some u"
  by (simp add: rc_inv_def)

lemma rc_rest: "rc_inv s \<Longrightarrow> \<not> memory_error s \<and> lock_ok s \<and> exits_ok s \<and> shown_ok s"
  by (simp add: rc_inv_def)

text \<open>A step that leaves the mutex and the other threads alone has to show its own part.\<close>

lemma producer_keeps:
  assumes i: "rc_inv s" and t: "t < NPRODUCERS" "store_lock s = Some t"
    and s': "store_lock s' = Some t" "producer_at s' = (producer_at s)(t := p)" "monitor_at s' = monitor_at s"
      "main_at s' = main_at s" "shown s' = shown s" "memory_error s' = memory_error s" "\<exists>ws. pushed s' = pushed s @ ws"
    and p: "p_holds p" "p_ok p s'"
  shows "rc_inv s'"
proof -
  have h: "p_holds (producer_at s t)" using i t by (auto simp: rc_inv_def in_cs_def split: if_splits)
  have "in_cs u s' \<longleftrightarrow> store_lock s' = Some u" for u
    using i t s' p h by (auto simp: rc_inv_def in_cs_def)
  moreover have "lock_ok s'" using t s' p by (simp add: lock_ok_def)
  moreover have "exits_ok s'" using i s' t h by (auto simp: rc_inv_def exits_ok_def p_holds_def)
  moreover have "shown_ok s'"
    using i s' by (auto simp: rc_inv_def shown_ok_def list_all_iff of_prefix_append)
  ultimately show ?thesis using i s' by (simp add: rc_inv_def)
qed

lemma owner_p_ok: "rc_inv s \<Longrightarrow> t < NPRODUCERS \<Longrightarrow> p_holds (producer_at s t) \<Longrightarrow> store_lock s = Some t \<and> p_ok (producer_at s t) s"
proof -
  assume i: "rc_inv s" and t: "t < NPRODUCERS" "p_holds (producer_at s t)"
  then have "in_cs t s" by (simp add: in_cs_def)
  then have l: "store_lock s = Some t" using i by (simp add: rc_inv_def)
  with i t show ?thesis by (simp add: rc_inv_def lock_ok_def)
qed

lemma producer_step_inv:
  assumes i: "rc_inv s" and t: "t < NPRODUCERS" and s': "s' \<in> set (producer_main rand False t s)"
  shows "rc_inv s'"
proof (cases "p_holds (producer_at s t)")
  case True
  note own = owner_p_ok [OF i t True]
  show ?thesis
  proof (cases "producer_at s t")
    case (Checking v)
    show ?thesis
    proof (cases "store_count s = capacity s")
      case full: True
      show ?thesis
        by (rule producer_keeps [OF i t, where p = "Reallocating v"])
          (use own s' Checking full in \<open>auto simp: producer_main_def store_push_def goto_p_def p_holds_def p_ok_def store_ok_def\<close>)
    next
      case False
      show ?thesis
        by (rule producer_keeps [OF i t, where p = "Writing v"])
          (use own s' Checking False in \<open>auto simp: producer_main_def store_push_def goto_p_def p_holds_def p_ok_def store_ok_def\<close>)
    qed
  next
    case (Reallocating v)
    then obtain p s0 where r: "(p, s0) \<in> set (realloc False (data s) (capacity s) s)" "s' = goto_p t (Storing_Data v p) s0"
      using s' by (auto simp: producer_main_def store_push_def)
    have k: "store_ok (data s) (capacity s - GROWTH_CHUNK) s" "store_count s < capacity s"
      using own Reallocating by (auto simp: p_ok_def GROWTH_CHUNK_def)
    obtain bs nb where f: "store_ok p (capacity s) s0" "s0 = s\<lparr>blocks := bs, next_block := nb\<rparr>"
      using realloc_ok [OF k(1) _ r(1)] by auto
    show ?thesis
      by (rule producer_keeps [OF i t, where p = "Storing_Data v p"])
        (use own k f r(2) in \<open>auto simp: goto_p_def p_holds_def p_ok_def store_ok_def\<close>)
  next
    case (Storing_Data v p)
    show ?thesis
      by (rule producer_keeps [OF i t, where p = "Writing v"])
        (use own s' Storing_Data in \<open>auto simp: producer_main_def store_push_def goto_p_def p_holds_def p_ok_def store_ok_def\<close>)
  next
    case (Writing v)
    then have w: "store_ok (data s) (capacity s) s" "store_count s < capacity s" "s' = goto_p t Unlocking (write_sample v s)"
      using own s' by (auto simp: producer_main_def store_push_def p_ok_def)
    show ?thesis
      by (rule producer_keeps [OF i t, where p = Unlocking])
        (use own w(3) store_ok_write [OF w(1,2), of v] in
          \<open>simp_all add: goto_p_def p_holds_def p_ok_def store_ok_def\<close>)
  next
    case Unlocking
    then have e: "s' = s\<lparr>store_lock := None, producer_at := (producer_at s)(t := P_Test)\<rparr>"
      using s' by (simp add: producer_main_def store_push_def goto_p_def)
    have "main_at s \<noteq> M_Finished" using i t True by (auto simp: rc_inv_def exits_ok_def p_holds_def)
    then show ?thesis
      using i t own Unlocking
      by (auto simp: e rc_inv_def in_cs_def lock_ok_def exits_ok_def shown_ok_def p_ok_def p_holds_def store_ok_def)
  qed (use True in \<open>simp_all add: p_holds_def\<close>)
next
  case False
  show ?thesis
  proof (cases "producer_at s t")
    case P_Test
    define p where "p = (if g_running s then Locking (sample (rand (drawn s))) else P_Exited)"
    define k where "k = (if g_running s then drawn s + 1 else drawn s)"
    have e: "s' = s\<lparr>producer_at := (producer_at s)(t := p), drawn := k\<rparr>" "\<not> p_holds p"
      using s' P_Test by (cases "g_running s"; simp add: producer_main_def store_push_def goto_p_def p_holds_def p_def k_def)+
    have cs: "in_cs u s' = in_cs u s" for u using e False by (simp add: in_cs_def)
    have "store_ok q n s' = store_ok q n s" for q n by (simp add: e(1) store_ok_def)
    then have "p_ok q s' = p_ok q s" "m_ok w s' = m_ok w s" "store_ok (data s') (capacity s') s' = store_ok (data s) (capacity s) s"
      for q w
      by (simp_all add: e(1) p_ok_def m_ok_def split: producer_pc.split monitor_pc.split)
    moreover have "store_lock s \<noteq> Some t" using rc_cs [OF i, of t] t False by (simp add: in_cs_def)
    ultimately have "lock_ok s'" using rc_rest [OF i] e(1)
      by (auto simp: lock_ok_def split: option.split_asm)
    moreover have "exits_ok s'" using i e t P_Test by (auto simp: rc_inv_def exits_ok_def)
    moreover have "shown_ok s'" using i e by (simp add: rc_inv_def shown_ok_def)
    ultimately show ?thesis using rc_rest [OF i] rc_cs [OF i] cs by (simp add: rc_inv_def e(1))
  next
    case (Locking v)
    then have e: "store_lock s = None" "s' = s\<lparr>producer_at := (producer_at s)(t := Checking v), store_lock := Some t\<rparr>"
      using s' by (auto simp: producer_main_def store_push_def goto_p_def split: if_splits)
    have m: "main_at s \<noteq> Freeing" "main_at s \<noteq> M_Finished" using i t Locking by (auto simp: rc_inv_def exits_ok_def)
    have "in_cs u s' \<longleftrightarrow> store_lock s' = Some u" for u
      using rc_cs [OF i, of u] e t by (auto simp: in_cs_def p_holds_def)
    moreover have "lock_ok s'" using i e m t by (simp add: rc_inv_def lock_ok_def p_ok_def store_ok_def)
    moreover have "exits_ok s'" using i e m t by (auto simp: rc_inv_def exits_ok_def)
    moreover have "shown_ok s'" using i e by (simp add: rc_inv_def shown_ok_def)
    ultimately show ?thesis using i e by (simp add: rc_inv_def)
  qed (use False s' in \<open>simp_all add: p_holds_def producer_main_def store_push_def\<close>)
qed

lemma rc_monitor_inv:
  assumes i: "rc_inv s" and s': "s' \<in> set (monitor_main True s)"
  shows "rc_inv s'"
proof (cases "m_holds (monitor_at s)")
  case True
  then have l: "store_lock s = Some NPRODUCERS" using rc_cs [OF i, of NPRODUCERS] by (simp add: in_cs_def)
  then have ok: "store_ok (data s) (capacity s) s" "m_ok (monitor_at s) s" using i by (simp_all add: rc_inv_def lock_ok_def)
  have m: "main_at s \<noteq> Freeing" "main_at s \<noteq> M_Finished" using i True by (auto simp: rc_inv_def exits_ok_def m_holds_def)
  have keep: "rc_inv (s\<lparr>monitor_at := p\<rparr>)" if "m_holds p" "m_ok p s" for p
  proof -
    have "in_cs u (s\<lparr>monitor_at := p\<rparr>) \<longleftrightarrow> store_lock s = Some u" for u
      using rc_cs [OF i, of u] that True by (simp add: in_cs_def split: if_splits)
    moreover have "lock_ok (s\<lparr>monitor_at := p\<rparr>)"
      using l ok that by (auto simp: lock_ok_def m_ok_def store_ok_def split: monitor_pc.splits)
    moreover have "exits_ok (s\<lparr>monitor_at := p\<rparr>)" using i m by (auto simp: rc_inv_def exits_ok_def)
    moreover have "shown_ok (s\<lparr>monitor_at := p\<rparr>)" using i that by (auto simp: rc_inv_def shown_ok_def m_holds_def)
    ultimately show ?thesis using i by (simp add: rc_inv_def)
  qed
  show ?thesis
  proof (cases "monitor_at s")
    case M_Count
    with s' have "s' = s\<lparr>monitor_at := M_Data (store_count s)\<rparr>" by (simp add: monitor_main_def store_stats_def)
    then show ?thesis using keep [of "M_Data (store_count s)"] by (simp add: m_holds_def m_ok_def)
  next
    case (M_Data n)
    with s' have "s' = s\<lparr>monitor_at := M_Sum n (data s) 0 (DNum 0)\<rparr>" by (simp add: monitor_main_def store_stats_def)
    then show ?thesis using keep [of "M_Sum n (data s) 0 (DNum 0)"] ok M_Data by (simp add: m_holds_def m_ok_def)
  next
    case (M_Sum n d j sum0)
    then have o: "n = store_count s" "d = data s" "j \<le> n" "sum0 = foldl dadd (DNum 0) (take j (pushed s))"
      "store_count s = length (pushed s)"
      using ok by (auto simp: m_ok_def store_ok_def)
    show ?thesis
    proof (cases "j < n")
      case lt: True
      then have "read_sample d j s = Some (pushed s ! j)" using store_ok_read [OF ok(1), of j] o by simp
      then have e: "s' = s\<lparr>monitor_at := M_Sum n d (j + 1) (dadd sum0 (pushed s ! j))\<rparr>"
        using s' M_Sum lt by (simp add: monitor_main_def store_stats_def)
      have "dadd sum0 (pushed s ! j) = foldl dadd (DNum 0) (take (j + 1) (pushed s))"
        using o lt by (simp add: take_Suc_conv_app_nth)
      then show ?thesis using keep [of "M_Sum n d (j + 1) (dadd sum0 (pushed s ! j))"] o lt
        by (simp add: e m_holds_def m_ok_def)
    next
      case False
      then have "s' = s\<lparr>monitor_at := M_Unlock (finish_stats n sum0)\<rparr>" using s' M_Sum by (simp add: monitor_main_def store_stats_def)
      moreover have "finish_stats n sum0 = stats_of (pushed s)" using o False by (simp add: stats_of_def)
      ultimately show ?thesis using keep [of "M_Unlock (stats_of (pushed s))"] by (simp add: m_holds_def m_ok_def)
    qed
  next
    case (M_Unlock st)
    then have e: "s' = s\<lparr>store_lock := None, monitor_at := M_Print st\<rparr>" "st = stats_of (pushed s)"
      using s' ok by (auto simp: monitor_main_def store_stats_def m_ok_def)
    have "in_cs u s' \<longleftrightarrow> store_lock s' = Some u" for u
      using rc_cs [OF i, of u] e l by (auto simp: in_cs_def m_holds_def)
    moreover have "lock_ok s'" using e m ok by (simp add: lock_ok_def store_ok_def)
    moreover have "exits_ok s'" using i e m by (auto simp: rc_inv_def exits_ok_def)
    moreover have "shown_ok s'" using i e by (auto simp: rc_inv_def shown_ok_def of_prefix_all)
    ultimately show ?thesis using i e by (simp add: rc_inv_def)
  qed (use True in \<open>simp_all add: m_holds_def\<close>)
next
  case False
  show ?thesis
  proof (cases "monitor_at s = M_Lock")
    case True
    then have e: "store_lock s = None" "s' = s\<lparr>store_lock := Some NPRODUCERS, monitor_at := M_Count\<rparr>"
      using s' by (auto simp: monitor_main_def store_stats_def split: if_splits)
    have m: "main_at s \<noteq> Freeing" "main_at s \<noteq> M_Finished" using i True by (auto simp: rc_inv_def exits_ok_def)
    have "in_cs u s' \<longleftrightarrow> store_lock s' = Some u" for u
      using rc_cs [OF i, of u] e by (auto simp: in_cs_def m_holds_def)
    moreover have "lock_ok s'" using i e m by (simp add: rc_inv_def lock_ok_def m_ok_def store_ok_def)
    moreover have "exits_ok s'" using i e m by (auto simp: rc_inv_def exits_ok_def)
    moreover have "shown_ok s'" using i e by (simp add: rc_inv_def shown_ok_def)
    ultimately show ?thesis using i e by (simp add: rc_inv_def)
  next
    case other: False
    define p where "p = (if monitor_at s = M_Test then if g_running s then M_Lock else M_Exited else M_Test)"
    define sh where "sh = (case monitor_at s of M_Print st \<Rightarrow> shown s @ [st] | _ \<Rightarrow> shown s)"
    have c: "monitor_at s = M_Test \<or> (\<exists>st. monitor_at s = M_Print st)"
      using s' False other by (cases "monitor_at s") (simp_all add: monitor_main_def store_stats_def m_holds_def)
    then have e: "s' = s\<lparr>monitor_at := p, shown := sh\<rparr>" "monitor_at s \<noteq> M_Exited"
      using s' by (auto simp: monitor_main_def store_stats_def p_def sh_def)
    have e3: "p = M_Lock \<or> p = M_Test \<or> p = M_Exited" by (simp add: p_def)
    have sh: "list_all (of_prefix (pushed s)) sh"
      using rc_rest [OF i] by (cases "monitor_at s") (simp_all add: shown_ok_def sh_def)
    have n: "store_lock s \<noteq> Some NPRODUCERS" using rc_cs [OF i, of NPRODUCERS] False by (simp add: in_cs_def)
    have cs: "in_cs u s' = in_cs u s" for u using e(1) e3 False by (auto simp: in_cs_def m_holds_def)
    have "p_ok q s' = p_ok q s" for q
      by (auto simp: e(1) p_ok_def store_ok_def split: producer_pc.split)
    then have "lock_ok s'" using rc_rest [OF i] e(1) n
      by (auto simp: lock_ok_def store_ok_def split: option.splits)
    moreover have "exits_ok s'" using rc_rest [OF i] e(2) by (auto simp: e(1) exits_ok_def)
    moreover have "shown_ok s'" using e(1) e3 sh by (auto simp: shown_ok_def)
    ultimately show ?thesis using rc_rest [OF i] rc_cs [OF i] cs by (simp add: rc_inv_def e(1))
  qed
qed

lemma main_keeps:
  assumes i: "rc_inv s" and m: "main_at s \<noteq> M_Finished" "m \<noteq> M_Finished"
    and f: "m = Freeing \<Longrightarrow> (\<forall>t < NPRODUCERS. producer_at s t = P_Exited) \<and> monitor_at s = M_Exited"
  shows "rc_inv (s\<lparr>g_running := b, main_at := m\<rparr>)" (is "rc_inv ?s")
proof -
  have s: "store_ok p n ?s = store_ok p n s" for p n by (simp add: store_ok_def)
  have p: "p_ok q ?s = p_ok q s" for q by (simp add: p_ok_def s split: producer_pc.split)
  have q: "m_ok q ?s = m_ok q s" for q by (simp add: m_ok_def split: monitor_pc.split)
  have "in_cs u ?s = in_cs u s" for u by (simp add: in_cs_def)
  moreover have "lock_ok ?s" using i m by (simp add: rc_inv_def lock_ok_def s p q split: option.split_asm)
  moreover have "exits_ok ?s" using i m f by (auto simp: rc_inv_def exits_ok_def)
  moreover have "shown_ok ?s" using i by (simp add: rc_inv_def shown_ok_def)
  ultimately show ?thesis using i by (simp add: rc_inv_def)
qed

lemma all_exited:
  assumes i: "rc_inv s" and m: "main_at s = Freeing \<or> main_at s = M_Finished"
  shows "store_lock s = None"
proof (cases "store_lock s")
  case (Some u)
  have ex: "\<forall>t \<ge> NPRODUCERS. producer_at s t = P_Test" "\<forall>t < NPRODUCERS. producer_at s t = P_Exited"
    "monitor_at s = M_Exited"
    using rc_rest [OF i] m by (auto simp: exits_ok_def)
  have "\<not> in_cs u s"
    using ex by (cases "NPRODUCERS \<le> u") (simp_all add: in_cs_def p_holds_def m_holds_def)
  with Some rc_cs [OF i] show ?thesis by simp
qed

lemma main_step_inv:
  assumes i: "rc_inv s" and s': "s' \<in> set (rc_main s)"
  shows "rc_inv s'"
proof -
  show ?thesis
  proof (cases "main_at s")
    case Sleeping
    with s' have "s' = s\<lparr>g_running := False, main_at := Joining\<rparr>" by (simp add: rc_main_def)
    then show ?thesis using main_keeps [OF i, of Joining False] Sleeping by simp
  next
    case Joining
    with s' have e: "s' = s\<lparr>main_at := Freeing\<rparr>" "\<forall>t < NPRODUCERS. producer_at s t = P_Exited" "monitor_at s = M_Exited"
      by (auto simp: rc_main_def list_all_iff split: if_splits)
    then show ?thesis using main_keeps [OF i, of Freeing "g_running s"] Joining by simp
  next
    case Freeing
    note l = all_exited [OF i disjI1 [OF Freeing]]
    obtain a xs where a: "data s = Some a" "blocks s = [a \<mapsto> xs]"
      using i Freeing l by (auto simp: rc_inv_def lock_ok_def store_ok_def)
    then have e: "s' = s\<lparr>blocks := Map.empty, main_at := M_Finished\<rparr>" using s' Freeing by (simp add: rc_main_def)
    have "in_cs u s' = in_cs u s" for u by (simp add: e in_cs_def)
    moreover have "lock_ok s'" by (simp add: e lock_ok_def l)
    moreover have "exits_ok s'" "shown_ok s'" using rc_rest [OF i] Freeing by (simp_all add: e exits_ok_def shown_ok_def)
    ultimately show ?thesis using rc_cs [OF i] rc_rest [OF i] by (simp add: rc_inv_def e)
  qed (use s' in \<open>simp add: rc_main_def\<close>)
qed

lemma rc_inv_step: "rc_inv s \<Longrightarrow> s' \<in> set (rc_next rand False True s) \<Longrightarrow> rc_inv s'"
  by (erule rc_next_cases) (auto intro: producer_step_inv rc_monitor_inv main_step_inv)

interpretation locked_store: invariant_system "rc_next rand False True" store_init rc_inv for rand
proof
  have "store_ok (Some 0) INITIAL_CAP store_init"
    by (rule store_okI [of _ 0 _ "replicate INITIAL_CAP None"]) (simp_all add: store_init_def)
  then show "rc_inv store_init"
    by (simp add: rc_inv_def in_cs_def lock_ok_def exits_ok_def shown_ok_def store_init_def p_holds_def m_holds_def)
qed (rule rc_inv_step)



subsection \<open>Without it, and without memory\<close>

lemmas rc_run_defs = rc_next_def producer_main_def store_push_def monitor_main_def store_stats_def rc_main_def goto_p_def write_sample_def realloc_def
  read_sample_def NPRODUCERS_def INITIAL_CAP_def GROWTH_CHUNK_def store_init_def

lemma race_run: "\<exists>s. run (rc_next rand False False) store_init
    ([0, 0, 0, 0, 0, 0, 0, 0, 0, 0, 0, 0, 0, 0, 0, 0, 0, 0, 0, 0] @ [4, 4, 4] @ [0, 0, 0, 1, 4]) = Some s \<and> memory_error s"
  by (simp add: rc_run_defs numeral_eq_Suc upt_rec)


lemma realloc_fails_run: "\<exists>s. run (rc_next rand True True) store_init
    ([0, 0, 0, 0, 0, 0, 0, 0, 0, 0, 0, 0, 0, 0, 0, 0, 0, 0, 0, 0] @ [0, 0, 0, 2, 0, 0]) = Some s \<and> memory_error s"
  by (simp add: rc_run_defs numeral_eq_Suc upt_rec)

text \<open>Without the lock on the reader's side the monitor reads freed memory in some schedule, whatever
  the samples are: the array moves between its read of \<open>s->data\<close> and its read of an element. The lock does not help against
  a failing \<open>realloc\<close>: its result is not tested, and the next append writes through NULL.\<close>

theorem store_memory_errors:
  "(\<exists>s. reachable (rc_next rand False False) store_init s \<and> memory_error s)
   \<and> (\<exists>s. reachable (rc_next rand True True) store_init s \<and> memory_error s)"
  using race_run [of rand] realloc_fails_run [of rand] run_reachable by meson

end
