(* ===== verification/Bytes.thy ===== *)
theory Bytes
  imports Prelude
begin

text \<open>
  Bytes, and integers in memory on the little-endian machines the programs run on.
\<close>

type_synonym byte = "8 word"

text \<open>The memory of a little-endian integer.\<close>

fun le_bytes :: "nat \<Rightarrow> 'a::len word \<Rightarrow> byte list" where
  "le_bytes 0 w = []"
| "le_bytes (Suc n) w = ucast w # le_bytes n (drop_bit 8 w)"

fun of_le :: "byte list \<Rightarrow> 'a::len word" where
  "of_le [] = 0"
| "of_le (b # bs) = ucast b OR push_bit 8 (of_le bs)"

lemma length_le_bytes [simp]: "length (le_bytes n w) = n"
  by (induction n arbitrary: w) auto

lemma of_le_le_bytes: "of_le (le_bytes n w) = take_bit (8 * n) w"
proof (induction n arbitrary: w)
  case (Suc n)
  have "of_le (le_bytes (Suc n) w) = ucast (ucast w :: byte) OR push_bit 8 (take_bit (8 * n) (drop_bit 8 w))"
    by (simp add: Suc)
  also have "\<dots> = take_bit (8 * Suc n) w"
    by (rule bit_word_eqI) (auto simp: bit_simps not_less)
  finally show ?case .
qed simp

lemma of_le_32 [simp]: "of_le (le_bytes 4 w) = (w :: 32 word)"
  by (simp add: of_le_le_bytes take_bit_word_eq_self)

lemma of_le_64 [simp]: "of_le (le_bytes 8 w) = (w :: 64 word)"
  by (simp add: of_le_le_bytes take_bit_word_eq_self)

end
