(* ===== verification/Ipc_Server.thy ===== *)
theory Ipc_Server
  imports Bytes
begin

text \<open>
  \<open>process/project/backend.c\<close>: once per second one message goes to a message queue, to every socket client
  and into shared memory; and the reading side of \<open>process/project/py_gui.py\<close> that takes it apart. What the
  kernel answers (a new connection, the time, the signal count, the result of every \<open>send\<close>) is the
  environment of a tick. Setting up the objects, all of it \<open>exit(1)\<close> on failure, is not modelled.
\<close>

subsection \<open>The wire format\<close>

text \<open>\<open>timestamp\<close> is the bit pattern of the double.\<close>

record ipc_msg_t =
  seq :: "32 word"
  timestamp :: "64 word"
  sig_count :: "32 word"
  msg_text :: "char list"

definition char_byte :: "char \<Rightarrow> byte" where "char_byte c = word_of_nat (ord c)"
definition byte_char :: "byte \<Rightarrow> char" where "byte_char b = char_of (unat b)"

definition pack :: "ipc_msg_t \<Rightarrow> byte list" where
  "pack m = le_bytes 4 (seq m) @ le_bytes 8 (timestamp m) @ le_bytes 4 (sig_count m) @ map char_byte (msg_text m)"

definition MSG_SIZE :: nat where "MSG_SIZE = 80"

text \<open>\<open>struct.Struct("<Idi64s").unpack\<close> and the cut of the text at its first NUL\<close>

definition unpack_msg :: "byte list \<Rightarrow> 32 word \<times> 64 word \<times> int \<times> string" where
  "unpack_msg raw =
     (of_le (take 4 raw), of_le (take 8 (drop 4 raw)), sint (of_le (take 4 (drop 12 raw)) :: 32 word),
      cstr (map byte_char (drop 16 raw)))"

text \<open>The text that \<open>snprintf\<close> puts into the zeroed 64 bytes.\<close>

definition TEXT_SIZE :: nat where "TEXT_SIZE = 64"

definition tick_text :: "32 word \<Rightarrow> 32 word \<Rightarrow> string" where
  "tick_text n count = ''tick #'' @ dec_nat (unat n) @ '' (SIGUSR1 x'' @ dec_int (sint count) @ '')''"

definition build_msg :: "32 word \<Rightarrow> 64 word \<Rightarrow> 32 word \<Rightarrow> 32 word \<Rightarrow> ipc_msg_t" where
  "build_msg n time count1 count2 =
     (let t = snprintf_s TEXT_SIZE (tick_text n count2)
      in \<lparr>seq = n, timestamp = time, sig_count = count1, msg_text = t @ replicate (TEXT_SIZE - length t) NUL\<rparr>)"

lemma byte_char_byte [simp]: "byte_char (char_byte c) = c"
proof -
  have "ord c < 256" by simp
  then show ?thesis by (simp add: byte_char_def char_byte_def unat_of_nat take_bit_nat_eq_self)
qed

lemma map_byte_char [simp]: "map byte_char (map char_byte cs) = cs"
  by (simp add: comp_def)

lemma length_dec_int32: "length (dec_int (sint (w :: 32 word))) \<le> 11"
proof -
  have b: "- (2 ^ 31) \<le> sint w" "sint w < 2 ^ 31"
    using sint_greater_eq [of w] sint_less [of w] by simp_all
  show ?thesis
  proof (cases "sint w < 0")
    case True
    have "nat (- sint w) < 10 ^ 10" using b by simp
    then have "length (dec_nat (nat (- sint w))) \<le> 10" by (rule length_dec_nat) simp
    with True show ?thesis by (simp add: dec_int_def)
  next
    case False
    have "nat (sint w) < 10 ^ 10" using b by simp
    then have "length (dec_nat (nat (sint w))) \<le> 10" by (rule length_dec_nat) simp
    with False show ?thesis by (simp add: dec_int_def)
  qed
qed

text \<open>The text never fills its 64 bytes, so nothing is cut.\<close>

lemma length_tick_text: "length (tick_text n count) \<le> 39"
proof -
  have "unat n < 2 ^ LENGTH(32)" by (rule unsigned_less)
  then have "unat n < 10 ^ 10" by simp
  then have "length (dec_nat (unat n)) \<le> 10" by (rule length_dec_nat) simp
  with length_dec_int32 [of count] show ?thesis by (simp add: tick_text_def)
qed

lemma build_msg_text: "msg_text (build_msg n time c1 c2) = tick_text n c2 @ replicate (64 - length (tick_text n c2)) NUL"
  using length_tick_text [of n c2] by (simp add: build_msg_def Let_def TEXT_SIZE_def snprintf_s_id)

lemma length_pack: "length (msg_text m) = 64 \<Longrightarrow> length (pack m) = MSG_SIZE"
  by (simp add: pack_def MSG_SIZE_def)

lemma unpack_pack:
  "unpack_msg (pack m) = (seq m, timestamp m, sint (sig_count m), cstr (msg_text m))"
proof -
  have s: "take 4 (pack m) = le_bytes 4 (seq m)" "take 8 (drop 4 (pack m)) = le_bytes 8 (timestamp m)"
    "take 4 (drop 12 (pack m)) = le_bytes 4 (sig_count m)" "drop 16 (pack m) = map char_byte (msg_text m)"
    by (simp_all add: pack_def)
  show ?thesis by (simp only: unpack_msg_def s of_le_32 of_le_64 map_byte_char)
qed

lemma tick_text_no_NUL: "NUL \<notin> set (tick_text n count)"
  by (auto simp: tick_text_def dec_int_def)

subsection \<open>The server\<close>

definition MAX_CLIENTS :: nat where "MAX_CLIENTS = 8"
definition MQ_MAXMSG :: nat where "MQ_MAXMSG = 10"

text \<open>
  \<open>clients\<close> is the table (-1 is a free slot), \<open>conns\<close> the accepted sockets that are open, \<open>streams\<close> what
  the peer of a socket has been sent. The queue drops a message when it is full (\<open>EAGAIN\<close>).
\<close>

record ipc =
  last_seq :: "32 word"
  clients :: "int list"
  conns :: "int set"
  streams :: "int \<Rightarrow> byte list"
  queue :: "byte list list"
  shm :: "byte list"

record tick_env =
  accepted :: int
  now :: "64 word"
  count_read1 :: "32 word"
  count_read2 :: "32 word"
  send_result :: "int \<Rightarrow> int"

definition ipc_init :: ipc where
  "ipc_init = \<lparr>last_seq = 0, clients = replicate MAX_CLIENTS (- 1), conns = {}, streams = (\<lambda>_. []), queue = [],
     shm = replicate MSG_SIZE 0\<rparr>"

fun free_slot :: "int list \<Rightarrow> nat option" where
  "free_slot [] = None"
| "free_slot (c # cs) = (if c = - 1 then Some 0 else map_option Suc (free_slot cs))"

definition accept_client :: "int \<Rightarrow> ipc \<Rightarrow> ipc" where
  "accept_client c s =
     (if c = - 1 then s
      else let s = s\<lparr>conns := insert c (conns s), streams := (streams s)(c := [])\<rparr>
           in case free_slot (clients s) of
                Some slot \<Rightarrow> s\<lparr>clients := (clients s)[slot := c]\<rparr>
              | None \<Rightarrow> s\<lparr>conns := conns s - {c}\<rparr>)"

definition mq_send :: "byte list \<Rightarrow> ipc \<Rightarrow> ipc" where
  "mq_send raw s = (if length (queue s) < MQ_MAXMSG then s\<lparr>queue := queue s @ [raw]\<rparr> else s)"

definition send_client :: "byte list \<Rightarrow> (int \<Rightarrow> int) \<Rightarrow> nat \<Rightarrow> ipc \<Rightarrow> ipc" where
  "send_client raw res i s =
     (let c = clients s ! i
      in if c \<noteq> - 1 then
           (if res c = - 1 then s\<lparr>conns := conns s - {c}, clients := (clients s)[i := - 1]\<rparr>
            else s\<lparr>streams := (streams s)(c := streams s c @ take (nat (res c)) raw)\<rparr>)
         else s)"

definition broadcast :: "byte list \<Rightarrow> (int \<Rightarrow> int) \<Rightarrow> ipc \<Rightarrow> ipc" where
  "broadcast raw res s = fold (send_client raw res) [0..<MAX_CLIENTS] s"

definition tick_msg :: "tick_env \<Rightarrow> ipc \<Rightarrow> ipc_msg_t" where
  "tick_msg e s = build_msg (last_seq s + 1) (now e) (count_read1 e) (count_read2 e)"

text \<open>One turn of the loop in \<open>main\<close>, and the closing of the clients after it.\<close>

definition tick :: "tick_env \<Rightarrow> ipc \<Rightarrow> ipc" where
  "tick e s =
     (let s1 = accept_client (accepted e) s;
          raw = pack (tick_msg e s1);
          s2 = s1\<lparr>last_seq := last_seq s1 + 1\<rparr>;
          s3 = mq_send raw s2;
          s4 = broadcast raw (send_result e) s3
      in s4\<lparr>shm := raw\<rparr>)"

definition close_client :: "nat \<Rightarrow> ipc \<Rightarrow> ipc" where
  "close_client i s = (if clients s ! i \<noteq> - 1 then s\<lparr>conns := conns s - {clients s ! i}\<rparr> else s)"

definition shut_down :: "ipc \<Rightarrow> ipc" where
  "shut_down s = fold close_client [0..<MAX_CLIENTS] s"

subsection \<open>The client table\<close>

definition open_clients :: "int list \<Rightarrow> int list" where
  "open_clients cs = filter (\<lambda>c. c \<noteq> - 1) cs"

definition ipc_inv :: "ipc \<Rightarrow> bool" where
  "ipc_inv s \<longleftrightarrow> length (clients s) = MAX_CLIENTS \<and> distinct (open_clients (clients s)) \<and> conns s = set (open_clients (clients s))"

lemma free_slot_None: "free_slot cs = None \<longleftrightarrow> - 1 \<notin> set cs"
  by (induction cs) auto

lemma free_slot_Some:
  "free_slot cs = Some i \<Longrightarrow> i < length cs \<and> cs ! i = - 1 \<and> (c \<noteq> - 1 \<longrightarrow>
     set (open_clients (cs[i := c])) = insert c (set (open_clients cs))
     \<and> (c \<notin> set cs \<longrightarrow> distinct (open_clients cs) \<longrightarrow> distinct (open_clients (cs[i := c]))))"
proof (induction cs arbitrary: i)
  case (Cons b cs)
  then show ?case by (cases "b = - 1") (auto simp: open_clients_def split: if_splits)
qed simp

text \<open>The new table, once \<open>c\<close> has been offered.\<close>

definition offer :: "int \<Rightarrow> int list \<Rightarrow> int list" where
  "offer c cs = (case free_slot cs of Some i \<Rightarrow> if c = - 1 then cs else cs[i := c] | None \<Rightarrow> cs)"

lemma accept_client_eq:
  assumes "ipc_inv s" "c \<notin> conns s"
  shows "ipc_inv (accept_client c s)" "clients (accept_client c s) = offer c (clients s)"
    "conns (accept_client c s) = conns s \<union> (if c \<noteq> - 1 \<and> length (open_clients (clients s)) < MAX_CLIENTS then {c} else {})"
    "streams (accept_client c s) = (if c = - 1 then streams s else (streams s)(c := []))"
    "last_seq (accept_client c s) = last_seq s" "queue (accept_client c s) = queue s"
proof -
  have full: "length (open_clients cs) < length cs \<longleftrightarrow> - 1 \<in> set cs" for cs
    unfolding open_clients_def by (induction cs) (auto simp: less_Suc_eq_le)
  have n: "c \<noteq> - 1 \<Longrightarrow> c \<notin> set (clients s)" using assms by (auto simp: ipc_inv_def open_clients_def)
  show "ipc_inv (accept_client c s)" "clients (accept_client c s) = offer c (clients s)"
    "conns (accept_client c s) = conns s \<union> (if c \<noteq> - 1 \<and> length (open_clients (clients s)) < MAX_CLIENTS then {c} else {})"
    using assms n free_slot_Some [of "clients s" _ c] full [of "clients s"] free_slot_None [of "clients s"]
    by (auto simp: ipc_inv_def accept_client_def offer_def Let_def split: option.split)
  show "streams (accept_client c s) = (if c = - 1 then streams s else (streams s)(c := []))"
    "last_seq (accept_client c s) = last_seq s" "queue (accept_client c s) = queue s"
    by (simp_all add: accept_client_def Let_def split: option.split)
qed

definition keep :: "(int \<Rightarrow> int) \<Rightarrow> int \<Rightarrow> int" where
  "keep res c = (if res c = - 1 then - 1 else c)"

lemma open_clients_append [simp]: "open_clients (cs @ ds) = open_clients cs @ open_clients ds"
  by (simp add: open_clients_def)

lemma set_open_clients_keep: "set (open_clients (map (keep res) cs)) = {c \<in> set (open_clients cs). res c \<noteq> - 1}"
  by (induction cs) (auto simp: open_clients_def keep_def)

lemma distinct_open_clients_keep: "distinct (open_clients cs) \<Longrightarrow> distinct (open_clients (map (keep res) cs))"
proof (induction cs)
  case (Cons c cs)
  then show ?case
    using set_open_clients_keep [of res cs] by (auto simp: open_clients_def keep_def split: if_splits)
qed (simp add: open_clients_def)

text \<open>The first \<open>k\<close> sends deal with the first \<open>k\<close> slots, each client at most once.\<close>

lemma send_fold:
  assumes "ipc_inv s" "k \<le> MAX_CLIENTS"
  defines "done0 \<equiv> open_clients (take k (clients s))"
  shows "fold (send_client raw res) [0..<k] s =
    s\<lparr>clients := map (keep res) (take k (clients s)) @ drop k (clients s),
      conns := conns s - {c \<in> set done0. res c = - 1},
      streams := (\<lambda>c. if c \<in> set done0 \<and> res c \<noteq> - 1 then streams s c @ take (nat (res c)) raw else streams s c)\<rparr>"
  using assms(2) unfolding done0_def
proof (induction k)
  case 0
  then show ?case by (simp add: open_clients_def)
next
  case (Suc k)
  let ?cs = "clients s"
  let ?t = "fold (send_client raw res) [0..<k] s"
  have k: "k < length ?cs" using assms(1) Suc.prems by (simp add: ipc_inv_def)
  then have t: "take (Suc k) ?cs = take k ?cs @ [?cs ! k]" "drop k ?cs = ?cs ! k # drop (Suc k) ?cs"
    by (simp_all add: take_Suc_conv_app_nth Cons_nth_drop_Suc)
  have e: "?t = s\<lparr>clients := map (keep res) (take k ?cs) @ drop k ?cs,
      conns := conns s - {c \<in> set (open_clients (take k ?cs)). res c = - 1},
      streams := (\<lambda>c. if c \<in> set (open_clients (take k ?cs)) \<and> res c \<noteq> - 1 then streams s c @ take (nat (res c)) raw
        else streams s c)\<rparr>"
    using Suc by simp
  then have c: "clients ?t ! k = ?cs ! k" using k by (simp add: nth_append)
  have d: "?cs ! k \<noteq> - 1 \<Longrightarrow> ?cs ! k \<notin> set (open_clients (take k ?cs))"
  proof -
    assume "?cs ! k \<noteq> - 1"
    moreover have "distinct (open_clients (take k ?cs @ ?cs ! k # drop (Suc k) ?cs))"
      using assms(1) k by (simp add: ipc_inv_def id_take_nth_drop [symmetric])
    ultimately show ?thesis by (simp add: open_clients_def)
  qed
  have u: "(map (keep res) (take k ?cs) @ ?cs ! k # drop (Suc k) ?cs)[k := b] =
      map (keep res) (take k ?cs) @ b # drop (Suc k) ?cs" for b
    using k by (simp add: list_update_append)
  have "fold (send_client raw res) [0..<Suc k] s = send_client raw res k ?t" by simp
  also have "\<dots> = s\<lparr>clients := map (keep res) (take (Suc k) ?cs) @ drop (Suc k) ?cs,
      conns := conns s - {c \<in> set (open_clients (take (Suc k) ?cs)). res c = - 1},
      streams := (\<lambda>c. if c \<in> set (open_clients (take (Suc k) ?cs)) \<and> res c \<noteq> - 1 then streams s c @ take (nat (res c)) raw
        else streams s c)\<rparr>"
  proof (cases "?cs ! k = - 1")
    case True
    then have "open_clients (take (Suc k) ?cs) = open_clients (take k ?cs)" "keep res (?cs ! k) = ?cs ! k"
      by (simp_all add: t(1) open_clients_def keep_def)
    then show ?thesis using True c by (simp add: send_client_def Let_def e t(2)) (simp add: t(1))
  next
    case False
    then have n: "open_clients (take (Suc k) ?cs) = open_clients (take k ?cs) @ [?cs ! k]"
      by (simp add: t(1) open_clients_def)
    show ?thesis
    proof (cases "res (?cs ! k) = - 1")
      case True
      have "conns s - {c \<in> set (open_clients (take k ?cs)). res c = - 1} - {?cs ! k} =
          conns s - {c. (c = ?cs ! k \<or> c \<in> set (open_clients (take k ?cs))) \<and> res c = - 1}"
        using True by auto
      moreover have "(c = ?cs ! k \<or> c \<in> set (open_clients (take k ?cs))) \<and> res c \<noteq> - 1
          \<longleftrightarrow> c \<in> set (open_clients (take k ?cs)) \<and> res c \<noteq> - 1" for c
        using True by auto
      ultimately show ?thesis using False True c
        by (simp add: send_client_def Let_def e t(2) n u) (simp add: t(1) keep_def True)
    next
      case r: False
      let ?f = "\<lambda>c. if c \<in> set (open_clients (take k ?cs)) \<and> res c \<noteq> - 1 then streams s c @ take (nat (res c)) raw
        else streams s c"
      have "conns s - {c \<in> set (open_clients (take k ?cs)). res c = - 1} =
          conns s - {c. (c = ?cs ! k \<or> c \<in> set (open_clients (take k ?cs))) \<and> res c = - 1}"
        using r by auto
      moreover have "?f(?cs ! k := streams s (?cs ! k) @ take (nat (res (?cs ! k))) raw) =
          (\<lambda>c. if (c = ?cs ! k \<or> c \<in> set (open_clients (take k ?cs))) \<and> res c \<noteq> - 1
             then streams s c @ take (nat (res c)) raw else streams s c)"
        using r by (auto simp: fun_eq_iff)
      ultimately show ?thesis using False r c d
        by (simp add: send_client_def Let_def e t(2) n) (simp add: t(1) keep_def r)
    qed
  qed
  finally show ?case .
qed

lemma broadcast_eq:
  assumes "ipc_inv s"
  shows "broadcast raw res s =
    s\<lparr>clients := map (keep res) (clients s), conns := {c \<in> conns s. res c \<noteq> - 1},
      streams := (\<lambda>c. if c \<in> conns s \<and> res c \<noteq> - 1 then streams s c @ take (nat (res c)) raw else streams s c)\<rparr>"
proof -
  have "take MAX_CLIENTS (clients s) = clients s" "drop MAX_CLIENTS (clients s) = []" "set (open_clients (clients s)) = conns s"
    using assms by (simp_all add: ipc_inv_def)
  moreover have "conns s - {c \<in> conns s. res c = - 1} = {c \<in> conns s. res c \<noteq> - 1}" by blast
  ultimately show ?thesis
    using send_fold [OF assms, of MAX_CLIENTS raw res] by (simp add: broadcast_def)
qed

text \<open>Who is connected when the message goes out.\<close>

definition offered :: "tick_env \<Rightarrow> ipc \<Rightarrow> int set" where
  "offered e s = conns s \<union> (if accepted e \<noteq> - 1 \<and> card (conns s) < MAX_CLIENTS then {accepted e} else {})"

definition stream_before :: "tick_env \<Rightarrow> ipc \<Rightarrow> int \<Rightarrow> byte list" where
  "stream_before e s c = (if c = accepted e then [] else streams s c)"

lemma ipc_inv_card: "ipc_inv s \<Longrightarrow> card (conns s) = length (open_clients (clients s)) \<and> finite (conns s) \<and> - 1 \<notin> conns s"
proof -
  assume "ipc_inv s"
  then have c: "conns s = set (open_clients (clients s))" "distinct (open_clients (clients s))" by (simp_all add: ipc_inv_def)
  then show ?thesis unfolding c(1) using distinct_card [OF c(2)] by (simp add: open_clients_def)
qed

lemma ipc_inv_cong: "clients s' = clients s \<Longrightarrow> conns s' = conns s \<Longrightarrow> ipc_inv s' = ipc_inv s"
  by (simp add: ipc_inv_def)

lemma tick_eq:
  assumes "ipc_inv s" "accepted e \<notin> conns s"
  defines "raw \<equiv> pack (tick_msg e s)" and "s1 \<equiv> accept_client (accepted e) s"
  shows "tick e s = s1\<lparr>last_seq := last_seq s + 1, queue := (if length (queue s) < MQ_MAXMSG then queue s @ [raw] else queue s),
    clients := map (keep (send_result e)) (clients s1), conns := {c \<in> offered e s. send_result e c \<noteq> - 1},
    streams := (\<lambda>c. if c \<in> offered e s \<and> send_result e c \<noteq> - 1 then streams s1 c @ take (nat (send_result e c)) raw
      else streams s1 c), shm := raw\<rparr>"
proof -
  note a = accept_client_eq [OF assms(1,2), folded s1_def]
  have o: "conns s1 = offered e s" using a(3) ipc_inv_card [OF assms(1)] by (simp add: offered_def)
  let ?s3 = "mq_send raw (s1\<lparr>last_seq := last_seq s1 + 1\<rparr>)"
  have f: "clients ?s3 = clients s1" "conns ?s3 = conns s1" "streams ?s3 = streams s1"
    by (simp_all add: mq_send_def)
  then have "ipc_inv ?s3" using a(1) by (simp add: ipc_inv_cong [of ?s3 s1])
  note b = broadcast_eq [OF this, of raw "send_result e"]
  have r: "raw = pack (tick_msg e s1)" using a(5) by (simp add: raw_def tick_msg_def)
  have "tick e s = (broadcast raw (send_result e) ?s3)\<lparr>shm := raw\<rparr>"
    by (simp add: tick_def Let_def s1_def [symmetric] r [symmetric])
  also have "\<dots> = (?s3\<lparr>clients := map (keep (send_result e)) (clients s1), conns := {c \<in> offered e s. send_result e c \<noteq> - 1},
      streams := (\<lambda>c. if c \<in> offered e s \<and> send_result e c \<noteq> - 1 then streams s1 c @ take (nat (send_result e c)) raw
        else streams s1 c)\<rparr>)\<lparr>shm := raw\<rparr>"
    unfolding b f o ..
  also have "?s3 = s1\<lparr>last_seq := last_seq s + 1,
      queue := (if length (queue s) < MQ_MAXMSG then queue s @ [raw] else queue s)\<rparr>"
    by (simp add: mq_send_def a(5) a(6) [symmetric])
  finally show ?thesis by simp
qed

lemma tick_inv: "ipc_inv s \<Longrightarrow> accepted e \<notin> conns s \<Longrightarrow> ipc_inv (tick e s)"
proof -
  assume s: "ipc_inv s" "accepted e \<notin> conns s"
  let ?s1 = "accept_client (accepted e) s"
  have "conns ?s1 = offered e s"
    using accept_client_eq(3) [OF s] ipc_inv_card [OF s(1)] by (simp add: offered_def)
  with accept_client_eq(1) [OF s] show ?thesis
    by (simp add: tick_eq [OF s] ipc_inv_def set_open_clients_keep distinct_open_clients_keep)
qed

lemma tick_streams:
  assumes s: "ipc_inv s" "accepted e \<notin> conns s" and c: "c \<in> conns (tick e s)"
  shows "streams (tick e s) c = stream_before e s c @ take (nat (send_result e c)) (pack (tick_msg e s))"
proof -
  have "c \<noteq> - 1" using ipc_inv_card [OF tick_inv [OF s]] c by auto
  with c show ?thesis
    by (simp add: tick_eq [OF s] accept_client_eq(4) [OF s] stream_before_def)
qed

lemma tick_last_seq: "ipc_inv s \<Longrightarrow> accepted e \<notin> conns s \<Longrightarrow> last_seq (tick e s) = last_seq s + 1"
  by (simp add: tick_eq)

lemma close_client_conns:
  "fold close_client js s = s\<lparr>conns := conns s - set (open_clients (map (\<lambda>i. clients s ! i) js))\<rparr>"
proof (induction js arbitrary: s)
  case (Cons i js)
  show ?case
  proof (cases "clients s ! i = - 1")
    case True
    then have "close_client i s = s" by (simp add: close_client_def)
    with True show ?thesis by (simp add: Cons open_clients_def)
  next
    case False
    have "conns s - {clients s ! i} - set (open_clients (map (\<lambda>i. clients s ! i) js)) =
        conns s - set (open_clients (map (\<lambda>i. clients s ! i) (i # js)))"
      using False by (auto simp: open_clients_def)
    moreover have "close_client i s = s\<lparr>conns := conns s - {clients s ! i}\<rparr>"
      using False by (simp add: close_client_def)
    ultimately show ?thesis by (simp add: Cons)
  qed
qed (simp add: open_clients_def)

lemma shut_down_closes: "ipc_inv s \<Longrightarrow> conns (shut_down s) = {}"
proof -
  assume s: "ipc_inv s"
  then have "map (\<lambda>i. clients s ! i) [0..<MAX_CLIENTS] = clients s"
    by (auto simp: ipc_inv_def intro: nth_equalityI)
  then show ?thesis using s unfolding shut_down_def close_client_conns by (simp add: ipc_inv_def)
qed

lemma ipc_inv_init: "ipc_inv ipc_init"
  by (simp add: ipc_inv_def ipc_init_def open_clients_def)

text \<open>C9: One turn of the server's loop gives the same message, with the next sequence number, to shared
  memory, to the queue unless it is full, and to every connected client, the new one included if there
  was a slot for it; a client whose \<open>send\<close> fails is closed and its slot freed, and the table always
  holds exactly the open connections, so that the shutdown closes every one. The number of signals in
  the text is a second reading, which may differ from the one in \<open>sig_count\<close>.\<close>

theorem tick_delivers:
  assumes "ipc_inv s" "accepted e \<notin> conns s"
  shows "ipc_inv (tick e s) \<and> conns (shut_down (tick e s)) = {}
     \<and> conns (tick e s) = {c \<in> offered e s. send_result e c \<noteq> - 1}
     \<and> (\<forall>c \<in> conns (tick e s). streams (tick e s) c = stream_before e s c @ take (nat (send_result e c)) (shm (tick e s)))
     \<and> queue (tick e s) = (if length (queue s) < MQ_MAXMSG then queue s @ [shm (tick e s)] else queue s)
     \<and> unpack_msg (shm (tick e s)) =
         (last_seq s + 1, now e, sint (count_read1 e), tick_text (last_seq s + 1) (count_read2 e))"
proof -
  have "cstr (msg_text (tick_msg e s)) = tick_text (last_seq s + 1) (count_read2 e)"
  proof -
    have "64 - length (tick_text (last_seq s + 1) (count_read2 e)) = Suc (63 - length (tick_text (last_seq s + 1) (count_read2 e)))"
      using length_tick_text [of "last_seq s + 1" "count_read2 e"] by simp
    then show ?thesis
      by (simp add: tick_msg_def build_msg_text cstr_append_NUL tick_text_no_NUL)
  qed
  then have u: "unpack_msg (pack (tick_msg e s)) =
      (last_seq s + 1, now e, sint (count_read1 e), tick_text (last_seq s + 1) (count_read2 e))"
    by (simp add: unpack_pack tick_msg_def) (simp add: build_msg_def Let_def)
  have m: "shm (tick e s) = pack (tick_msg e s)"
    "queue (tick e s) = (if length (queue s) < MQ_MAXMSG then queue s @ [pack (tick_msg e s)] else queue s)"
    "conns (tick e s) = {c \<in> offered e s. send_result e c \<noteq> - 1}"
    by (simp_all add: tick_eq [OF assms])
  show ?thesis
    using tick_inv [OF assms] shut_down_closes [OF tick_inv [OF assms]] m u tick_streams [OF assms] by simp
qed

theorem tick_delivers_witness:
  "let e = \<lparr>accepted = 5, now = 0, count_read1 = 2, count_read2 = 3, send_result = (\<lambda>_. 80)\<rparr>; s = ipc_init in
   ipc_inv (tick e s) \<and> conns (shut_down (tick e s)) = {}
     \<and> conns (tick e s) = {c \<in> offered e s. send_result e c \<noteq> - 1}
     \<and> (\<forall>c \<in> conns (tick e s). streams (tick e s) c = stream_before e s c @ take (nat (send_result e c)) (shm (tick e s)))
     \<and> queue (tick e s) = (if length (queue s) < MQ_MAXMSG then queue s @ [shm (tick e s)] else queue s)
     \<and> unpack_msg (shm (tick e s)) =
         (last_seq s + 1, now e, sint (count_read1 e), tick_text (last_seq s + 1) (count_read2 e))"
  unfolding Let_def by (rule tick_delivers [OF ipc_inv_init]) (simp add: ipc_init_def)

subsection \<open>The reader of the socket\<close>

text \<open>
  \<open>_recv_exact\<close>: the \<open>i\<close>-th \<open>recv\<close> returns some bytes, at least one, at most as many as asked for. None
  stands for a socket with nothing left to read.
\<close>

function recv_exact :: "(nat \<Rightarrow> nat) \<Rightarrow> nat \<Rightarrow> nat \<Rightarrow> byte list \<Rightarrow> byte list \<Rightarrow> (byte list \<times> byte list) option" where
  "recv_exact chunk i n buf stream =
     (if length buf < n then
        if stream = [] then None
        else let k = max 1 (min (chunk i) (min (n - length buf) (length stream)))
             in recv_exact chunk (Suc i) n (buf @ take k stream) (drop k stream)
      else Some (buf, stream))"
  by pat_completeness auto
termination
  by (relation "measure (\<lambda>(chunk, i, n, buf, stream). length stream)") (auto simp: min_def max_def)

declare recv_exact.simps [simp del]

fun reader :: "(nat \<Rightarrow> nat \<Rightarrow> nat) \<Rightarrow> nat \<Rightarrow> byte list \<Rightarrow> (32 word \<times> 64 word \<times> int \<times> string) list" where
  "reader chunk 0 stream = []"
| "reader chunk (Suc j) stream =
     (case recv_exact (chunk j) 0 MSG_SIZE [] stream of
        None \<Rightarrow> []
      | Some (raw, rest) \<Rightarrow> unpack_msg raw # reader chunk j rest)"

text \<open>However the bytes arrive in pieces, a read takes the next ones.\<close>

lemma recv_exact_eq:
  "n \<le> length buf + length stream \<Longrightarrow> length buf \<le> n \<Longrightarrow>
     recv_exact chunk i n buf stream = Some (buf @ take (n - length buf) stream, drop (n - length buf) stream)"
proof (induction chunk i n buf stream rule: recv_exact.induct)
  case (1 chunk i n buf stream)
  show ?case
  proof (cases "length buf < n")
    case True
    define k where "k = max 1 (min (chunk i) (min (n - length buf) (length stream)))"
    have s: "stream \<noteq> []" using True "1.prems" by auto
    then have k: "k \<le> n - length buf" "k \<le> length stream" using True by (auto simp: k_def Suc_le_eq)
    have "recv_exact chunk i n buf stream = recv_exact chunk (Suc i) n (buf @ take k stream) (drop k stream)"
      using True s by (subst recv_exact.simps) (simp add: k_def Let_def)
    also have "\<dots> = Some (buf @ take k stream @ take (n - length buf - k) (drop k stream), drop (n - length buf) stream)"
      using "1.IH" [OF True s k_def] "1.prems" k by simp
    also have "take k stream @ take (n - length buf - k) (drop k stream) = take (n - length buf) stream"
      unfolding take_add [symmetric] le_add_diff_inverse [OF k(1)] ..
    finally show ?thesis .
  qed (use "1.prems" in \<open>subst recv_exact.simps, simp\<close>)
qed

definition fields :: "ipc_msg_t \<Rightarrow> 32 word \<times> 64 word \<times> int \<times> string" where
  "fields m = (seq m, timestamp m, sint (sig_count m), cstr (msg_text m))"

lemma reader_frames:
  "list_all (\<lambda>m. length (msg_text m) = TEXT_SIZE) ms \<Longrightarrow> reader chunk (length ms) (concat (map pack ms) @ rest) = map fields ms"
proof (induction ms)
  case (Cons m ms)
  then have "length (pack m) = MSG_SIZE" by (simp add: length_pack TEXT_SIZE_def)
  with Cons show ?case by (simp add: recv_exact_eq unpack_pack fields_def)
qed simp

text \<open>The messages of a sequence of turns; every new connection has a descriptor not in use.\<close>

fun sent :: "tick_env list \<Rightarrow> ipc \<Rightarrow> ipc_msg_t list" where
  "sent [] s = []"
| "sent (e # es) s = tick_msg e s # sent es (tick e s)"

fun env_ok :: "tick_env list \<Rightarrow> ipc \<Rightarrow> bool" where
  "env_ok [] s = True"
| "env_ok (e # es) s = (accepted e \<notin> conns s \<and> env_ok es (tick e s))"

lemma length_sent [simp]: "length (sent es s) = length es"
  by (induction es s rule: sent.induct) auto

lemma length_tick_msg: "length (msg_text (tick_msg e s)) = TEXT_SIZE"
  using length_tick_text [of "last_seq s + 1" "count_read2 e"] by (simp add: tick_msg_def build_msg_text TEXT_SIZE_def)

lemma sent_text: "list_all (\<lambda>m. length (msg_text m) = TEXT_SIZE) (sent es s)"
  by (induction es s rule: sent.induct) (auto simp: length_tick_msg)

lemma sent_seq: "ipc_inv s \<Longrightarrow> env_ok es s \<Longrightarrow> map seq (sent es s) = map (\<lambda>i. last_seq s + 1 + word_of_nat i) [0..<length es]"
proof (induction es arbitrary: s)
  case (Cons e es)
  then have "map seq (sent es (tick e s)) = map (\<lambda>i. last_seq s + 1 + word_of_nat (Suc i)) [0..<length es]"
    by (simp add: tick_inv tick_last_seq algebra_simps)
  then have "map seq (sent (e # es) s) = (last_seq s + 1) # map (\<lambda>i. last_seq s + 1 + word_of_nat (Suc i)) [0..<length es]"
    by (simp add: tick_msg_def build_msg_def Let_def)
  also have "\<dots> = map (\<lambda>i. last_seq s + 1 + word_of_nat i) (0 # map Suc [0..<length es])" by simp
  also have "0 # map Suc [0..<length es] = [0..<length (e # es)]"
    by (simp add: upt_conv_Cons map_Suc_upt del: upt_Suc)
  finally show ?case .
qed simp

lemma streams_sent:
  "ipc_inv s \<Longrightarrow> env_ok es s \<Longrightarrow> c \<in> conns s \<Longrightarrow> list_all (\<lambda>e. send_result e c = 80) es \<Longrightarrow>
     c \<in> conns (fold tick es s) \<and> streams (fold tick es s) c = streams s c @ concat (map pack (sent es s))"
proof (induction es arbitrary: s)
  case (Cons e es)
  then have f: "accepted e \<notin> conns s" "env_ok es (tick e s)" "send_result e c = 80" by simp_all
  have c: "c \<in> conns (tick e s)" using Cons.prems f by (simp add: tick_eq offered_def)
  have "streams (tick e s) c = streams s c @ pack (tick_msg e s)"
    using Cons.prems f c length_pack [of "tick_msg e s"] length_tick_msg [of e s]
    by (auto simp: tick_streams stream_before_def MSG_SIZE_def TEXT_SIZE_def)
  with Cons.IH [OF tick_inv [OF Cons.prems(1) f(1)] f(2) c] Cons.prems(4) show ?case by simp
qed simp


text \<open>A connection made before the first message of the run.\<close>

definition fresh_state :: ipc where
  "fresh_state = accept_client 5 ipc_init"

definition no_event :: "(int \<Rightarrow> int) \<Rightarrow> tick_env" where
  "no_event res = \<lparr>accepted = - 1, now = 0, count_read1 = 0, count_read2 = 0, send_result = res\<rparr>"

lemma fresh_state: "ipc_inv fresh_state" "5 \<in> conns fresh_state" "streams fresh_state 5 = []"
  using accept_client_eq [OF ipc_inv_init, of 5]
  by (simp_all add: fresh_state_def ipc_init_def open_clients_def MAX_CLIENTS_def)

lemma no_event_ok: "ipc_inv s \<Longrightarrow> env_ok (replicate k (no_event res)) s"
proof (induction k arbitrary: s)
  case (Suc k)
  then have "accepted (no_event res) \<notin> conns s" using ipc_inv_card by (simp add: no_event_def)
  with Suc show ?case by (simp add: tick_inv)
qed simp


text \<open>
  The result of \<open>send\<close> is only compared with -1: after a short one the rest of the message is never sent,
  and the reader's frames no longer start where messages do.
\<close>

lemma short_send_streams:
  "streams (tick (no_event (\<lambda>_. 80)) (tick (no_event (\<lambda>_. 40)) fresh_state)) 5 =
     take 40 (pack (tick_msg (no_event (\<lambda>_. 40)) fresh_state))
     @ pack (tick_msg (no_event (\<lambda>_. 80)) (tick (no_event (\<lambda>_. 40)) fresh_state))"
proof -
  note a = no_event_ok [OF fresh_state(1), of 1 "\<lambda>_. 40", simplified]
  let ?s = "tick (no_event (\<lambda>_. 40)) fresh_state"
  have i: "ipc_inv ?s" using a by (intro tick_inv fresh_state) simp
  note b = no_event_ok [OF i, of 1 "\<lambda>_. 80", simplified]
  have c: "5 \<in> conns ?s" using a fresh_state by (simp add: tick_eq offered_def) (simp add: no_event_def)
  then have d: "5 \<in> conns (tick (no_event (\<lambda>_. 80)) ?s)" using b i by (simp add: tick_eq offered_def) (simp add: no_event_def)
  have "streams ?s 5 = take 40 (pack (tick_msg (no_event (\<lambda>_. 40)) fresh_state))"
    using tick_streams [OF fresh_state(1) _ c] a fresh_state(3) by (simp add: stream_before_def no_event_def)
  moreover have "length (pack (tick_msg (no_event (\<lambda>_. 80)) ?s)) = 80"
    using length_pack [OF length_tick_msg [unfolded TEXT_SIZE_def]] by (simp add: MSG_SIZE_def)
  ultimately show ?thesis
    using tick_streams [OF i _ d] b by (simp add: stream_before_def no_event_def)
qed

lemma short_send_loses:
  "length (reader chunk 2 (streams (tick (no_event (\<lambda>_. 80)) (tick (no_event (\<lambda>_. 40)) fresh_state)) 5)) = 1"
proof -
  have l: "length (pack (tick_msg e s)) = 80" for e s
    using length_pack [OF length_tick_msg [unfolded TEXT_SIZE_def]] by (simp add: MSG_SIZE_def)
  have "recv_exact f 0 80 [] bs = None" if "length bs < 80" "bs \<noteq> []" for f bs
  proof -
    have "length buf + length bs < n \<Longrightarrow> recv_exact f i n buf bs = None" for i n buf and bs :: "byte list"
    proof (induction f i n buf bs rule: recv_exact.induct)
      case (1 f i n buf bs)
      then show ?case by (subst recv_exact.simps) (auto simp: Let_def)
    qed
    with that show ?thesis by simp
  qed
  then show ?thesis
    unfolding short_send_streams by (simp add: numeral_2_eq_2 MSG_SIZE_def recv_exact_eq l)
qed

end
