(* ===== verification/Socket_Servers.thy ===== *)
theory Socket_Servers
  imports Bytes
begin

text \<open>
  The servers of \<open>seance_4\<close>: the echo server with one epoll loop for its listening socket, its timer and
  its clients (\<open>server_epoll.c\<close>), and the server that looks after a child process between two connections
  (\<open>docker2/server.c\<close>). Creating the sockets, all of it an exit on failure, is not modelled.
\<close>

subsection \<open>The echo server\<close>

datatype read_result = Got "byte list" | End_Of_Stream | Try_Again | Read_Error
datatype write_result = Wrote nat | Interrupted | Write_Error

text \<open>What the kernel answers to the calls that one ready descriptor leads to.\<close>

record event =
  ready_fd :: int
  accept_answer :: "int option"
  timer_answer :: "64 word option"
  read_answer :: read_result
  write_answers :: "write_result list"

text \<open>\<open>received\<close> and \<open>echoed\<close> are the two byte streams of a descriptor since its connection was accepted.\<close>

record echo_server =
  interest :: "int set"
  conns :: "int set"
  received :: "int \<Rightarrow> byte list"
  echoed :: "int \<Rightarrow> byte list"
  printed_ticks :: "64 word list"

definition BUF_SIZE :: nat where "BUF_SIZE = 512"

definition handle_new_connection :: "int option \<Rightarrow> echo_server \<Rightarrow> echo_server" where
  "handle_new_connection client s =
     (case client of
        None \<Rightarrow> s
      | Some c \<Rightarrow> s\<lparr>conns := insert c (conns s), interest := insert c (interest s),
                   received := (received s)(c := []), echoed := (echoed s)(c := [])\<rparr>)"

text \<open>
  The loop that writes \<open>buf\<close> from \<open>off\<close> on: its result is whether all went well and what was written; None
  when the answers run out, which stands for a \<open>write\<close> that has not returned.
\<close>

fun write_loop :: "write_result list \<Rightarrow> byte list \<Rightarrow> byte list \<Rightarrow> (bool \<times> byte list) option" where
  "write_loop answers buf written =
     (if buf = [] then Some (True, written)
      else case answers of
             [] \<Rightarrow> None
           | Wrote w # answers' \<Rightarrow>
               write_loop answers' (drop (min w (length buf)) buf) (written @ take (min w (length buf)) buf)
           | Interrupted # answers' \<Rightarrow> write_loop answers' buf written
           | Write_Error # _ \<Rightarrow> Some (False, written))"

declare write_loop.simps [simp del]

text \<open>True when the connection stays open. A read of no bytes is the end of the stream.\<close>

definition handle_client_data :: "event \<Rightarrow> echo_server \<Rightarrow> (bool \<times> echo_server) option" where
  "handle_client_data e s =
     (let c = ready_fd e in
      case read_answer e of
        End_Of_Stream \<Rightarrow> Some (False, s)
      | Try_Again \<Rightarrow> Some (True, s)
      | Read_Error \<Rightarrow> Some (False, s)
      | Got bytes \<Rightarrow>
          let buf = take BUF_SIZE bytes in
          if buf = [] then Some (False, s)
          else map_option (\<lambda>(ok, written).
              (ok, s\<lparr>received := (received s)(c := received s c @ buf), echoed := (echoed s)(c := echoed s c @ written)\<rparr>))
            (write_loop (write_answers e) buf []))"

definition handle_timer :: "64 word option \<Rightarrow> echo_server \<Rightarrow> echo_server" where
  "handle_timer answer s =
     (case answer of None \<Rightarrow> s | Some expirations \<Rightarrow> s\<lparr>printed_ticks := printed_ticks s @ [expirations]\<rparr>)"

definition handle_event :: "int \<Rightarrow> int \<Rightarrow> event \<Rightarrow> echo_server \<Rightarrow> echo_server option" where
  "handle_event listen_fd timer_fd e s =
     (if ready_fd e = listen_fd then Some (handle_new_connection (accept_answer e) s)
      else if ready_fd e = timer_fd then Some (handle_timer (timer_answer e) s)
      else map_option (\<lambda>(ok, s). if ok then s
             else s\<lparr>interest := interest s - {ready_fd e}, conns := conns s - {ready_fd e}\<rparr>) (handle_client_data e s))"

fun event_loop :: "int \<Rightarrow> int \<Rightarrow> event list \<Rightarrow> echo_server \<Rightarrow> echo_server option" where
  "event_loop listen_fd timer_fd [] s = Some s"
| "event_loop listen_fd timer_fd (e # es) s =
     (case handle_event listen_fd timer_fd e s of None \<Rightarrow> None | Some s' \<Rightarrow> event_loop listen_fd timer_fd es s')"

definition echo_init :: "int \<Rightarrow> int \<Rightarrow> echo_server" where
  "echo_init listen_fd timer_fd =
     \<lparr>interest = {listen_fd, timer_fd}, conns = {}, received = (\<lambda>_. []), echoed = (\<lambda>_. []), printed_ticks = []\<rparr>"

text \<open>epoll reports registered descriptors, and \<open>accept\<close> returns a descriptor that is not open.\<close>

fun events_ok :: "int \<Rightarrow> int \<Rightarrow> event list \<Rightarrow> echo_server \<Rightarrow> bool" where
  "events_ok listen_fd timer_fd [] s = True"
| "events_ok listen_fd timer_fd (e # es) s =
     (ready_fd e \<in> interest s \<and> (case accept_answer e of None \<Rightarrow> True | Some c \<Rightarrow> c \<notin> interest s)
      \<and> (case handle_event listen_fd timer_fd e s of None \<Rightarrow> True | Some s' \<Rightarrow> events_ok listen_fd timer_fd es s'))"

definition echo_inv :: "int \<Rightarrow> int \<Rightarrow> echo_server \<Rightarrow> bool" where
  "echo_inv listen_fd timer_fd s \<longleftrightarrow>
     interest s = {listen_fd, timer_fd} \<union> conns s \<and> listen_fd \<notin> conns s \<and> timer_fd \<notin> conns s
     \<and> (\<forall>c \<in> conns s. echoed s c = received s c) \<and> (\<forall>c. \<exists>rest. received s c = echoed s c @ rest)"

lemma write_loop_simps:
  "write_loop answers [] written = Some (True, written)"
  "buf \<noteq> [] \<Longrightarrow> write_loop [] buf written = None"
  "buf \<noteq> [] \<Longrightarrow> write_loop (Wrote w # answers) buf written =
     write_loop answers (drop (min w (length buf)) buf) (written @ take (min w (length buf)) buf)"
  "buf \<noteq> [] \<Longrightarrow> write_loop (Interrupted # answers) buf written = write_loop answers buf written"
  "buf \<noteq> [] \<Longrightarrow> write_loop (Write_Error # answers) buf written = Some (False, written)"
  by (simp_all add: write_loop.simps)

text \<open>What is written is a prefix of the buffer, and all of it unless an error ended the loop.\<close>

lemma write_loop_prefix:
  "write_loop answers buf written = Some (ok, out) \<Longrightarrow> (\<exists>rest. written @ buf = out @ rest) \<and> (ok \<longrightarrow> out = written @ buf)"
proof (induction answers arbitrary: buf written)
  case Nil
  then show ?case by (cases "buf = []") (simp_all add: write_loop_simps)
next
  case (Cons a answers)
  show ?case
  proof (cases "buf = []")
    case False
    with Cons.prems show ?thesis
    proof (cases a)
      case (Wrote w)
      then show ?thesis
        using Cons.prems False Cons.IH [of "drop (min w (length buf)) buf" "written @ take (min w (length buf)) buf"]
        by (simp add: write_loop_simps)
    qed (use Cons.IH [of buf written] in \<open>auto simp: write_loop_simps\<close>)
  qed (use Cons.prems in \<open>simp add: write_loop_simps\<close>)
qed

text \<open>A write loop whose writes take something and do not fail comes to its end.\<close>

lemma write_loop_ends:
  "list_all (\<lambda>a. case a of Wrote w \<Rightarrow> 0 < w | Interrupted \<Rightarrow> False | Write_Error \<Rightarrow> True) answers \<Longrightarrow>
     length buf \<le> length answers \<Longrightarrow> write_loop answers buf written \<noteq> None"
proof (induction answers arbitrary: buf written)
  case (Cons a answers)
  show ?case
  proof (cases "buf = []")
    case False
    then have "0 < length buf" by simp
    with False Cons show ?thesis by (cases a) (auto simp: write_loop_simps)
  qed (simp add: write_loop_simps)
qed (simp add: write_loop_simps)

lemma client_data_inv:
  assumes i: "echo_inv l t s" and c: "ready_fd e \<in> conns s" and h: "handle_client_data e s = Some (ok, s')"
  shows "interest s' = interest s \<and> conns s' = conns s \<and> (\<forall>c. \<exists>rest. received s' c = echoed s' c @ rest)
     \<and> (\<forall>c \<in> conns s. c \<noteq> ready_fd e \<longrightarrow> echoed s' c = received s' c) \<and> (ok \<longrightarrow> echoed s' (ready_fd e) = received s' (ready_fd e))"
proof (cases "s' = s \<and> \<not> ok")
  case True
  with i c show ?thesis unfolding echo_inv_def by blast
next
  case moved: False
  show ?thesis
  proof (cases "read_answer e")
    case (Got bytes)
    let ?buf = "take BUF_SIZE bytes"
    obtain written where w: "write_loop (write_answers e) ?buf [] = Some (ok, written)"
      "s' = s\<lparr>received := (received s)(ready_fd e := received s (ready_fd e) @ ?buf),
              echoed := (echoed s)(ready_fd e := echoed s (ready_fd e) @ written)\<rparr>"
      using h Got moved by (auto simp: handle_client_data_def Let_def split: if_splits)
    from write_loop_prefix [OF w(1), unfolded append_Nil] obtain rest
      where r: "?buf = written @ rest" "ok \<longrightarrow> written = ?buf" by blast
    have q: "echoed s (ready_fd e) = received s (ready_fd e)" using i c by (simp add: echo_inv_def)
    have "\<exists>rest. received s' d = echoed s' d @ rest" for d
    proof (cases "d = ready_fd e")
      case True
      then show ?thesis using w(2) r q by simp
    next
      case False
      then show ?thesis using w(2) i by (simp add: echo_inv_def)
    qed
    moreover have "\<forall>c \<in> conns s. c \<noteq> ready_fd e \<longrightarrow> echoed s' c = received s' c" using w(2) i by (simp add: echo_inv_def)
    moreover have "interest s' = interest s" "conns s' = conns s" "ok \<longrightarrow> echoed s' (ready_fd e) = received s' (ready_fd e)"
      using w(2) r q by simp_all
    ultimately show ?thesis by blast
  next
    case End_Of_Stream
    with h have "s' = s" by (simp add: handle_client_data_def)
    with i c show ?thesis unfolding echo_inv_def by blast
  next
    case Try_Again
    with h have "s' = s" by (simp add: handle_client_data_def)
    with i c show ?thesis unfolding echo_inv_def by blast
  next
    case Read_Error
    with h have "s' = s" by (simp add: handle_client_data_def)
    with i c show ?thesis unfolding echo_inv_def by blast
  qed
qed

lemma handle_event_inv:
  assumes i: "echo_inv l t s" and e: "ready_fd e \<in> interest s"
    "case accept_answer e of None \<Rightarrow> True | Some c \<Rightarrow> c \<notin> interest s" and h: "handle_event l t e s = Some s'"
  shows "echo_inv l t s'"
proof -
  consider "ready_fd e = l" | "ready_fd e \<noteq> l" "ready_fd e = t" | "ready_fd e \<noteq> l" "ready_fd e \<noteq> t" by blast
  then show ?thesis
  proof cases
    case 1
    then show ?thesis using i e(2) h
      by (auto simp: handle_event_def handle_new_connection_def echo_inv_def split: option.splits)
  next
    case 2
    then show ?thesis using i h by (auto simp: handle_event_def handle_timer_def echo_inv_def split: option.splits)
  next
    case 3
    then have c: "ready_fd e \<in> conns s" using i e(1) by (auto simp: echo_inv_def)
    from 3 h obtain ok s1 where o: "handle_client_data e s = Some (ok, s1)"
      "s' = (if ok then s1 else s1\<lparr>interest := interest s1 - {ready_fd e}, conns := conns s1 - {ready_fd e}\<rparr>)"
      by (auto simp: handle_event_def)
    show ?thesis
      using client_data_inv [OF i c o(1)] i o(2) 3 c by (cases ok) (auto simp: echo_inv_def)
  qed
qed

lemma event_loop_inv:
  "echo_inv l t s \<Longrightarrow> events_ok l t es s \<Longrightarrow> event_loop l t es s = Some s' \<Longrightarrow> echo_inv l t s'"
proof (induction es arbitrary: s)
  case (Cons e es)
  then obtain s1 where h: "handle_event l t e s = Some s1" "event_loop l t es s1 = Some s'" "events_ok l t es s1"
    by (auto split: option.splits)
  with Cons.prems handle_event_inv [OF Cons.prems(1) _ _ h(1)] Cons.IH show ?case by auto
qed simp

text \<open>C11: The echo server sends back what it receives: after any sequence of events it has handled, every
  open connection has been sent exactly the bytes it sent, in order and whatever the partial and
  interrupted writes; a connection it closed has been sent a prefix of them; and the descriptors epoll
  watches are the listening socket, the timer and the open connections, nothing else.\<close>

theorem echo_server_echoes:
  assumes "events_ok listen_fd timer_fd es (echo_init listen_fd timer_fd)"
    "event_loop listen_fd timer_fd es (echo_init listen_fd timer_fd) = Some s"
  shows "(\<forall>c \<in> conns s. echoed s c = received s c) \<and> (\<forall>c. \<exists>rest. received s c = echoed s c @ rest)
     \<and> interest s = {listen_fd, timer_fd} \<union> conns s \<and> listen_fd \<notin> conns s \<and> timer_fd \<notin> conns s"
proof -
  have "echo_inv listen_fd timer_fd (echo_init listen_fd timer_fd)" by (simp add: echo_inv_def echo_init_def)
  from event_loop_inv [OF this assms] show ?thesis by (simp add: echo_inv_def)
qed

definition demo_events :: "event list" where
  "demo_events =
     [\<lparr>ready_fd = 3, accept_answer = Some 6, timer_answer = None, read_answer = Try_Again, write_answers = []\<rparr>,
      \<lparr>ready_fd = 6, accept_answer = None, timer_answer = None, read_answer = Got [104, 105, 10],
       write_answers = [Wrote 2, Interrupted, Wrote 1]\<rparr>]"

theorem echo_server_echoes_witness:
  "let s = the (event_loop 3 4 demo_events (echo_init 3 4)) in
   (\<forall>c \<in> conns s. echoed s c = received s c) \<and> (\<forall>c. \<exists>rest. received s c = echoed s c @ rest)
     \<and> interest s = {3, 4} \<union> conns s \<and> 3 \<notin> conns s \<and> 4 \<notin> conns s"
  unfolding Let_def
proof (rule echo_server_echoes)
  have l: "\<exists>s. event_loop 3 4 demo_events (echo_init 3 4) = Some s"
    by (simp add: demo_events_def echo_init_def handle_event_def handle_new_connection_def handle_client_data_def
        write_loop.simps BUF_SIZE_def Let_def)
  show "events_ok 3 4 demo_events (echo_init 3 4)"
    by (simp add: demo_events_def echo_init_def handle_event_def handle_new_connection_def handle_client_data_def
        write_loop.simps BUF_SIZE_def Let_def)
  show "event_loop 3 4 demo_events (echo_init 3 4) = Some (the (event_loop 3 4 demo_events (echo_init 3 4)))"
    using l by auto
qed

subsection \<open>The child process of \<open>docker2/server.c\<close>\<close>

text \<open>
  The child runs, has ended (with a wait status, not yet collected) or has been collected. \<open>child_pid\<close> is
  the variable \<open>pid\<close>; \<open>reports\<close> are the lines about the child's end, with the wait status they show: None
  for the value of \<open>child_status\<close> when nothing has been stored in it.
\<close>

datatype child = Running | Ended "32 word" | Collected

record docker_server =
  child_pid :: int
  child_state :: child
  reports :: "32 word option list"

text \<open>\<open>waitpid(pid, &child_status, WNOHANG)\<close> of a process with the one child \<open>the_child\<close>: -1 names any child.\<close>

definition waitpid :: "int \<Rightarrow> int \<Rightarrow> child \<Rightarrow> int \<times> 32 word option \<times> child" where
  "waitpid the_child p ch =
     (if p = the_child \<or> p = - 1 then
        case ch of
          Running \<Rightarrow> (0, None, Running)
        | Ended status \<Rightarrow> (the_child, Some status, Collected)
        | Collected \<Rightarrow> (- 1, None, Collected)
      else (- 1, None, ch))"

definition check_child :: "int \<Rightarrow> docker_server \<Rightarrow> docker_server" where
  "check_child the_child s =
     (case waitpid the_child (child_pid s) (child_state s) of
        (result, status, ch) \<Rightarrow>
          if result = child_pid s then s\<lparr>child_state := ch, reports := reports s @ [status], child_pid := - 1\<rparr>
          else s\<lparr>child_state := ch\<rparr>)"

lemma check_child_collected:
  "child_pid s = - 1 \<Longrightarrow> child_state s = Collected \<Longrightarrow>
     (check_child the_child ^^ n) s = s\<lparr>reports := reports s @ replicate n None\<rparr>"
proof (induction n)
  case (Suc n)
  then show ?case by (simp add: check_child_def waitpid_def replicate_append_same)
qed simp

text \<open>The assignment \<open>pid = -1\<close>, made so that the child is not waited for again, has the opposite effect:
  once the child has ended every later turn of the loop takes the -1 that \<open>waitpid\<close> returns for the
  child's pid and reports the child's end again, from a \<open>child_status\<close> that was never set.\<close>

theorem child_end_reported_again:
  assumes "0 < the_child" "child_pid s = the_child" "child_state s = Ended status"
  shows "reports ((check_child the_child ^^ Suc n) s) = reports s @ Some status # replicate n None"
proof -
  let ?s1 = "check_child the_child s"
  have f: "?s1 = s\<lparr>child_state := Collected, reports := reports s @ [Some status], child_pid := - 1\<rparr>"
    using assms by (simp add: check_child_def waitpid_def)
  have "(check_child the_child ^^ Suc n) s = (check_child the_child ^^ n) ?s1" by (simp add: funpow_swap1)
  also have "\<dots> = ?s1\<lparr>reports := reports ?s1 @ replicate n None\<rparr>"
    by (rule check_child_collected) (simp_all add: f)
  finally show ?thesis by (simp add: f)
qed

theorem child_end_reported_again_witness:
  "reports ((check_child 7 ^^ Suc 2) \<lparr>child_pid = 7, child_state = Ended 0, reports = []\<rparr>) = [Some 0, None, None]"
  using child_end_reported_again [of 7 "\<lparr>child_pid = 7, child_state = Ended 0, reports = []\<rparr>" 0 2]
  by (simp add: numeral_2_eq_2)

end
