(* ===== verification/Timers.thy ===== *)
theory Timers
  imports Prelude
begin

text \<open>
  The timer programs of \<open>seance_4\<close>: \<open>alarm.c\<close>, \<open>timer.c\<close> (a POSIX timer) and \<open>timerfd.c\<close>. Time is in whole
  seconds from the start of the timer; a signal handler takes none.
\<close>

subsection \<open>One-shot timers armed again by their handler\<close>

text \<open>\<open>armed\<close> is the moment of the next expiration; \<open>fired\<close> lists the moments of all ticks so far.\<close>

record timer_state =
  now :: nat
  armed :: "nat option"
  ticks :: nat
  fired :: "nat list"

text \<open>\<open>alarm(n)\<close>, and \<open>arm(n)\<close> of \<open>timer.c\<close>: 0 disarms.\<close>

definition arm :: "nat \<Rightarrow> timer_state \<Rightarrow> timer_state" where
  "arm n s = s\<lparr>armed := (if n = 0 then None else Some (now s + n))\<rparr>"

definition on_alarm :: "timer_state \<Rightarrow> timer_state" where
  "on_alarm s = (let s = s\<lparr>ticks := ticks s + 1, fired := fired s @ [now s]\<rparr> in if ticks s < 6 then arm 2 s else s)"

definition on_tick :: "timer_state \<Rightarrow> timer_state" where
  "on_tick s =
     (let s = s\<lparr>ticks := ticks s + 1, fired := fired s @ [now s]\<rparr>
      in if ticks s < 6 then arm (if ticks s < 3 then 6 else 2) s else s)"

text \<open>\<open>pause\<close>: the expiration comes and the handler runs; None when no timer is armed.\<close>

definition pause :: "(timer_state \<Rightarrow> timer_state) \<Rightarrow> timer_state \<Rightarrow> timer_state option" where
  "pause handler s = (case armed s of None \<Rightarrow> None | Some t \<Rightarrow> Some (handler (s\<lparr>now := t, armed := None\<rparr>)))"

text \<open>\<open>while (ticks < 6) pause();\<close> may wait for ever in principle.\<close>

partial_function (option) wait_ticks :: "(timer_state \<Rightarrow> timer_state) \<Rightarrow> timer_state \<Rightarrow> timer_state option" where
  "wait_ticks handler s =
     (if ticks s < 6 then Option.bind (pause handler s) (wait_ticks handler) else Some s)"

definition timer_start :: timer_state where
  "timer_start = \<lparr>now = 0, armed = None, ticks = 0, fired = []\<rparr>"

definition alarm_main :: "timer_state option" where
  "alarm_main = map_option (arm 0) (wait_ticks on_alarm (arm 6 timer_start))"

definition timer_main :: "timer_state option" where
  "timer_main = map_option (arm 0) (wait_ticks on_tick (arm 6 timer_start))"

text \<open>What both announce: three ticks 6 seconds apart, then three 2 seconds apart.\<close>

definition announced :: "nat list" where
  "announced = [6, 12, 18, 20, 22, 24]"

lemmas timer_defs = pause_def on_alarm_def on_tick_def arm_def timer_start_def Let_def

lemma alarm_main_eq: "alarm_main = Some \<lparr>now = 16, armed = None, ticks = 6, fired = [6, 8, 10, 12, 14, 16]\<rparr>"
  unfolding alarm_main_def
  by (simp add: wait_ticks.simps timer_defs)

lemma timer_main_eq: "timer_main = Some \<lparr>now = 24, armed = None, ticks = 6, fired = announced\<rparr>"
  unfolding timer_main_def announced_def
  by (simp add: wait_ticks.simps timer_defs)

text \<open>Both programs return with the timer stopped after six ticks; \<open>timer.c\<close> keeps the schedule its
  header announces (6 seconds three times, then 2 seconds three times), while \<open>alarm.c\<close>, which announces the
  same, is at 2 seconds from the second tick on and ends after 16 seconds.\<close>

theorem timer_schedules:
  "(\<exists>s. timer_main = Some s \<and> fired s = announced \<and> armed s = None)
   \<and> (\<exists>s. alarm_main = Some s \<and> fired s = [6, 8, 10, 12, 14, 16] \<and> fired s \<noteq> announced \<and> armed s = None)"
  by (simp add: timer_main_eq alarm_main_eq announced_def)

subsection \<open>A timer descriptor\<close>

text \<open>
  After \<open>set_timer(tfd, initial, period)\<close> with a positive \<open>initial\<close>, at moment 0, the timer has expired
  \<open>expired\<close> times at moment \<open>t\<close>. A \<open>read\<close> blocks until it has expired since the last read and returns how
  often.
\<close>

record timerfd =
  initial_sec :: nat
  period_sec :: nat
  read_so_far :: nat

definition set_timer :: "nat \<Rightarrow> nat \<Rightarrow> timerfd" where
  "set_timer initial period = \<lparr>initial_sec = initial, period_sec = period, read_so_far = 0\<rparr>"

definition expired :: "timerfd \<Rightarrow> nat \<Rightarrow> nat" where
  "expired f t =
     (if initial_sec f = 0 \<or> t < initial_sec f then 0
      else if period_sec f = 0 then 1 else (t - initial_sec f) div period_sec f + 1)"

text \<open>A read that starts at \<open>t\<close>: when it returns, what it returns, and the descriptor; None if it never does.\<close>

definition read_timer :: "nat \<Rightarrow> timerfd \<Rightarrow> (nat \<times> nat \<times> timerfd) option" where
  "read_timer t f =
     (if read_so_far f < expired f t then Some (t, expired f t - read_so_far f, f\<lparr>read_so_far := expired f t\<rparr>)
      else if initial_sec f = 0 \<or> period_sec f = 0 \<and> 0 < read_so_far f then None
      else Some (initial_sec f + read_so_far f * period_sec f, 1, f\<lparr>read_so_far := read_so_far f + 1\<rparr>))"

text \<open>
  The loop of three reads, each made \<open>delay\<close> seconds after the one before returned: the value of
  \<open>expirations\<close> in each turn, and the moment of the last.
\<close>

fun read_loop :: "nat list \<Rightarrow> nat \<Rightarrow> timerfd \<Rightarrow> (nat list \<times> nat \<times> timerfd) option" where
  "read_loop [] t f = Some ([], t, f)"
| "read_loop (delay # delays) t f =
     (case read_timer (t + delay) f of
        None \<Rightarrow> None
      | Some (t', n, f') \<Rightarrow> map_option (\<lambda>(ns, r). (n # ns, r)) (read_loop delays t' f'))"

lemma expired_mono: "t \<le> t' \<Longrightarrow> expired f t \<le> expired f t'"
  by (auto simp: expired_def div_le_mono)

lemma expired_cong [simp]: "expired (f\<lparr>read_so_far := n\<rparr>) t = expired f t"
  by (simp add: expired_def)

text \<open>The moment of the \<open>k\<close>-th expiration.\<close>

lemma expired_at: "0 < initial_sec f \<Longrightarrow> 0 < period_sec f \<Longrightarrow> expired f (initial_sec f + k * period_sec f) = k + 1"
  by (simp add: expired_def)

lemma before_expiry:
  assumes "0 < initial_sec f" "0 < period_sec f" "expired f t \<le> k"
  shows "t < initial_sec f + k * period_sec f"
proof (rule ccontr)
  assume "\<not> ?thesis"
  then have "expired f (initial_sec f + k * period_sec f) \<le> expired f t" by (intro expired_mono) simp
  with assms expired_at [OF assms(1,2), of k] show False by simp
qed

definition periodic :: "timerfd \<Rightarrow> nat \<Rightarrow> bool" where
  "periodic f t \<longleftrightarrow> 0 < initial_sec f \<and> 0 < period_sec f \<and> read_so_far f = expired f t"

lemma read_timer_ok:
  assumes f: "periodic f t" and d: "t \<le> u"
  shows "\<exists>t' n f'. read_timer u f = Some (t', n, f') \<and> periodic f' t' \<and> u \<le> t' \<and> 0 < n
    \<and> expired f' = expired f \<and> n + expired f t = expired f t'"
proof (cases "read_so_far f < expired f u")
  case True
  then show ?thesis using f by (auto simp: read_timer_def periodic_def fun_eq_iff)
next
  case False
  let ?t = "initial_sec f + read_so_far f * period_sec f"
  from f False have "u < ?t" by (intro before_expiry) (auto simp: periodic_def)
  then show ?thesis using False f expired_at [of f "read_so_far f"]
    by (auto simp: read_timer_def periodic_def fun_eq_iff)
qed

lemma read_loop_ok:
  "periodic f t \<Longrightarrow> \<exists>ns t' f'. read_loop delays t f = Some (ns, t', f') \<and> t \<le> t' \<and> list_all (\<lambda>n. 0 < n) ns
     \<and> sum_list ns + expired f t = expired f t'"
proof (induction delays arbitrary: t f)
  case (Cons d delays)
  from read_timer_ok [OF Cons.prems, of "t + d"] obtain t1 n f1 where r: "read_timer (t + d) f = Some (t1, n, f1)"
    "periodic f1 t1" "t + d \<le> t1" "0 < n" "expired f1 = expired f" "n + expired f t = expired f t1" by auto
  from Cons.IH [OF r(2)] obtain ns t2 f2 where "read_loop delays t1 f1 = Some (ns, t2, f2)" "t1 \<le> t2"
    "list_all (\<lambda>n. 0 < n) ns" "sum_list ns + expired f1 t1 = expired f1 t2" by auto
  with r show ?case by auto
qed simp



text \<open>The program's two runs of three prompt reads, and the stopped timer, which is never read again.\<close>

lemma prompt_reads:
  "map_option fst (read_loop [0, 0, 0] 0 (set_timer 5 5)) = Some [1, 1, 1]"
  "map_option (fst \<circ> snd) (read_loop [0, 0, 0] 0 (set_timer 5 5)) = Some 15"
  "map_option (fst \<circ> snd) (read_loop [0, 0, 0] 0 (set_timer 2 2)) = Some 6"
  "read_timer t (set_timer 0 0) = None"
  by (simp_all add: read_timer_def expired_def set_timer_def)

subsection \<open>The program \<open>timerfd.c\<close>\<close>

text \<open>
  What it prints: \<open>d1\<close> and \<open>d2\<close> are the delays before the three reads of each period. Arming the timer
  again starts its count and its clock anew.
\<close>

definition tick_lines :: "string \<Rightarrow> nat list \<Rightarrow> string list" where
  "tick_lines period ns =
     map (\<lambda>(i, expirations). ''Tick '' @ dec_nat i @ '' ('' @ period @ '' period), missed ticks = '' @ dec_nat (expirations - 1))
       (zip [1..<4] ns)"

definition timerfd_main :: "nat list \<Rightarrow> nat list \<Rightarrow> (string list \<times> timerfd) option" where
  "timerfd_main d1 d2 =
     (case read_loop d1 0 (set_timer 5 5) of
        None \<Rightarrow> None
      | Some (ns, _, _) \<Rightarrow>
          (case read_loop d2 0 (set_timer 2 2) of
             None \<Rightarrow> None
           | Some (ms, _, _) \<Rightarrow>
               Some (''Starting periodic timer: every 5s'' # tick_lines ''5s'' ns
                     @ [''Changing period to 2s''] @ tick_lines ''2s'' ms
                     @ [''Stopping timer'', ''Timer stopped. No more ticks will be delivered.''],
                     set_timer 0 0)))"

text \<open>It always returns, with the timer disarmed, however slow it is between the reads.\<close>

lemma timerfd_main_returns: "\<exists>out. timerfd_main d1 d2 = Some (out, set_timer 0 0)"
proof -
  have p: "periodic (set_timer p p) 0" if "0 < p" for p
    using that by (simp add: periodic_def set_timer_def expired_def)
  from read_loop_ok [OF p [of 5], of d1] read_loop_ok [OF p [of 2], of d2] show ?thesis
    by (auto simp: timerfd_main_def)
qed

end
