(* ===== verification/Ipc_Labs.thy ===== *)
theory Ipc_Labs
  imports Prelude
begin

text \<open>
  What the reading program of each pair under \<open>process/ipc\<close> prints: the message queue (\<open>lab14_queue1.c\<close>,
  \<open>lab14_queue2.c\<close>), shared memory (\<open>lab15_shm1.c\<close>, \<open>lab15_shm2.c\<close>), the Unix socket (\<open>lab17_socket1.c\<close>,
  \<open>lab17_socket2.c\<close>) and the pipe (\<open>pipe_dup.c\<close>). Memory is a list of bytes; a store outside an array is
  None.
\<close>

definition store :: "nat \<Rightarrow> char \<Rightarrow> char list \<Rightarrow> char list option" where
  "store i c buf = (if i < length buf then Some (buf[i := c]) else None)"

text \<open>A copy of \<open>bytes\<close> to the front of \<open>buf\<close>, which must have room.\<close>

definition store_bytes :: "char list \<Rightarrow> char list \<Rightarrow> char list option" where
  "store_bytes bytes buf = (if length bytes \<le> length buf then Some (bytes @ drop (length bytes) buf) else None)"

lemma store_bytes_length: "store_bytes bytes buf = Some buf' \<Longrightarrow> length buf' = length buf"
  by (auto simp: store_bytes_def split: if_splits)

subsection \<open>The message queue\<close>

definition MAX_SIZE :: nat where "MAX_SIZE = 1024"

definition greeting :: string where "greeting = ''Hello from writer!''"

text \<open>One turn of the writer's loop: the first byte is overwritten, then the string is sent with its NUL.\<close>

definition queue1_turn :: "char list \<times> char list list \<Rightarrow> (char list \<times> char list list) option" where
  "queue1_turn = (\<lambda>(buffer, mq).
     map_option (\<lambda>buffer. (buffer, mq @ [cstr buffer @ [NUL]])) (store 0 NUL buffer))"

fun queue1_loop :: "nat \<Rightarrow> char list \<times> char list list \<Rightarrow> (char list \<times> char list list) option" where
  "queue1_loop 0 s = Some s"
| "queue1_loop (Suc n) s = Option.bind (queue1_turn s) (queue1_loop n)"

text \<open>The writer, from an uninitialised buffer and an empty queue: the messages it sends.\<close>

definition queue1_main :: "char list \<Rightarrow> char list list option" where
  "queue1_main junk =
     Option.bind (store_bytes (snprintf_s MAX_SIZE greeting @ [NUL]) junk) (\<lambda>buffer.
       map_option snd (queue1_loop 4 (buffer, [])))"

text \<open>The reader: the oldest message, at most \<open>MAX_SIZE\<close> bytes, into \<open>MAX_SIZE + 1\<close> bytes; what it prints.\<close>

definition queue2_main :: "char list \<Rightarrow> char list list \<Rightarrow> string option" where
  "queue2_main junk mq =
     (case mq of
        [] \<Rightarrow> None
      | m # _ \<Rightarrow>
          Option.bind (store_bytes m junk) (\<lambda>buffer.
            map_option (\<lambda>buffer. ''Received message: '' @ cstr buffer) (store (length m) NUL buffer)))"

lemma queue1_loop_zeroed: "buffer \<noteq> [] \<Longrightarrow> \<exists>b. queue1_loop n (buffer, mq) = Some (b, mq @ replicate n [NUL])"
proof (induction n arbitrary: buffer mq)
  case (Suc n)
  then obtain c cs where b: "buffer = c # cs" by (cases buffer) auto
  then have "queue1_turn (buffer, mq) = Some (NUL # cs, mq @ [[NUL]])"
    by (simp add: queue1_turn_def store_def cstr_def)
  with Suc.IH [of "NUL # cs" "mq @ [[NUL]]"] show ?case by simp
qed simp

text \<open>The store of a NUL to the first byte, made to warm the cache, empties the message: the writer of
  \<open>lab14\<close> sends four times the empty string and the reader prints no greeting.\<close>

theorem queue_message_is_empty:
  assumes "length junk = MAX_SIZE" "length junk' = MAX_SIZE + 1"
  shows "queue1_main junk = Some [[NUL], [NUL], [NUL], [NUL]]
     \<and> queue2_main junk' [[NUL], [NUL], [NUL], [NUL]] = Some ''Received message: ''"
proof -
  let ?m = "snprintf_s MAX_SIZE greeting @ [NUL]"
  have m: "length ?m \<le> MAX_SIZE" "?m @ drop (length ?m) junk \<noteq> []"
    by (simp_all add: snprintf_s_def MAX_SIZE_def greeting_def)
  from queue1_loop_zeroed [OF m(2), of 4 "[]"] obtain b
    where "queue1_loop 4 (?m @ drop (length ?m) junk, []) = Some (b, replicate 4 [NUL])" by auto
  then have "queue1_main junk = Some (replicate 4 [NUL])"
    using m(1) assms(1) by (simp only: queue1_main_def store_bytes_def) simp
  moreover obtain c d cs where "junk' = c # d # cs"
    using assms(2) by (cases junk'; cases "tl junk'") (auto simp: MAX_SIZE_def)
  then have "queue2_main junk' [[NUL], [NUL], [NUL], [NUL]] = Some ''Received message: ''"
    by (simp add: queue2_main_def store_bytes_def store_def cstr_def)
  ultimately show ?thesis by (simp add: numeral_eq_Suc)
qed

theorem queue_message_is_empty_witness:
  "queue1_main (replicate MAX_SIZE NUL) = Some [[NUL], [NUL], [NUL], [NUL]]
     \<and> queue2_main (replicate (MAX_SIZE + 1) NUL) [[NUL], [NUL], [NUL], [NUL]] = Some ''Received message: ''"
  by (rule queue_message_is_empty) simp_all

subsection \<open>Shared memory\<close>

definition SHM_SIZE :: nat where "SHM_SIZE = 1024"

definition shm1_main :: "char list \<Rightarrow> char list option" where
  "shm1_main shm = store_bytes (greeting @ [NUL]) shm"

definition shm2_main :: "char list \<Rightarrow> string" where
  "shm2_main shm = ''Reader read: '' @ cstr shm"

lemma shm_message: "map_option shm2_main (shm1_main (replicate SHM_SIZE NUL)) = Some (''Reader read: '' @ greeting)"
  by (simp add: shm1_main_def shm2_main_def store_bytes_def SHM_SIZE_def greeting_def cstr_def)

subsection \<open>The Unix socket\<close>

definition BUFFER_SIZE :: nat where "BUFFER_SIZE = 128"

text \<open>
  The server reads what has arrived, at most the whole buffer, then stores a NUL behind it. The outer None
  is the store outside the buffer; the inner one is a read that returned nothing.
\<close>

definition socket1_main :: "char list \<Rightarrow> char list \<Rightarrow> string option option" where
  "socket1_main junk stream =
     (let bytes = length (take BUFFER_SIZE stream) in
      Option.bind (store_bytes (take BUFFER_SIZE stream) junk) (\<lambda>buffer.
        if 0 < bytes then map_option (\<lambda>buffer. Some (''Server received: '' @ cstr buffer)) (store bytes NUL buffer)
        else Some None))"

definition socket2_main :: "char list" where
  "socket2_main = ''Hello from client!''"

text \<open>The server of \<open>lab17\<close> writes one byte past its buffer exactly when 128 or more bytes have arrived;
  otherwise it prints what has arrived up to its first NUL. Its own client is within the limit.\<close>

theorem socket_server_overflow:
  assumes "length junk = BUFFER_SIZE"
  shows "socket1_main junk stream =
      (if BUFFER_SIZE \<le> length stream then None
       else if stream = [] then Some None else Some (Some (''Server received: '' @ cstr stream)))
    \<and> length socket2_main < BUFFER_SIZE"
proof (cases "BUFFER_SIZE \<le> length stream")
  case True
  then show ?thesis using assms
    by (simp add: socket1_main_def socket2_main_def store_bytes_def store_def Let_def BUFFER_SIZE_def)
next
  case False
  then obtain c cs where d: "drop (length stream) junk = c # cs"
    using assms by (cases "drop (length stream) junk") auto
  then have "(stream @ drop (length stream) junk)[length stream := NUL] = stream @ NUL # cs"
    by (simp add: list_update_append)
  moreover have "cstr (stream @ NUL # cs) = cstr stream" by (simp add: cstr_def takeWhile_tail)
  ultimately show ?thesis using assms False
    by (simp add: socket1_main_def socket2_main_def store_bytes_def store_def Let_def BUFFER_SIZE_def)
qed

theorem socket_server_overflow_witness:
  "socket1_main (replicate BUFFER_SIZE NUL) (replicate 128 CHR ''x'') =
      (if BUFFER_SIZE \<le> length (replicate 128 CHR ''x'') then None
       else if replicate 128 CHR ''x'' = [] then Some None
       else Some (Some (''Server received: '' @ cstr (replicate 128 CHR ''x''))))
    \<and> length socket2_main < BUFFER_SIZE"
  by (rule socket_server_overflow) simp

subsection \<open>The pipe\<close>

text \<open>
  \<open>scanf("%255s", buf)\<close>: leading white space is skipped and up to 255 bytes of a word are stored with a
  NUL; the result is the number of conversions, 1, or EOF (None).
\<close>

definition scanf_word :: "char list \<Rightarrow> (string \<times> char list) option" where
  "scanf_word input =
     (let rest = dropWhile white input in
      if rest = [] then None
      else let w = take 255 (takeWhile (\<lambda>c. \<not> white c) rest) in Some (w, drop (length w) rest))"

lemma scanf_word_split:
  assumes "scanf_word input = Some (w, rest)"
  shows "\<exists>pre. input = pre @ w @ rest \<and> w \<noteq> [] \<and> length w \<le> 255"
proof -
  let ?r = "dropWhile white input"
  have r: "?r \<noteq> []" "w = take 255 (takeWhile (\<lambda>c. \<not> white c) ?r)" "rest = drop (length w) ?r"
    using assms by (auto simp: scanf_word_def Let_def split: if_splits)
  then have "\<not> white (hd ?r)" using hd_dropWhile by blast
  with r have "w \<noteq> []" by (cases ?r) auto
  have "w = take (length w) ?r"
    unfolding r(2) by (subst takeWhile_eq_take) (simp add: min_def)
  then have "?r = w @ rest" using r(3) by (metis append_take_drop_id)
  then have "input = takeWhile white input @ w @ rest" by (metis takeWhile_dropWhile_id)
  with \<open>w \<noteq> []\<close> r(2) show ?thesis by (intro exI [of _ "takeWhile white input"]) simp
qed

lemma scanf_word_shorter: "scanf_word input = Some (w, rest) \<Longrightarrow> length rest < length input"
  by (drule scanf_word_split) auto

text \<open>The parent's loop: \<open>buf[n] = 0\<close> with the result \<open>n\<close> of \<open>scanf\<close>, then the line.\<close>

function pipe_parent :: "char list \<Rightarrow> char list \<Rightarrow> string option" where
  "pipe_parent buf input =
     (case scanf_word input of
        None \<Rightarrow> Some ''''
      | Some (w, rest) \<Rightarrow>
          Option.bind (store_bytes (w @ [NUL]) buf) (\<lambda>buf.
            Option.bind (store 1 NUL buf) (\<lambda>buf.
              map_option (\<lambda>out. ''Parent received: '' @ cstr buf @ out) (pipe_parent buf rest))))"
  by pat_completeness auto
termination
  by (relation "measure (length \<circ> snd)") (auto dest: scanf_word_shorter)

declare pipe_parent.simps [simp del]

definition pipe_child :: "char list" where
  "pipe_child = ''Hello from child via stdout'' @ [CHR 0x0A]"

text \<open>The words that the loop reads, and the first characters it shows of them.\<close>

function words :: "char list \<Rightarrow> string list" where
  "words input = (case scanf_word input of None \<Rightarrow> [] | Some (w, rest) \<Rightarrow> w # words rest)"
  by pat_completeness auto
termination
  by (relation "measure length") (auto dest: scanf_word_shorter)

declare words.simps [simp del]

text \<open>The parent of \<open>pipe_dup.c\<close> takes the result of \<open>scanf\<close>, always 1, for the length of the word: of every
  word of its input it prints the first character only. Nothing is stored outside \<open>buf\<close>.\<close>

theorem pipe_shows_first_characters:
  assumes "length buf = 256" "NUL \<notin> set input"
  shows "pipe_parent buf input = Some (concat (map (\<lambda>w. ''Parent received: '' @ [hd w]) (words input)))"
  using assms
proof (induction buf input rule: pipe_parent.induct)
  case (1 buf input)
  show ?case
  proof (cases "scanf_word input")
    case None
    then show ?thesis by (subst pipe_parent.simps, subst words.simps) simp
  next
    case (Some p)
    obtain w rest where s: "scanf_word input = Some (w, rest)" using Some by (cases p) auto
    from scanf_word_split [OF s] obtain pre where k: "input = pre @ w @ rest" "w \<noteq> []" "length w \<le> 255" by blast
    then obtain c cs where w: "w = c # cs" by (cases w) auto
    then have sub: "set (c # cs) \<subseteq> set input" "set rest \<subseteq> set input" using k(1) by auto
    obtain buf1 where b1: "store_bytes (w @ [NUL]) buf = Some buf1" "buf1 = w @ NUL # drop (Suc (length w)) buf"
      using k "1.prems" by (auto simp: store_bytes_def)
    then have l: "length buf1 = 256" using "1.prems" store_bytes_length by fastforce
    define buf2 where "buf2 = buf1[1 := NUL]"
    have b2: "store 1 NUL buf1 = Some buf2" "length buf2 = 256" using l by (simp_all add: store_def buf2_def)
    obtain x xs where x: "buf1 = c # x # xs" using b1(2) w l by (cases cs) auto
    have "cstr buf2 = [c]" using sub(1) "1.prems"(2) by (auto simp: buf2_def x cstr_def)
    moreover have "pipe_parent buf2 rest = Some (concat (map (\<lambda>w. ''Parent received: '' @ [hd w]) (words rest)))"
      using "1.IH" [OF s refl b1(1) b2(1) b2(2)] sub(2) "1.prems"(2) by blast
    ultimately show ?thesis
      using s b1(1) b2(1) w by (subst pipe_parent.simps, subst words.simps) simp
  qed
qed

theorem pipe_shows_first_characters_witness:
  "pipe_parent (replicate 256 NUL) pipe_child = Some (concat (map (\<lambda>w. ''Parent received: '' @ [hd w]) (words pipe_child)))"
  by (rule pipe_shows_first_characters) (simp_all add: pipe_child_def)

end
