(* ===== verification/Process_Labs.thy ===== *)
theory Process_Labs
  imports Prelude
begin

text \<open>
  Programs about one process: buffered output and the two exits (\<open>process/lab4_exit.c\<close>), command-line
  options (\<open>process/getops.c\<close>), a handler that resets itself (\<open>process/lab11_sigint.c\<close>) and the daemon of
  \<open>seance_4/daemon.c\<close>.
\<close>

subsection \<open>Standard output and exit (\<open>lab4\<close>)\<close>

text \<open>
  Standard output is line buffered on a terminal and fully buffered otherwise (the buffer, 4096 bytes or
  more, does not fill here). \<open>written\<close> is what has left the process.
\<close>

record stdout =
  on_terminal :: bool
  pending :: string
  written :: string

definition newline :: char where "newline = CHR 0x0A"

definition flush :: "stdout \<Rightarrow> stdout" where
  "flush s = s\<lparr>written := written s @ pending s, pending := []\<rparr>"

definition printf :: "string \<Rightarrow> stdout \<Rightarrow> stdout" where
  "printf t s =
     (let p = pending s @ t;
          k = length p - length (takeWhile (\<lambda>c. c \<noteq> newline) (rev p))
      in if on_terminal s then s\<lparr>written := written s @ take k p, pending := drop k p\<rparr> else s\<lparr>pending := p\<rparr>)"

text \<open>\<open>exit\<close> runs the registered callbacks and flushes; \<open>_exit\<close> does neither.\<close>

definition exit :: "(stdout \<Rightarrow> stdout) \<Rightarrow> stdout \<Rightarrow> string" where
  "exit callback s = written (flush (callback s))"

definition exit_now :: "stdout \<Rightarrow> string" where
  "exit_now s = written s"

definition out :: "stdout \<Rightarrow> stdout" where
  "out = printf (''atexit succeeded ! '' @ [newline])"

definition will_print :: string where "will_print = ''Will print '' @ [newline]"
definition will_not_print :: string where "will_not_print = ''Will not     print''"

definition lab4_prints :: "stdout \<Rightarrow> stdout" where
  "lab4_prints s =
     printf will_not_print (printf will_not_print (printf will_not_print
       (printf (will_not_print @ [newline]) (printf (will_not_print @ [newline]) (printf will_print s)))))"

definition lab4_main :: "bool \<Rightarrow> string" where
  "lab4_main terminal = exit_now (lab4_prints \<lparr>on_terminal = terminal, pending = [], written = []\<rparr>)"

definition lab4_with_exit :: "bool \<Rightarrow> string" where
  "lab4_with_exit terminal = exit out (lab4_prints \<lparr>on_terminal = terminal, pending = [], written = []\<rparr>)"

text \<open>With \<open>_exit\<close> the program loses exactly what standard output still holds back: on a terminal the three
  parts without a newline are lost, but the two lines that say they will not be printed are printed, and
  into a pipe or file nothing is printed at all. With \<open>exit\<close> everything comes out, and the callback's line
  after it.\<close>

theorem lab4_output:
  "lab4_main True = will_print @ will_not_print @ [newline] @ will_not_print @ [newline]
   \<and> lab4_main False = []
   \<and> lab4_with_exit terminal = will_print @ will_not_print @ [newline] @ will_not_print @ [newline]
       @ will_not_print @ will_not_print @ will_not_print @ ''atexit succeeded ! '' @ [newline]"
proof -
  have "lab4_with_exit b = will_print @ will_not_print @ [newline] @ will_not_print @ [newline]
      @ will_not_print @ will_not_print @ will_not_print @ ''atexit succeeded ! '' @ [newline]" for b
  proof (cases b)
    case True
    show ?thesis unfolding eq_True [THEN iffD2, OF True] by code_simp
  next
    case False
    show ?thesis unfolding eq_False [THEN iffD2, OF False] by code_simp
  qed
  moreover have "lab4_main True = will_print @ will_not_print @ [newline] @ will_not_print @ [newline]" by code_simp
  moreover have "lab4_main False = []" by code_simp
  ultimately show ?thesis by simp
qed

subsection \<open>Options (\<open>getops\<close>)\<close>

text \<open>
  What successive calls of \<open>getopt(argc, argv, ":vo:n:h")\<close> return, and the arguments left behind \<open>optind\<close> at
  the end. GNU \<open>getopt\<close> takes options from everywhere and moves the other arguments to the end.
\<close>

datatype opt = Opt_v | Opt_o string | Opt_n string | Opt_h | Missing char | Unknown char

text \<open>One argument after its dash, with the arguments that follow it.\<close>

fun cluster :: "string \<Rightarrow> string list \<Rightarrow> opt list \<times> string list" where
  "cluster [] args = ([], args)"
| "cluster (c # cs) args =
     (if c = CHR ''v'' then apfst (Cons Opt_v) (cluster cs args)
      else if c = CHR ''h'' then apfst (Cons Opt_h) (cluster cs args)
      else if c = CHR ''o'' \<or> c = CHR ''n'' then
        (let mk = (if c = CHR ''o'' then Opt_o else Opt_n) in
         if cs \<noteq> [] then ([mk cs], args)
         else case args of [] \<Rightarrow> ([Missing c], []) | a # args' \<Rightarrow> ([mk a], args'))
      else apfst (Cons (Unknown c)) (cluster cs args))"

lemma cluster_length: "length (snd (cluster cs args)) \<le> length args"
  by (induction cs arbitrary: args) (auto simp: Let_def split: list.split)

lemma cluster_shorter: "cluster cs args = (os, rest) \<Longrightarrow> length rest < Suc (length args)"
  using cluster_length [of cs args] by (simp add: less_Suc_eq_le)

function getopt :: "string list \<Rightarrow> opt list \<times> string list" where
  "getopt [] = ([], [])"
| "getopt (a # args) =
     (if a = ''--'' then ([], args)
      else if 2 \<le> length a \<and> hd a = CHR ''-'' then
        (case cluster (tl a) args of (os, rest) \<Rightarrow> apfst (append os) (getopt rest))
      else apsnd (Cons a) (getopt args))"
  by pat_completeness auto
termination
  by (relation "measure length") (auto dest: cluster_shorter cluster_shorter [OF sym])

datatype outcome =
    Usage_Success | Missing_Argument char | Unknown_Option char | Name_Required
  | Run bool "string option" string "string list"

record options =
  verbose_flag :: bool
  output_file :: "string option"
  opt_name :: "string option"

fun option_loop :: "opt list \<Rightarrow> options \<Rightarrow> outcome + options" where
  "option_loop [] s = Inr s"
| "option_loop (Opt_v # os) s = option_loop os (s\<lparr>verbose_flag := True\<rparr>)"
| "option_loop (Opt_o f # os) s = option_loop os (s\<lparr>output_file := Some f\<rparr>)"
| "option_loop (Opt_n n # os) s = option_loop os (s\<lparr>opt_name := Some n\<rparr>)"
| "option_loop (Opt_h # os) s = Inl Usage_Success"
| "option_loop (Missing c # os) s = Inl (Missing_Argument c)"
| "option_loop (Unknown c # os) s = Inl (Unknown_Option c)"

definition getops_main :: "string list \<Rightarrow> outcome" where
  "getops_main args =
     (case getopt args of (os, rest) \<Rightarrow>
        (case option_loop os \<lparr>verbose_flag = False, output_file = None, opt_name = None\<rparr> of
           Inl r \<Rightarrow> r
         | Inr s \<Rightarrow> (case opt_name s of None \<Rightarrow> Name_Required | Some n \<Rightarrow> Run (verbose_flag s) (output_file s) n rest)))"

text \<open>A command line for given settings.\<close>

definition command_line :: "bool \<Rightarrow> string option \<Rightarrow> string \<Rightarrow> string list \<Rightarrow> string list" where
  "command_line verbose file_name nm rest =
     (if verbose then [''-v''] else []) @ (case file_name of None \<Rightarrow> [] | Some f \<Rightarrow> [''-o'', f]) @ [''-n'', nm, ''--''] @ rest"

text \<open>Every combination of settings can be given: the program runs with exactly the settings its command
  line spells, whatever the file name, the name and the remaining arguments are, dashes included; without
  \<open>-n\<close> it ends with the error message.\<close>

theorem getops_reads_command_line:
  "getops_main (command_line verbose file_name nm rest) = Run verbose file_name nm rest
   \<and> getops_main (''--'' # rest) = Name_Required"
  by (cases verbose; cases file_name) (simp_all add: getops_main_def command_line_def Let_def)

subsection \<open>A handler that resets itself (\<open>lab11\<close>)\<close>

text \<open>Whether the process is still running after some \<open>SIGINT\<close>s; the flag is that the handler is installed.\<close>

fun sigint_runs :: "nat \<Rightarrow> bool \<Rightarrow> bool" where
  "sigint_runs 0 installed = True"
| "sigint_runs (Suc n) installed = (if installed then sigint_runs n False else False)"

lemma second_sigint_kills: "sigint_runs n True \<longleftrightarrow> n \<le> 1"
  by (cases n; cases "n - 1") auto

subsection \<open>The daemon\<close>

text \<open>
  The process that goes on after each call: the parent of a \<open>fork\<close> exits. A session and a process group
  have the id of their leader. \<open>fds\<close> is the descriptor table, of \<open>sysconf(_SC_OPEN_MAX)\<close> entries.
\<close>

record proc =
  pid :: nat
  pgid :: nat
  sid :: nat
  has_terminal :: bool
  sighup_ignored :: bool
  cwd :: string
  file_mask :: nat
  fds :: "string option list"

text \<open>What the system calls of \<open>daemonize\<close> answer: the pids of the two children, -1 for a failure.\<close>

definition fork_child :: "int \<Rightarrow> proc \<Rightarrow> proc option" where
  "fork_child child p = (if child < 0 then None else Some (p\<lparr>pid := nat child\<rparr>))"

definition setsid :: "proc \<Rightarrow> proc option" where
  "setsid p = (if pid p = pgid p then None else Some (p\<lparr>pgid := pid p, sid := pid p, has_terminal := False\<rparr>))"

text \<open>\<open>open\<close> and \<open>dup\<close> take the lowest free descriptor.\<close>

fun lowest_free :: "'a option list \<Rightarrow> nat option" where
  "lowest_free [] = None"
| "lowest_free (None # xs) = Some 0"
| "lowest_free (Some x # xs) = map_option Suc (lowest_free xs)"

definition open_file :: "string \<Rightarrow> proc \<Rightarrow> int \<times> proc" where
  "open_file file0 p =
     (case lowest_free (fds p) of None \<Rightarrow> (- 1, p) | Some i \<Rightarrow> (int i, p\<lparr>fds := (fds p)[i := Some file0]\<rparr>))"

definition dup :: "int \<Rightarrow> proc \<Rightarrow> int \<times> proc" where
  "dup d p =
     (if 0 \<le> d \<and> nat d < length (fds p) then
        (case fds p ! nat d of
           None \<Rightarrow> (- 1, p)
         | Some file0 \<Rightarrow>
             (case lowest_free (fds p) of None \<Rightarrow> (- 1, p) | Some i \<Rightarrow> (int i, p\<lparr>fds := (fds p)[i := Some file0]\<rparr>)))
      else (- 1, p))"

definition close_fd :: "nat \<Rightarrow> proc \<Rightarrow> proc" where
  "close_fd d p = p\<lparr>fds := (fds p)[d := None]\<rparr>"

text \<open>None is \<open>exit(EXIT_FAILURE)\<close>; \<open>chdir_ok\<close> is whether \<open>chdir\<close> succeeds.\<close>

definition daemonize :: "int \<Rightarrow> int \<Rightarrow> bool \<Rightarrow> proc \<Rightarrow> proc option" where
  "daemonize child1 child2 chdir_ok p =
     Option.bind (fork_child child1 p) (\<lambda>p.
     Option.bind (setsid p) (\<lambda>p.
     let p = p\<lparr>sighup_ignored := True\<rparr> in
     Option.bind (fork_child child2 p) (\<lambda>p.
     if \<not> chdir_ok then None else
     let p = p\<lparr>cwd := ''/'', file_mask := 0\<rparr>;
         p = fold close_fd [0..<length (fds p)] p
     in case open_file ''/dev/null'' p of (d, p) \<Rightarrow>
          (case dup d p of (r, p) \<Rightarrow>
             if r = - 1 then None
             else (case dup d p of (r, p) \<Rightarrow> if r = - 1 then None else Some p)))))"

lemma close_all: "fold close_fd [0..<k] p = p\<lparr>fds := replicate (min k (length (fds p))) None @ drop k (fds p)\<rparr>"
proof (induction k)
  case (Suc k)
  have e: "(replicate (min k (length (fds p))) None @ drop k (fds p))[k := None]
      = replicate (min (Suc k) (length (fds p))) None @ drop (Suc k) (fds p)"
  proof (cases "k < length (fds p)")
    case True
    then have "drop k (fds p) = fds p ! k # drop (Suc k) (fds p)" by (simp add: Cons_nth_drop_Suc)
    with True show ?thesis by (simp add: list_update_append replicate_append_same min_def)
  qed (simp add: not_less list_update_beyond)
  have c: "close_fd k (p\<lparr>fds := xs\<rparr>) = p\<lparr>fds := xs[k := None]\<rparr>" for xs by (simp add: close_fd_def)
  have "fold close_fd [0..<Suc k] p = close_fd k (fold close_fd [0..<k] p)" by simp
  then show ?case unfolding Suc.IH c e .
qed simp

lemma null_fds:
  "3 \<le> n \<Longrightarrow> replicate n None = None # None # None # replicate (n - 3) None"
  by (cases n; cases "n - 1"; cases "n - 2") (auto simp: numeral_3_eq_3)

text \<open>C13: When \<open>daemonize\<close> returns, the process is the child of a child: it is in a session of its own without
  a terminal and is not the leader of the session, so it cannot acquire one; its directory is \<open>/\<close>, its mask
  0; descriptors 0, 1 and 2 are \<open>/dev/null\<close> and no other is open. It returns when both forks and
  \<open>chdir\<close> succeed and the process may have at least three descriptors.\<close>

theorem daemonize_detaches:
  assumes "0 < child1" "0 < child2" "child2 \<noteq> child1" "nat child1 \<noteq> pgid p" "3 \<le> length (fds p)"
  shows "\<exists>q. daemonize child1 child2 True p = Some q \<and> pid q = nat child2 \<and> sid q = nat child1 \<and> pid q \<noteq> sid q
    \<and> pid q \<noteq> pgid q \<and> \<not> has_terminal q \<and> sighup_ignored q \<and> cwd q = ''/'' \<and> file_mask q = 0
    \<and> fds q = [Some ''/dev/null'', Some ''/dev/null'', Some ''/dev/null''] @ replicate (length (fds p) - 3) None"
proof -
  have n: "nat child2 \<noteq> nat child1" using assms by auto
  have e: "replicate (length (fds p)) None = None # None # None # replicate (length (fds p) - 3) None"
    by (rule null_fds [OF assms(5)])
  show ?thesis
    using assms n
    by (simp add: daemonize_def fork_child_def setsid_def close_all Let_def open_file_def dup_def e)
qed

definition shell_child :: proc where
  "shell_child = \<lparr>pid = 100, pgid = 100, sid = 50, has_terminal = True, sighup_ignored = False, cwd = ''/root'', file_mask = 18,
     fds = [Some ''/dev/tty'', Some ''/dev/tty'', Some ''/dev/tty'', Some ''log'', None]\<rparr>"

theorem daemonize_detaches_witness:
  "\<exists>q. daemonize 101 102 True shell_child = Some q \<and> pid q = nat 102 \<and> sid q = nat 101 \<and> pid q \<noteq> sid q
    \<and> pid q \<noteq> pgid q \<and> \<not> has_terminal q \<and> sighup_ignored q \<and> cwd q = ''/'' \<and> file_mask q = 0
    \<and> fds q = [Some ''/dev/null'', Some ''/dev/null'', Some ''/dev/null''] @ replicate (length (fds shell_child) - 3) None"
  by (rule daemonize_detaches) (simp_all add: shell_child_def)

end
