(* ===== verification/Small_Labs.thy ===== *)
theory Small_Labs
  imports Bytes
begin

text \<open>
  Smaller programs with a computation of their own: the events of \<open>seance_4/inotify.c\<close>, the libraries of
  \<open>seance6/linking_demo\<close>, the blocks of \<open>seance6/leaklab/leaklab.c\<close> and the argument reader of
  \<open>seance_4/time1.c\<close>.
\<close>

subsection \<open>Reading inotify events\<close>

text \<open>
  The kernel packs whole events one behind the other: watch, mask, cookie and the length of the name, 4
  bytes each, little-endian, then the name padded to that length. Reading outside the bytes that were read
  is \<open>Overrun\<close>.
\<close>

definition EVENT_SIZE :: nat where "EVENT_SIZE = 16"

definition IN_MODIFY :: "32 word" where "IN_MODIFY = 0x2"
definition IN_CLOSE_WRITE :: "32 word" where "IN_CLOSE_WRITE = 0x8"
definition IN_DELETE_SELF :: "32 word" where "IN_DELETE_SELF = 0x400"
definition IN_MOVE_SELF :: "32 word" where "IN_MOVE_SELF = 0x800"
definition IN_IGNORED :: "32 word" where "IN_IGNORED = 0x8000"

datatype shown = Modified | Write_Finished | Deleted | Moved | Watch_Gone

record inotify_event =
  wd :: "32 word"
  mask0 :: "32 word"
  cookie :: "32 word"
  name :: "byte list"

definition packed :: "inotify_event \<Rightarrow> byte list" where
  "packed e = le_bytes 4 (wd e) @ le_bytes 4 (mask0 e) @ le_bytes 4 (cookie e)
     @ le_bytes 4 (word_of_nat (length (name e)) :: 32 word) @ name e"

text \<open>The lines for one event, in the order of the tests.\<close>

definition lines_of :: "32 word \<Rightarrow> shown list" where
  "lines_of m =
     (if m AND IN_MODIFY \<noteq> 0 then [Modified] else []) @ (if m AND IN_CLOSE_WRITE \<noteq> 0 then [Write_Finished] else [])
     @ (if m AND IN_DELETE_SELF \<noteq> 0 then [Deleted] else []) @ (if m AND IN_MOVE_SELF \<noteq> 0 then [Moved] else [])
     @ (if m AND IN_IGNORED \<noteq> 0 then [Watch_Gone] else [])"

datatype walk = Overrun | Next_Read "shown list" | Exit_0 "shown list"

fun prepend :: "shown list \<Rightarrow> walk \<Rightarrow> walk" where
  "prepend ls Overrun = Overrun"
| "prepend ls (Next_Read ms) = Next_Read (ls @ ms)"
| "prepend ls (Exit_0 ms) = Exit_0 (ls @ ms)"

text \<open>The loop over the events of one \<open>read\<close>, from \<open>ptr = buf + pos\<close> on.\<close>

function event_walk :: "byte list \<Rightarrow> nat \<Rightarrow> walk" where
  "event_walk buf pos =
     (if pos < length buf then
        if length buf < pos + EVENT_SIZE then Overrun
        else let m = of_le (take 4 (drop (pos + 4) buf)) :: 32 word; n = unat (of_le (take 4 (drop (pos + 12) buf)) :: 32 word) in
             if m AND IN_IGNORED \<noteq> 0 then Exit_0 (lines_of m)
             else prepend (lines_of m) (event_walk buf (pos + EVENT_SIZE + n))
      else Next_Read [])"
  by pat_completeness auto
termination
  by (relation "measure (\<lambda>(buf, pos). length buf - pos)") (auto simp: EVENT_SIZE_def)

declare event_walk.simps [simp del]

text \<open>What the events say, without the bytes.\<close>

fun shown_events :: "inotify_event list \<Rightarrow> walk" where
  "shown_events [] = Next_Read []"
| "shown_events (e # es) =
     (if mask0 e AND IN_IGNORED \<noteq> 0 then Exit_0 (lines_of (mask0 e)) else prepend (lines_of (mask0 e)) (shown_events es))"

lemma event_walk_packed:
  assumes "list_all (\<lambda>e. length (name e) < 2 ^ 32) es"
  shows "event_walk (pre @ concat (map packed es)) (length pre) = shown_events es"
  using assms
proof (induction es arbitrary: pre)
  case Nil
  then show ?case by (simp add: event_walk.simps)
next
  case (Cons e es)
  let ?rest = "concat (map packed es)"
  let ?buf = "pre @ packed e @ ?rest"
  have l: "length (packed e) = EVENT_SIZE + length (name e)" by (simp add: packed_def EVENT_SIZE_def)
  have m: "(of_le (take 4 (drop (length pre + 4) ?buf)) :: 32 word) = mask0 e"
    "(of_le (take 4 (drop (length pre + 12) ?buf)) :: 32 word) = word_of_nat (length (name e))"
    by (simp_all add: packed_def)
  have n: "unat (word_of_nat (length (name e)) :: 32 word) = length (name e)"
    using Cons.prems by (simp add: unat_of_nat take_bit_nat_eq_self)
  have r: "event_walk ?buf (length pre + EVENT_SIZE + length (name e)) = shown_events es"
    using Cons.IH [of "pre @ packed e"] Cons.prems l by (simp add: add.assoc)
  show ?case
    unfolding list.map concat.simps
    by (subst event_walk.simps) (simp only: m n r Let_def shown_events.simps, simp add: l EVENT_SIZE_def)
qed

text \<open>C12: The event loop of \<open>inotify.c\<close> steps exactly from event to event: over what the kernel packs it never
  reads outside the bytes read and shows the lines of the events in order, up to the first
  \<open>IN_IGNORED\<close>, where it exits.\<close>

theorem inotify_walk_shows_events:
  assumes "list_all (\<lambda>e. length (name e) < 2 ^ 32) es"
  shows "event_walk (concat (map packed es)) 0 = shown_events es \<and> shown_events es \<noteq> Overrun"
proof
  show "event_walk (concat (map packed es)) 0 = shown_events es" using event_walk_packed [OF assms, of "[]"] by simp
  show "shown_events es \<noteq> Overrun"
  proof (induction es)
    case (Cons e es)
    then show ?case by (cases "shown_events es") auto
  qed simp
qed

definition two_events :: "inotify_event list" where
  "two_events = [\<lparr>wd = 1, mask0 = 2, cookie = 0, name = []\<rparr>, \<lparr>wd = 1, mask0 = 0x8000, cookie = 0, name = []\<rparr>]"

theorem inotify_walk_shows_events_witness:
  "event_walk (concat (map packed two_events)) 0 = shown_events two_events \<and> shown_events two_events \<noteq> Overrun"
  by (rule inotify_walk_shows_events) (simp add: two_events_def)


subsection \<open>The libraries of the linking demo\<close>

definition LONG_MAX :: int where "LONG_MAX = 2 ^ 63 - 1"
definition LONG_MIN :: int where "LONG_MIN = - (2 ^ 63)"

text \<open>\<open>compute_factorial\<close>; None is the overflow of the signed \<open>result\<close>.\<close>

function factorial_loop :: "int \<Rightarrow> int \<Rightarrow> int \<Rightarrow> int option" where
  "factorial_loop i n result =
     (if i \<le> n then if LONG_MAX < result * i then None else factorial_loop (i + 1) n (result * i) else Some result)"
  by pat_completeness auto
termination
  by (relation "measure (\<lambda>(i, n, result). nat (n + 1 - i))") auto
declare factorial_loop.simps [simp del]

definition compute_factorial :: "int \<Rightarrow> int option" where
  "compute_factorial n = factorial_loop 2 n 1"

lemma factorial_loop_step: "i \<le> n \<Longrightarrow> result * i \<le> LONG_MAX \<Longrightarrow> factorial_loop i n result = factorial_loop (i + 1) n (result * i)"
  by (subst factorial_loop.simps) simp

lemma fact_20: "(fact 20 :: int) \<le> LONG_MAX" "LONG_MAX < (fact 21 :: int)"
  by (simp_all add: LONG_MAX_def fact_numeral)

lemma factorial_loop_upto:
  "k \<le> 20 \<Longrightarrow> int k \<le> n \<Longrightarrow> factorial_loop 2 n 1 = factorial_loop (if k < 2 then 2 else int k + 1) n (fact k)"
proof (induction k)
  case (Suc k)
  show ?case
  proof (cases "k < 1")
    case False
    have f: "fact (Suc k) \<le> LONG_MAX"
      using fact_mono [of "Suc k" 20, where 'a = int] Suc.prems fact_20(1) by linarith
    have m: "fact k * (1 + int k) = fact (Suc k)" by (simp add: algebra_simps)
    have e: "(if k < 2 then 2 else int k + 1) = int (Suc k)" using False by auto
    have "factorial_loop 2 n 1 = factorial_loop (int (Suc k)) n (fact k)" using Suc e by simp
    also have "\<dots> = factorial_loop (int (Suc k) + 1) n (fact (Suc k))"
      using factorial_loop_step [of "int (Suc k)" n "fact k"] Suc.prems f m by simp
    finally show ?thesis using False by simp
  qed (use Suc in simp)
qed simp

text \<open>\<open>compute_factorial\<close> returns the factorial for every argument up to 20, 1 for negative ones, and overflows
  its \<open>long\<close> for every argument above 20.\<close>

theorem compute_factorial_eq: "compute_factorial n = (if n \<le> 20 then Some (fact (nat n)) else None)"
proof (cases "n < 2")
  case True
  then have "nat n = 0 \<or> nat n = 1" by arith
  then have "fact (nat n) = (1 :: int)" by (elim disjE) simp_all
  with True show ?thesis unfolding compute_factorial_def by (subst factorial_loop.simps) simp
next
  case False
  show ?thesis
  proof (cases "n \<le> 20")
    case True
    have "factorial_loop 2 n 1 = factorial_loop (n + 1) n (fact (nat n))"
    proof -
      have "nat n \<le> 20" "int (nat n) = n" "\<not> nat n < 2" using True False by simp_all
      then show ?thesis using factorial_loop_upto [of "nat n" n] by (simp only: if_False order.refl)
    qed
    also have "\<dots> = Some (fact (nat n))" by (subst factorial_loop.simps) simp
    finally show ?thesis using True by (simp add: compute_factorial_def)
  next
    case big: False
    have "factorial_loop 2 n 1 = factorial_loop 21 n (fact 20)" using factorial_loop_upto [of 20 n] big by simp
    also have "\<dots> = None"
      using big fact_20(2) by (subst factorial_loop.simps) (simp add: fact_numeral)
    finally show ?thesis using big by (simp add: compute_factorial_def)
  qed
qed

definition newline_char :: char where "newline_char = CHR 0x0A"

definition print_banner :: "string \<Rightarrow> string" where
  "print_banner title =
     replicate (length title + 4) CHR ''='' @ [newline_char] @ ''| '' @ title @ '' |'' @ [newline_char]
     @ replicate (length title + 4) CHR ''='' @ [newline_char]"

lemma length_print_banner: "length (print_banner title) = 3 * (length title + 5)"
  by (simp add: print_banner_def)

subsection \<open>The argument of \<open>time1\<close>\<close>

text \<open>
  \<open>strtol(arg, &endptr, 10)\<close>: the value, whether digits were found, what follows them, and whether the value
  was out of range (\<open>ERANGE\<close>).
\<close>

record strtol_result =
  long_value :: int
  converted :: bool
  end_text :: string
  out_of_range :: bool

definition strtol :: "string \<Rightarrow> strtol_result" where
  "strtol arg =
     (let s = dropWhile white arg;
          neg = (s \<noteq> [] \<and> hd s = CHR ''-'');
          s = (if s \<noteq> [] \<and> (hd s = CHR ''-'' \<or> hd s = CHR ''+'') then tl s else s);
          ds = takeWhile is_digit s;
          v = (if neg then - int (digits_val ds) else int (digits_val ds))
      in if ds = [] then \<lparr>long_value = 0, converted = False, end_text = arg, out_of_range = False\<rparr>
         else \<lparr>long_value = max LONG_MIN (min LONG_MAX v), converted = True, end_text = drop (length ds) s,
               out_of_range = (v < LONG_MIN \<or> LONG_MAX < v)\<rparr>)"

text \<open>\<open>getInt\<close>; None is its exit. The cast to \<open>int\<close> keeps the low 32 bits.\<close>

definition getInt :: "string \<Rightarrow> bool \<Rightarrow> int option" where
  "getInt arg gt_0 =
     (let r = strtol arg in
      if out_of_range r \<or> \<not> converted r \<or> end_text r \<noteq> [] then None
      else if gt_0 \<and> long_value r \<le> 0 then None
      else Some (sint (word_of_int (long_value r) :: 32 word)))"

lemma dec_nat_first: "\<exists>d ds. dec_nat n = d # ds \<and> is_digit d"
  using dec_nat_digits [of n] by (cases "dec_nat n") auto

lemma digit_not: "is_digit d \<Longrightarrow> \<not> white d \<and> d \<noteq> CHR ''-'' \<and> d \<noteq> CHR ''+''"
  by (auto simp: is_digit_def white_def)

lemma takeWhile_digits: "takeWhile is_digit (dec_nat n) = dec_nat n"
  using dec_nat_digits by (simp add: takeWhile_eq_all_conv)

lemma strtol_dec_int:
  "strtol (dec_int i) = \<lparr>long_value = max LONG_MIN (min LONG_MAX i), converted = True, end_text = [],
     out_of_range = (i < LONG_MIN \<or> LONG_MAX < i)\<rparr>"
proof (cases "i < 0")
  case True
  moreover have "\<not> white CHR ''-''" by (simp add: white_def)
  ultimately show ?thesis
    by (simp add: strtol_def dec_int_def Let_def takeWhile_digits)
next
  case False
  from dec_nat_first obtain d ds where d: "dec_nat (nat i) = d # ds" "is_digit d" by blast
  have "dropWhile white (dec_nat (nat i)) = dec_nat (nat i)" using digit_not [OF d(2)] by (simp add: d(1))
  moreover have "hd (dec_nat (nat i)) \<noteq> CHR ''-''" "hd (dec_nat (nat i)) \<noteq> CHR ''+''"
    using digit_not [OF d(2)] by (simp_all add: d(1))
  ultimately show ?thesis using False
    by (simp add: strtol_def dec_int_def Let_def takeWhile_digits)
qed

text \<open>For a number written in decimal \<open>getInt\<close> with \<open>GN_GT_0\<close> refuses exactly the values below 1 and those
  that do not fit a \<open>long\<close>; of the others it returns the low 32 bits, so from \<open>2 ^ 31\<close> on the result is
  another number, and it can be negative although the test for a positive one has passed.\<close>

theorem getInt_truncates:
  "getInt (dec_int i) True =
     (if i \<le> 0 \<or> LONG_MAX < i then None
      else if i \<le> INT_MAX then Some i else Some (sint (word_of_int i :: 32 word)))
   \<and> getInt (dec_int (INT_MAX + 1)) True = Some INT_MIN"
proof -
  have g: "getInt (dec_int j) True =
      (if j \<le> 0 \<or> LONG_MAX < j then None else Some (sint (word_of_int j :: 32 word)))" for j
    by (auto simp: getInt_def strtol_dec_int Let_def LONG_MAX_def LONG_MIN_def)
  have s: "sint (word_of_int j :: 32 word) = j" if "0 < j" "j \<le> INT_MAX" for j
    using that by (simp add: INT_MAX_def signed_take_bit_int_eq_self_iff signed_of_int)
  have "sint (word_of_int (INT_MAX + 1) :: 32 word) = INT_MIN" by (simp add: INT_MAX_def INT_MIN_def)
  moreover have "\<not> LONG_MAX < INT_MAX + 1" by (simp add: LONG_MAX_def INT_MAX_def)
  ultimately show ?thesis using g s by (simp add: not_le)
qed

subsection \<open>Blocks of \<open>leaklab\<close>\<close>

record student =
  student_id :: int
  student_name :: "char list"

text \<open>\<open>strncpy\<close> into 31 of the 32 bytes, padded with NULs, and the last byte.\<close>

definition student_of :: "int \<Rightarrow> string \<Rightarrow> student" where
  "student_of n nm = \<lparr>student_id = n, student_name = take 31 nm @ replicate (31 - length nm) NUL @ [NUL]\<rparr>"

lemma student_name: "NUL \<notin> set nm \<Longrightarrow> length (student_name (student_of n nm)) = 32 \<and> cstr (student_name (student_of n nm)) = take 31 nm"
proof -
  assume n: "NUL \<notin> set nm"
  have "replicate (31 - length nm) NUL @ [NUL] = NUL # replicate (31 - length nm) NUL"
    by (simp add: replicate_append_same)
  moreover have "NUL \<notin> set (take 31 nm)" using n by (meson in_set_takeD)
  ultimately show ?thesis by (simp add: student_of_def cstr_append_NUL)
qed

text \<open>
  The heap: the live blocks by number, the number of blocks ever allocated, and how many allocations still
  succeed. \<open>create_student\<close> returns None for NULL.
\<close>

record student_heap =
  live_students :: "nat \<Rightarrow> student option"
  allocated :: nat
  left :: nat

definition create_student :: "int \<Rightarrow> string \<Rightarrow> student_heap \<Rightarrow> nat option \<times> student_heap" where
  "create_student n nm h =
     (if left h = 0 then (None, h)
      else (Some (allocated h), h\<lparr>live_students := (live_students h)(allocated h \<mapsto> student_of n nm),
              allocated := allocated h + 1, left := left h - 1\<rparr>))"

datatype leak_end = Exit_Failure | Null_Read | Freed_Read | Exit_Success

definition leak_main :: "nat \<Rightarrow> leak_end \<times> student_heap" where
  "leak_main budget =
     (let h = \<lparr>live_students = Map.empty, allocated = 0, left = budget\<rparr> in
      case create_student 1 ''Alice'' h of
        (None, h) \<Rightarrow> (Exit_Failure, h)
      | (Some student1, h) \<Rightarrow>
          (case create_student 2 ''Bob'' h of
             (None, h) \<Rightarrow> (Exit_Failure, h)
           | (Some student2, h) \<Rightarrow>
               (case create_student 3 ''Charlie'' h of
                  (None, h) \<Rightarrow> (Null_Read, h)
                | (Some student2, h) \<Rightarrow>
                    let h = h\<lparr>live_students := (live_students h)(student2 := None)\<rparr>
                    in (if live_students h student2 = None then Freed_Read else Exit_Success, h))))"

lemma leak_main_ends:
  "fst (leak_main budget) = (if budget < 2 then Exit_Failure else if budget = 2 then Null_Read else Freed_Read)"
  "3 \<le> budget \<Longrightarrow> live_students (snd (leak_main budget)) = [0 \<mapsto> student_of 1 ''Alice'', 1 \<mapsto> student_of 2 ''Bob'']"
  by (auto simp: leak_main_def create_student_def Let_def fun_eq_iff)

end
