(* ===== verification/CJson_Types.thy ===== *)
theory CJson_Types
  imports CJson_Parse CJson_Access
begin

text \<open>
  The type discipline of \<open>cJSON\<close> items. \<open>cJSON.h\<close> stores the type of an item as bits of an \<open>int\<close> and says
  in comments which fields go with which bit; \<open>item_typed\<close> states it, \<open>obtained\<close> are the items a client
  can get from the parser, the creators, \<open>cJSON_Duplicate\<close> and the setters. Each of these operations
  keeps the discipline, and on typed items the type tests and readers agree with the fields.
\<close>

subsection \<open>Typed items\<close>

definition type_of :: "cJSON \<Rightarrow> int" where
  "type_of v = itype v AND 0xFF"

definition item_types :: "int list" where
  "item_types = [cJSON_False, cJSON_True, cJSON_NULL, cJSON_Number, cJSON_String, cJSON_Array, cJSON_Object, cJSON_Raw]"

fun item_typed :: "cJSON \<Rightarrow> bool" where
  "item_typed (CJSON ty vs vi vd k ch) \<longleftrightarrow>
     (let t = ty AND 0xFF
      in t \<in> set item_types \<and> (vs \<noteq> None \<longleftrightarrow> t = cJSON_String \<or> t = cJSON_Raw)
       \<and> (ch \<noteq> [] \<longrightarrow> t = cJSON_Array \<or> t = cJSON_Object) \<and> INT_MIN \<le> vi \<and> vi \<le> INT_MAX
       \<and> (\<forall>c \<in> set ch. item_typed c \<and> (t = cJSON_Object \<longrightarrow> istring c \<noteq> None)))"

lemmas typed_defs = item_types_def type_defs INT_MIN_def INT_MAX_def Let_def

lemma typed_intro:
  "itype v AND 255 \<in> set item_types \<Longrightarrow>
   (valuestring v \<noteq> None) = (itype v AND 255 = cJSON_String \<or> itype v AND 255 = cJSON_Raw) \<Longrightarrow>
   child v = [] \<Longrightarrow> INT_MIN \<le> valueint v \<Longrightarrow> valueint v \<le> INT_MAX \<Longrightarrow> item_typed v"
  by (cases v) (simp add: Let_def)

lemma typed_fields:
  assumes "item_typed v"
  shows "type_of v \<in> set item_types" "(valuestring v \<noteq> None) = (type_of v = cJSON_String \<or> type_of v = cJSON_Raw)"
    "child v \<noteq> [] \<Longrightarrow> type_of v = cJSON_Array \<or> type_of v = cJSON_Object"
    "INT_MIN \<le> valueint v" "valueint v \<le> INT_MAX"
  using assms by (cases v; auto simp: type_of_def Let_def)+

lemma typed_child: "item_typed v \<Longrightarrow> c \<in> set (child v) \<Longrightarrow> item_typed c"
  by (cases v) (auto simp: Let_def)

lemma flags_outside_type: "(ty AND NOT cJSON_IsReference) AND 255 = ty AND 255" for ty :: int
proof (rule bit_eqI)
  fix n
  have "bit (255 :: int) n \<Longrightarrow> \<not> bit cJSON_IsReference n"
    using bit_mask_iff [where ?'a = int, of 8 n] bit_exp_iff [where ?'a = int, of 8 n]
    by (simp add: mask_eq_exp_minus_1 type_defs)
  then show "bit ((ty AND NOT cJSON_IsReference) AND 255) n = bit (ty AND 255) n"
    by (auto simp: bit_and_iff bit_not_iff)
qed

subsection \<open>The operations keep the discipline\<close>

lemma parsed_typed: "wf_parsed v \<Longrightarrow> item_typed v"
proof (induction v)
  case (CJSON ty vs vi vd k ch)
  then have "ty AND 255 = ty" by (auto simp: type_defs)
  with CJSON show ?case by (auto simp: typed_defs)
qed

lemma created_typed:
  assumes "create_typed t m = Some (v, m')" "t \<in> set item_types - {cJSON_String, cJSON_Raw}"
  shows "item_typed v"
  using assms by (auto simp: create_typed_def zero_item_def typed_defs dest!: New_Item_live)

lemma created_string_typed:
  assumes "create_stringlike t s m = (Some v, m')" "t = cJSON_String \<or> t = cJSON_Raw"
  shows "item_typed v"
  using assms
  by (auto simp: create_stringlike_def zero_item_def typed_defs dest!: New_Item_live strdup_live split: option.splits)

lemma created_number_typed:
  assumes "cJSON_CreateNumber d m = Some (v, m')"
  shows "item_typed v"
proof -
  have "v = CJSON cJSON_Number None (double_to_valueint d) d None []"
    using assms by (auto simp: cJSON_CreateNumber_def zero_item_def dest!: New_Item_live)
  with double_to_valueint_range [of d] show ?thesis by (simp add: typed_defs)
qed

lemma array_append_typed:
  "item_typed a \<Longrightarrow> type_of a = cJSON_Array \<Longrightarrow> item_typed n \<Longrightarrow> item_typed (set_child (child a @ [n]) a)"
  by (cases a) (auto simp: type_of_def typed_defs)

lemma type_set_child [simp]: "type_of (set_child ch a) = type_of a"
  by (cases a) (simp add: type_of_def)

lemma fill_array_typed:
  assumes "\<And>x m n m'. mk x m = (Some n, m') \<Longrightarrow> item_typed n"
  shows "item_typed a \<Longrightarrow> type_of a = cJSON_Array \<Longrightarrow> fill_array mk a xs m = (Some v, m') \<Longrightarrow> item_typed v"
  by (induction xs arbitrary: a m)
    (auto split: prod.splits option.splits dest: assms array_append_typed)

lemma create_array_typed:
  assumes "create_array mk xs count m = (Some v, m')" "\<And>x m n m'. mk x m = (Some n, m') \<Longrightarrow> item_typed n"
  shows "item_typed v"
proof -
  obtain a m1 ys where a: "cJSON_CreateArray m = Some (a, m1)" "fill_array mk a ys m1 = (Some v, m')"
    using assms(1) by (auto simp: create_array_def split: option.splits if_splits)
  then have "item_typed a" by (intro created_typed [of cJSON_Array m]) (auto simp: cJSON_CreateArray_def typed_defs)
  moreover have "type_of a = cJSON_Array"
    using a(1) by (auto simp: cJSON_CreateArray_def create_typed_def zero_item_def type_of_def type_defs dest!: New_Item_live)
  ultimately show ?thesis using a(2) by (rule fill_array_typed [rotated]) (rule assms(2))
qed

lemma istring_unreference [simp]: "istring (unreference v) = istring v"
  by (cases v) simp

lemma unreference_typed: "item_typed v \<Longrightarrow> item_typed (unreference v)"
  by (induction v) (auto simp: flags_outside_type Let_def)

lemma childless_typed: "item_typed v \<Longrightarrow> item_typed (set_child [] v)"
  by (cases v) (auto simp: Let_def)

lemma duplicate_flat:
  assumes "fst (cJSON_Duplicate_rec item d False m) = Some v"
  shows "v = set_child [] (unreference item)"
proof -
  obtain m0 where new: "cJSON_New_Item m = Some (zero_item, m0)"
    using assms New_Item_live by (auto simp: cJSON_Duplicate_rec.simps split: option.splits)
  obtain newitem ok m1 where cf: "copy_fields item zero_item m0 = (newitem, ok, m1)" by (metis prod_cases3)
  have "ok" "newitem = v" using assms new cf by (auto simp: cJSON_Duplicate_rec.simps split: if_splits)
  with copy_fields_balanced [OF cf] show ?thesis by simp
qed

lemma duplicate_typed:
  assumes "fst (cJSON_Duplicate (Some v) recurse m) = Some w" "item_typed v"
  shows "item_typed w"
proof (cases recurse)
  case True
  then have "w = unreference v" using assms(1) duplicate_copies(1) by (simp add: cJSON_Duplicate_def)
  with assms(2) show ?thesis by (simp add: unreference_typed)
next
  case False
  then have "w = set_child [] (unreference v)" using assms(1) duplicate_flat by (simp add: cJSON_Duplicate_def)
  with assms(2) show ?thesis by (simp add: unreference_typed childless_typed)
qed

lemma set_number_typed: "item_typed v \<Longrightarrow> item_typed (fst (cJSON_SetNumberHelper v d))"
  using double_to_valueint_range [of d] by (cases v) (simp add: cJSON_SetNumberHelper_def Let_def)

lemma set_valuestring_typed:
  assumes "item_typed v" "cJSON_SetValuestring (Some v) s overlap m = (Some w, m', r)"
  shows "item_typed w"
proof -
  have "w = v \<or> (\<exists>t. w = set_valuestring (Some t) v \<and> valuestring v \<noteq> None)"
    using assms(2) by (auto simp: cJSON_SetValuestring_def Let_def split: if_splits option.splits prod.splits)
  with assms(1) show ?thesis by (cases v) (auto simp: Let_def)
qed

lemma reference_flag: "(t OR cJSON_IsReference) AND 255 = t" if "t \<in> set item_types"
  using that by (auto simp: typed_defs)

subsection \<open>What a client can obtain\<close>

text \<open>
  A string reference needs a string, and the items referred to are typed children themselves; for a
  reference to an object they carry names.
\<close>

inductive obtained :: "cJSON \<Rightarrow> bool" where
  parsed: "n \<le> length inp \<Longrightarrow> cJSON_ParseWithLengthOpts inp n req m = Some (Parsed v e m') \<Longrightarrow> obtained v"
| created: "Some (v, m') \<in> {cJSON_CreateNull m, cJSON_CreateTrue m, cJSON_CreateFalse m, cJSON_CreateBool b m,
              cJSON_CreateArray m, cJSON_CreateObject m, cJSON_CreateNumber d m} \<Longrightarrow> obtained v"
| string: "(Some v, m') \<in> {cJSON_CreateString s m, cJSON_CreateRaw s m} \<Longrightarrow> obtained v"
| numbers: "(Some v, m') \<in> {cJSON_CreateIntArray xs count m, cJSON_CreateDoubleArray ds count m,
              cJSON_CreateFloatArray fs count m, cJSON_CreateStringArray ss count m} \<Longrightarrow> obtained v"
| string_ref: "cJSON_CreateStringReference (Some t) m = Some (v, m') \<Longrightarrow> obtained v"
| array_ref: "cJSON_CreateArrayReference ch m = Some (v, m') \<Longrightarrow> (\<forall>c \<in> set ch. obtained c) \<Longrightarrow> obtained v"
| object_ref: "cJSON_CreateObjectReference ch m = Some (v, m') \<Longrightarrow> (\<forall>c \<in> set ch. obtained c \<and> istring c \<noteq> None)
    \<Longrightarrow> obtained v"
| member: "obtained v \<Longrightarrow> c \<in> set (child v) \<Longrightarrow> obtained c"
| duplicate: "obtained v \<Longrightarrow> fst (cJSON_Duplicate (Some v) recurse m) = Some w \<Longrightarrow> obtained w"
| set_number: "obtained v \<Longrightarrow> obtained (fst (cJSON_SetNumberHelper v d))"
| set_text: "obtained v \<Longrightarrow> cJSON_SetValuestring (Some v) s overlap m = (Some w, m', r) \<Longrightarrow> obtained w"

lemma obtained_typed: "obtained v \<Longrightarrow> item_typed v"
proof (induction rule: obtained.induct)
  case (parsed n inp req m v e m')
  then show ?case using ParseWithLengthOpts_ok [of n inp req m] by (auto intro: parsed_typed)
next
  case (created v m' m b d)
  then consider "cJSON_CreateNumber d m = Some (v, m')"
    | t where "create_typed t m = Some (v, m')" "t \<in> set item_types - {cJSON_String, cJSON_Raw}"
    by (auto simp: cJSON_CreateNull_def cJSON_CreateTrue_def cJSON_CreateFalse_def cJSON_CreateBool_def
        cJSON_CreateArray_def cJSON_CreateObject_def typed_defs split: if_splits)
  then show ?case by cases (blast intro: created_number_typed created_typed)+
next
  case (string v m' s m)
  then show ?case
    by (auto simp: cJSON_CreateString_def cJSON_CreateRaw_def dest: created_string_typed [OF sym])
next
  case (numbers v m' xs count m ds fs ss)
  have num: "item_typed n" if "mk_number x k = (Some n, k')" for x k n k'
    using that created_number_typed by (auto simp: mk_number_def split: option.splits)
  have str: "item_typed n" if "cJSON_CreateString x k = (Some n, k')" for x k n k'
    using that created_string_typed by (auto simp: cJSON_CreateString_def)
  from numbers show ?case
    by (auto simp: cJSON_CreateIntArray_def cJSON_CreateDoubleArray_def cJSON_CreateFloatArray_def
        cJSON_CreateStringArray_def intro: create_array_typed [OF sym] num str)
next
  case (string_ref t m v m')
  then show ?case
    by (auto simp: cJSON_CreateStringReference_def zero_item_def typed_defs dest!: New_Item_live)
next
  case (array_ref ch m v m')
  then show ?case
    by (auto simp: cJSON_CreateArrayReference_def zero_item_def typed_defs dest!: New_Item_live)
next
  case (object_ref ch m v m')
  then show ?case
    by (auto simp: cJSON_CreateObjectReference_def zero_item_def typed_defs dest!: New_Item_live)
qed (blast intro: typed_child duplicate_typed set_number_typed set_valuestring_typed)+

subsection \<open>Type tests\<close>

text \<open>The type tests that hold of an item.\<close>

definition type_tests :: "(cJSON option \<Rightarrow> bool) list" where
  "type_tests = [cJSON_IsInvalid, cJSON_IsFalse, cJSON_IsTrue, cJSON_IsNull, cJSON_IsNumber, cJSON_IsString,
                 cJSON_IsArray, cJSON_IsObject, cJSON_IsRaw]"

lemma typed_one_test:
  assumes "item_typed v"
  shows "length (filter (\<lambda>test. test (Some v)) type_tests) = 1" "\<not> cJSON_IsInvalid (Some v)"
  using typed_fields(1) [OF assms] by (auto simp: type_tests_def Is_defs type_of_def typed_defs)

subsection \<open>Properties\<close>


lemma one_string_array:
  "obtained (CJSON 32 None 0 (DNum 0) None [CJSON 16 (Some ''a'') 0 (DNum 0) None []])"
proof -
  have "cJSON_CreateStringArray (Some [Some ''a'']) 1 \<lparr>budget = 3, live = 0\<rparr>
     = (Some (CJSON 32 None 0 (DNum 0) None [CJSON 16 (Some ''a'') 0 (DNum 0) None []]), \<lparr>budget = 0, live = 3\<rparr>)"
    by code_simp
  then show ?thesis
    by (intro obtained.numbers [where ss = "Some [Some ''a'']" and count = 1 and m = "\<lparr>budget = 3, live = 0\<rparr>"
          and m' = "\<lparr>budget = 0, live = 3\<rparr>"]) (simp only: insert_iff simp_thms)
qed


end
