(* ===== verification/CJson_Error.thy ===== *)
theory CJson_Error
  imports CJson_Parse
begin

text \<open>
  The error position of \<open>cJSON.c\<close>: \<open>global_error\<close>, which every parse sets and \<open>cJSON_GetErrorPtr\<close> reads, over
  a sequence of calls of the parser by one thread.
\<close>

subsection \<open>State and calls\<close>

text \<open>\<open>json\<close> is the text (the memory the parser was given), None for NULL.\<close>

record global_error =
  json :: "string option"
  position :: nat

definition no_error :: global_error where
  "no_error = \<lparr>json = None, position = 0\<rparr>"

text \<open>The pointer \<open>json + position\<close> as the memory it points into and the index; NULL plus 0 is NULL.\<close>

definition cJSON_GetErrorPtr :: "global_error \<Rightarrow> (string \<times> nat) option" where
  "cJSON_GetErrorPtr e = map_option (\<lambda>t. (t, position e)) (json e)"

text \<open>
  What a call leaves in \<open>global_error\<close>: it is reset at the start, and set at \<open>fail\<close> when there is a text.
\<close>

definition error_after :: "string \<Rightarrow> parse_outcome \<Rightarrow> global_error" where
  "error_after t r = (case r of Parsed _ _ _ \<Rightarrow> no_error | ParseError p _ \<Rightarrow> \<lparr>json = Some t, position = p\<rparr>)"

fun tree_of :: "parse_outcome \<Rightarrow> cJSON option" where
  "tree_of (Parsed v _ _) = Some v" | "tree_of (ParseError _ _) = None"

fun mem_of :: "parse_outcome \<Rightarrow> mem" where
  "mem_of (Parsed _ _ m) = m" | "mem_of (ParseError _ m) = m"

text \<open>
  A call with a length, on a text of at least that length, or on a NUL-terminated string. The early return
  of \<open>cJSON_ParseWithOpts\<close> for NULL comes before the reset.
\<close>

datatype parse_call = With_Length "string option" nat bool | With_Opts "string option" bool

fun run_parse :: "parse_call \<Rightarrow> mem \<times> global_error \<Rightarrow> (cJSON option \<times> mem \<times> global_error) option" where
  "run_parse (With_Length None n req) (m, e) = Some (None, m, no_error)"
| "run_parse (With_Length (Some t) n req) (m, e) =
     map_option (\<lambda>r. (tree_of r, mem_of r, error_after t r)) (cJSON_ParseWithLengthOpts t n req m)"
| "run_parse (With_Opts None req) (m, e) = Some (None, m, e)"
| "run_parse (With_Opts (Some s) req) (m, e) =
     map_option (\<lambda>r. (tree_of r, mem_of r, error_after (s @ [NUL]) r)) (cJSON_ParseWithOpts (Some s) req m)"

text \<open>The caller keeps the trees; the result is what each call returned.\<close>

fun run_parses :: "parse_call list \<Rightarrow> mem \<times> global_error \<Rightarrow> (cJSON option list \<times> mem \<times> global_error) option" where
  "run_parses [] s = Some ([], s)"
| "run_parses (c # cs) s =
     (case run_parse c s of
        None \<Rightarrow> None
      | Some (v, s') \<Rightarrow> map_option (\<lambda>(vs, s''). (v # vs, s'')) (run_parses cs s'))"

text \<open>The text a call works on, and what its caller owes: a length that the text has.\<close>

fun call_text :: "parse_call \<Rightarrow> string option" where
  "call_text (With_Length t n req) = t"
| "call_text (With_Opts s req) = map_option (\<lambda>s. s @ [NUL]) s"

fun call_ok :: "parse_call \<Rightarrow> bool" where
  "call_ok (With_Length (Some t) n req) \<longleftrightarrow> n \<le> length t"
| "call_ok _ \<longleftrightarrow> True"

subsection \<open>One call\<close>

text \<open>The position stays inside the text, and is 0 in an empty one.\<close>

definition error_inv :: "global_error \<Rightarrow> bool" where
  "error_inv e \<longleftrightarrow> (case json e of None \<Rightarrow> position e = 0 | Some t \<Rightarrow> position e < length t \<or> position e = 0)"

lemma error_after_ok:
  "n \<le> length t \<Longrightarrow> outcome_ok n m r \<Longrightarrow>
   error_inv (error_after t r) \<and> (json (error_after t r) = None) = (tree_of r \<noteq> None)
   \<and> (tree_of r = None \<longrightarrow> json (error_after t r) = Some t)
   \<and> live (mem_of r) = live m + (case tree_of r of None \<Rightarrow> 0 | Some v \<Rightarrow> owned [v])"
  by (cases r) (auto simp: error_after_def error_inv_def no_error_def)

lemma run_parse_text:
  assumes "call_ok c" "call_text c = Some t"
  shows "\<exists>v m' e'. run_parse c (m, e) = Some (v, m', e') \<and> error_inv e' \<and> (json e' = None) = (v \<noteq> None)
    \<and> (v = None \<longrightarrow> json e' = Some t) \<and> live m' = live m + (case v of None \<Rightarrow> 0 | Some v \<Rightarrow> owned [v])"
proof (cases c)
  case (With_Length s n req)
  with assms have n: "n \<le> length t" "s = Some t" by simp_all
  obtain r where "cJSON_ParseWithLengthOpts t n req m = Some r" "outcome_ok n m r"
    using ParseWithLengthOpts_ok [OF n(1)] by blast
  with error_after_ok [OF n(1), of m r] With_Length n show ?thesis by auto
next
  case (With_Opts s req)
  with assms obtain s' where s: "s = Some s'" "t = s' @ [NUL]" by auto
  then have n: "length s' + 1 \<le> length t" by simp
  obtain r where "cJSON_ParseWithLengthOpts t (length s' + 1) req m = Some r" "outcome_ok (length s' + 1) m r"
    using ParseWithLengthOpts_ok [OF n] by blast
  with error_after_ok [OF n, of m r] With_Opts s show ?thesis by (auto simp: cJSON_ParseWithOpts_def)
qed

lemma run_parse_null:
  "call_text c = None \<Longrightarrow> \<exists>e'. run_parse c (m, e) = Some (None, m, e') \<and> (e' = e \<or> e' = no_error)"
  by (cases c) auto

lemma run_parse_inv:
  assumes "call_ok c" "error_inv e"
  shows "\<exists>v m' e'. run_parse c (m, e) = Some (v, m', e') \<and> error_inv e'"
  using run_parse_text [OF assms(1), of _ m e] run_parse_null [of c m e] assms(2)
  by (cases "call_text c") (force simp: error_inv_def no_error_def)+

lemma run_parses_inv:
  "list_all call_ok cs \<Longrightarrow> error_inv e \<Longrightarrow> \<exists>vs m' e'. run_parses cs (m, e) = Some (vs, m', e') \<and> error_inv e' \<and> length vs = length cs"
proof (induction cs arbitrary: m e)
  case (Cons c cs)
  obtain v m1 e1 where 1: "run_parse c (m, e) = Some (v, m1, e1)" "error_inv e1"
    using run_parse_inv [of c e m] Cons.prems by auto
  with Cons show ?case by fastforce
qed simp

lemma run_parses_append:
  "run_parses cs s = Some (vs, s1) \<Longrightarrow> run_parse c s1 = Some (v, s2) \<Longrightarrow> run_parses (cs @ [c]) s = Some (vs @ [v], s2)"
  by (cases s2, induction cs arbitrary: s vs) (auto split: option.splits prod.splits)

subsection \<open>Properties\<close>



end
