(* ===== verification/Thread_Pool_V1.thy ===== *)
theory Thread_Pool_V1
  imports Thread_Pool
begin

text \<open>
  The first thread pool, \<open>thread/lab35_threadpool.c\<close>: 60 workers, 100 tasks, no shutdown. Its state
  has no flag to end a worker. \<open>pool_of\<close> maps it to the pool of \<open>seance6/lab35_threadpool.c\<close>, of which
  it is the part that never shuts down, so the invariants of \<open>Thread_Pool\<close> carry over. The tasks of both
  programs, which print a sum and a product of two random numbers, stand first.
\<close>

subsection \<open>Tasks\<close>

text \<open>
  \<open>r1\<close> and \<open>r2\<close> are the two values of \<open>rand\<close>. A task gives the line it prints and the microseconds it
  sleeps.
\<close>

definition task_output :: "string \<Rightarrow> string \<Rightarrow> nat \<Rightarrow> nat \<Rightarrow> string \<times> nat" where
  "task_output before between r1 r2 =
     (let a = r1 mod 100; b = r2 mod 100; result = a + b; prod = a * b
      in (before @ dec_nat a @ '' + '' @ dec_nat b @ '' = '' @ dec_nat result @ between @ dec_nat prod
            @ [CHR 0x0A], 50000))"

definition userFunction :: "nat \<Rightarrow> nat \<Rightarrow> string \<times> nat" where
  "userFunction = task_output ''Task: '' '', Prod = ''"

definition userFunction_v1 :: "nat \<Rightarrow> nat \<Rightarrow> string \<times> nat" where
  "userFunction_v1 = task_output ''Task Somme : '' '' Prod = ''"

text \<open>\<open>executeTask\<close>: a null function does nothing; the first program sleeps once more after the task.\<close>

fun executeTask :: "(nat \<Rightarrow> nat \<Rightarrow> string \<times> nat) option \<Rightarrow> nat \<Rightarrow> nat \<Rightarrow> string \<times> nat" where
  "executeTask None r1 r2 = ([], 0)"
| "executeTask (Some f) r1 r2 = f r1 r2"

fun executeTask_v1 :: "(nat \<Rightarrow> nat \<Rightarrow> string \<times> nat) option \<Rightarrow> nat \<Rightarrow> nat \<Rightarrow> string \<times> nat" where
  "executeTask_v1 None r1 r2 = ([], 0)"
| "executeTask_v1 (Some f) r1 r2 = (case f r1 r2 of (out, t) \<Rightarrow> (out, t + 50000))"

lemma execute_prints_sum:
  "a < 100 \<Longrightarrow> b < 100 \<Longrightarrow>
   fst (executeTask (Some userFunction) a b)
     = ''Task: '' @ dec_nat a @ '' + '' @ dec_nat b @ '' = '' @ dec_nat (a + b) @ '', Prod = '' @ dec_nat (a * b)
       @ [CHR 0x0A]"
  by (simp add: userFunction_def task_output_def Let_def)

lemma execute_v1_takes_longer:
  "snd (executeTask_v1 (Some f) r1 r2) = snd (executeTask (Some f) r1 r2) + 50000"
  by (simp split: prod.split)

subsection \<open>The pool\<close>

definition POOL_SLOTS :: nat where "POOL_SLOTS = 256"
definition THREAD_POOL_SIZE_V1 :: nat where "THREAD_POOL_SIZE_V1 = 60"
definition SUBMITS :: nat where "SUBMITS = 100"

record pool1 =
  slots :: "nat task_array"
  sent :: nat
  threads :: "worker list"
  queued_in :: "nat list"
  refused :: "nat list"
  begun :: "nat list"
  done1 :: "nat list"

definition pool1_init :: pool1 where
  "pool1_init =
     \<lparr>slots = \<lparr>taskQueue = replicate POOL_SLOTS 0, taskCount = 0\<rparr>, sent = 0,
       threads = replicate THREAD_POOL_SIZE_V1 Ready, queued_in = [], refused = [], begun = [], done1 = []\<rparr>"

definition submitTask_v1 :: "nat \<Rightarrow> pool1 \<Rightarrow> pool1" where
  "submitTask_v1 w p =
     (let task = sent p; q = slots p; p = p\<lparr>sent := sent p + 1\<rparr>
      in if taskCount q < POOL_SLOTS
         then p\<lparr>slots := q\<lparr>taskQueue := (taskQueue q)[taskCount q := task], taskCount := taskCount q + 1\<rparr>,
                queued_in := queued_in p @ [task], threads := cond_signal w (threads p)\<rparr>
         else p\<lparr>refused := refused p @ [task]\<rparr>)"

text \<open>A worker that finds the queue empty waits; there is no other way out of its loop.\<close>

definition startThread_v1 :: "nat \<Rightarrow> pool1 \<Rightarrow> pool1 option" where
  "startThread_v1 w p =
     (if w < length (threads p) then
        (case threads p ! w of
           Ready \<Rightarrow>
             if taskCount (slots p) = 0 then Some (p\<lparr>threads := (threads p)[w := Blocked]\<rparr>)
             else (let task = taskQueue (slots p) ! 0;
                       q = shift_tasks (taskCount (slots p) - 1) (taskQueue (slots p))
                   in Some (p\<lparr>slots := \<lparr>taskQueue = q, taskCount = taskCount (slots p) - 1\<rparr>,
                              begun := begun p @ [task], threads := (threads p)[w := Run task]\<rparr>))
         | Run task \<Rightarrow> Some (p\<lparr>done1 := done1 p @ [task], threads := (threads p)[w := Ready]\<rparr>)
         | _ \<Rightarrow> None)
      else None)"

inductive pool1_step :: "pool1 \<Rightarrow> pool1 \<Rightarrow> bool" where
  submit1: "sent p < SUBMITS \<Longrightarrow> signal_ok (threads p) w \<Longrightarrow> pool1_step p (submitTask_v1 w p)"
| work1: "startThread_v1 w p = Some p' \<Longrightarrow> pool1_step p p'"

inductive_cases pool1_stepE: "pool1_step p p'"

definition pool_of :: "pool1 \<Rightarrow> pool" where
  "pool_of p = \<lparr>tasks = slots p, shutdown = False, submitted = sent p, workers = threads p,
                accepted = queued_in p, dropped = refused p, taken = begun p, executed = done1 p\<rparr>"

subsection \<open>It is the later pool without a shutdown\<close>

lemma pool_of_init: "pool_of pool1_init = pool_init 60"
  by (simp add: pool_of_def pool1_init_def pool_init_def POOL_SLOTS_def QUEUE_SIZE_def THREAD_POOL_SIZE_V1_def)

lemma pool_of_submit: "pool_of (submitTask_v1 w p) = submitTask w (pool_of p)"
  by (simp add: pool_of_def submitTask_v1_def submitTask_def Let_def POOL_SLOTS_def QUEUE_SIZE_def tasks_put_def)

lemma pool_of_work: "startThread_step w (pool_of p) = map_option pool_of (startThread_v1 w p)"
  by (simp add: pool_of_def startThread_step_def startThread_v1_def Let_def tasks_take_def split: worker.splits)

lemma pool_of_fields [simp]:
  "submitted (pool_of p) = sent p" "workers (pool_of p) = threads p" "executed (pool_of p) = done1 p"
  "dropped (pool_of p) = refused p" "shutdown (pool_of p) = False"
  by (simp_all add: pool_of_def)

lemma pool1_to_pool: "pool1_step p p' \<Longrightarrow> pool_step 100 False (pool_of p) (pool_of p')"
proof (erule pool1_stepE)
  fix w assume "p' = submitTask_v1 w p" "sent p < SUBMITS" "signal_ok (threads p) w"
  then show ?thesis using pool_step.submit [of "pool_of p" 100 w False] by (simp add: SUBMITS_def pool_of_submit)
next
  fix w assume "startThread_v1 w p = Some p'"
  then show ?thesis by (intro pool_step.work [where w = w]) (simp add: pool_of_work)
qed

lemma pool_to_pool1: "pool_step 100 False (pool_of p) q \<Longrightarrow> \<exists>p'. q = pool_of p' \<and> pool1_step p p'"
proof (erule pool_stepE)
  fix w assume "q = submitTask w (pool_of p)" "submitted (pool_of p) < 100" "signal_ok (workers (pool_of p)) w"
  then show ?thesis
    by (intro exI [of _ "submitTask_v1 w p"]) (simp add: pool_of_submit pool1_step.submit1 SUBMITS_def)
next
  fix w assume "startThread_step w (pool_of p) = Some q"
  then show ?thesis by (auto simp: pool_of_work intro: pool1_step.work1)
qed simp

lemma pool1_runs: "pool1_step\<^sup>*\<^sup>* p p' \<Longrightarrow> (pool_step 100 False)\<^sup>*\<^sup>* (pool_of p) (pool_of p')"
  by (induction rule: rtranclp_induct) (auto intro: rtranclp.rtrancl_into_rtrancl dest: pool1_to_pool)

lemma pool_runs_back:
  "(pool_step 100 False)\<^sup>*\<^sup>* q r \<Longrightarrow> q = pool_of p \<Longrightarrow> \<exists>p'. r = pool_of p' \<and> pool1_step\<^sup>*\<^sup>* p p'"
proof (induction rule: rtranclp_induct)
  case (step r s)
  then obtain p' where p': "r = pool_of p'" "pool1_step\<^sup>*\<^sup>* p p'" by blast
  with step.hyps(2) obtain p'' where p'': "s = pool_of p''" "pool1_step p' p''" using pool_to_pool1 by blast
  from p'(2) p''(2) have "pool1_step\<^sup>*\<^sup>* p p''" by (rule rtranclp.rtrancl_into_rtrancl)
  with p''(1) show ?case by blast
qed blast

subsection \<open>Properties\<close>


definition pool1_ended :: "pool1 \<Rightarrow> bool" where
  "pool1_ended p \<longleftrightarrow> pool1_step\<^sup>*\<^sup>* pool1_init p \<and> (\<nexists>p'. pool1_step p p')"

lemma pool1_ended_pool:
  "pool1_ended p \<Longrightarrow> (pool_step 100 False)\<^sup>*\<^sup>* (pool_init 60) (pool_of p)"
  "pool1_ended p \<Longrightarrow> \<nexists>q. pool_step 100 False (pool_of p) q"
  unfolding pool1_ended_def using pool1_runs pool_to_pool1 by (fastforce simp flip: pool_of_init)+

lemma pool1_run_ends: "\<exists>p. pool1_ended p"
proof -
  obtain q where q: "(pool_step 100 False)\<^sup>*\<^sup>* (pool_of pool1_init) q" "\<nexists>q'. pool_step 100 False q q'"
    using pool_runs_to_end by blast
  then obtain p where "q = pool_of p" "pool1_step\<^sup>*\<^sup>* pool1_init p" using pool_runs_back by blast
  with q(2) pool1_to_pool show ?thesis unfolding pool1_ended_def by blast
qed

text \<open>The first thread pool never drops a task and executes each of the 100 exactly once, but ends
  with every worker blocked in \<open>pthread_cond_wait\<close> and none exited, so the joins of \<open>main\<close> never return.\<close>

theorem pool_v1_never_joins:
  assumes "pool1_ended p"
  shows "mset (done1 p) = mset [0..<100] \<and> refused p = [] \<and> set (threads p) = {Blocked}"
proof -
  note run = pool1_ended_pool [OF assms]
  have e: "submitted (pool_of p) = 100" "mset (executed (pool_of p)) = mset (accepted (pool_of p))"
    "mset (accepted (pool_of p)) + mset (dropped (pool_of p)) = mset [0..<100]"
    "set (workers (pool_of p)) = {Blocked}"
    using end_state [OF run] by simp_all
  moreover have "dropped (pool_of p) = []" using drops_when_full [OF run(1)] e(1) by (auto simp: QUEUE_SIZE_def)
  ultimately show ?thesis by (simp del: upt_rec_numeral)
qed

theorem pool_v1_never_joins_witness:
  "\<exists>p. pool1_ended p \<and> mset (done1 p) = mset [0..<100] \<and> refused p = [] \<and> set (threads p) = {Blocked}"
  using pool1_run_ends pool_v1_never_joins by blast

end
