(* ===== verification/Heartbeat.thy ===== *)
theory Heartbeat
  imports Transition Small_Labs
begin

text \<open>
  Two loops that say they are alive until a signal clears their flag: \<open>main\<close> of the daemon
  \<open>seance_4/daemon.c\<close> (after \<open>daemonize\<close>, which is in \<open>Process_Labs\<close>) and \<open>periodic_thread\<close> of
  \<open>seance6/lab_multithreading_debug.c\<close>. Both test the flag, write a line and sleep; the handler may run
  between any two of these steps.
\<close>

subsection \<open>The interval of the daemon\<close>

text \<open>\<open>atoi\<close> is \<open>strtol\<close> cut to an \<open>int\<close>, with no sign of an error.\<close>

definition atoi :: "string \<Rightarrow> int" where
  "atoi s = sint (word_of_int (long_value (strtol s)) :: 32 word)"

definition daemon_interval :: "string list \<Rightarrow> int" where
  "daemon_interval argv =
     (let interval = (if length argv > 1 then atoi (argv ! 1) else 10)
      in if interval \<le> 0 then 10 else interval)"

lemma daemon_interval_positive: "0 < daemon_interval argv"
  by (simp add: daemon_interval_def Let_def)

lemma daemon_interval_dec:
  assumes "0 < i" "i \<le> INT_MAX"
  shows "daemon_interval [prog, dec_int i] = i"
proof -
  have "sint (word_of_int i :: 32 word) = i"
    using assms by (simp add: INT_MAX_def signed_take_bit_int_eq_self_iff signed_of_int)
  then show ?thesis using assms
    by (simp add: daemon_interval_def atoi_def strtol_dec_int INT_MAX_def LONG_MAX_def LONG_MIN_def)
qed

text \<open>An interval of \<open>2 ^ 32 + 5\<close> seconds is taken for 5.\<close>

lemma daemon_interval_wraps: "daemon_interval [prog, dec_int 4294967301] = 5"
  by (simp add: daemon_interval_def atoi_def strtol_dec_int LONG_MAX_def LONG_MIN_def)

subsection \<open>The loop\<close>

datatype place = Test_flag | Write_line | Before_sleep | Asleep | Ended

text \<open>\<open>late\<close> counts the lines written, \<open>slept\<close> the seconds slept after the flag was cleared.\<close>

record beat =
  place :: place
  running :: bool
  lines :: nat
  late :: nat
  slept :: nat

definition beat_init :: beat where
  "beat_init = \<lparr>place = Test_flag, running = True, lines = 0, late = 0, slept = 0\<rparr>"

definition beat_main :: "nat \<Rightarrow> beat \<Rightarrow> beat list" where
  "beat_main interval s =
     (case place s of
        Test_flag \<Rightarrow> [s\<lparr>place := if running s then Write_line else Ended\<rparr>]
      | Write_line \<Rightarrow> [s\<lparr>place := Before_sleep, lines := lines s + 1, late := late s + (if running s then 0 else 1)\<rparr>]
      | Before_sleep \<Rightarrow> [s\<lparr>place := Asleep\<rparr>]
      | Asleep \<Rightarrow> [s\<lparr>place := Test_flag, slept := slept s + (if running s then 0 else interval)\<rparr>]
      | Ended \<Rightarrow> [])"

text \<open>
  The handler; \<open>wakes\<close>: it runs in the thread of the loop, and then ends its sleep. Once the flag is
  cleared it changes something only by ending the sleep.
\<close>

definition handle_sigterm :: "bool \<Rightarrow> beat \<Rightarrow> beat" where
  "handle_sigterm wakes s =
     s\<lparr>running := False, place := if wakes \<and> place s = Asleep then Test_flag else place s\<rparr>"

definition beat_next :: "bool list \<Rightarrow> nat \<Rightarrow> beat \<Rightarrow> beat list" where
  "beat_next ws interval s =
     beat_main interval s
     @ map (\<lambda>wakes. handle_sigterm wakes s) (filter (\<lambda>wakes. running s \<or> wakes \<and> place s = Asleep) ws)"

text \<open>The daemon has one thread; in the other program the handler may run in any thread.\<close>

definition daemon_next :: "int \<Rightarrow> beat \<Rightarrow> beat list" where
  "daemon_next interval = beat_next [True] (nat interval)"

definition PERIODIC_INTERVAL_SEC :: nat where "PERIODIC_INTERVAL_SEC = 2"

definition periodic_thread :: "beat \<Rightarrow> beat list" where
  "periodic_thread = beat_next [True, False] PERIODIC_INTERVAL_SEC"

text \<open>What they write.\<close>

definition daemon_log :: "int \<Rightarrow> int \<Rightarrow> beat \<Rightarrow> string list" where
  "daemon_log pid interval s =
     (''daemon started, pid='' @ dec_int pid @ '', interval='' @ dec_int interval @ ''s'')
     # replicate (lines s) (''heartbeat: still alive (pid='' @ dec_int pid @ '')'')
     @ (if place s = Ended then [''daemon stopping, pid='' @ dec_int pid] else [])"

definition periodic_output :: "beat \<Rightarrow> string list" where
  "periodic_output s =
     map (\<lambda>tick. ''[PERIODIC]: keepalive #'' @ dec_nat tick) [0..<lines s]
     @ (if place s = Ended then [''[PERIODIC]: stopping''] else [])"

subsection \<open>It stops\<close>

definition beat_inv :: "nat \<Rightarrow> beat \<Rightarrow> bool" where
  "beat_inv interval s \<longleftrightarrow>
     (running s \<longrightarrow> late s = 0 \<and> slept s = 0 \<and> place s \<noteq> Ended) \<and> late s \<le> 1 \<and> slept s \<le> interval
     \<and> (place s = Write_line \<longrightarrow> late s = 0) \<and> (place s \<notin> {Test_flag, Ended} \<longrightarrow> slept s = 0)"

lemma beat_inv_step:
  "beat_inv interval u \<Longrightarrow> v \<in> set (beat_next ws interval u) \<Longrightarrow> beat_inv interval v"
  by (cases "place u") (auto simp: beat_inv_def beat_next_def beat_main_def handle_sigterm_def split: if_splits)

lemma beat_inv_init: "beat_inv interval beat_init"
  by (simp add: beat_inv_def beat_init_def)

interpretation daemon: invariant_system "daemon_next interval" beat_init "beat_inv (nat interval)"
  by unfold_locales (simp_all add: beat_inv_init daemon_next_def beat_inv_step)

interpretation periodic: invariant_system periodic_thread beat_init "beat_inv PERIODIC_INTERVAL_SEC"
  by unfold_locales (auto simp: beat_inv_init periodic_thread_def dest: beat_inv_step)

fun to_go :: "place \<Rightarrow> nat" where
  "to_go Write_line = 4" | "to_go Before_sleep = 3" | "to_go Asleep = 2" | "to_go Test_flag = 1" | "to_go Ended = 0"

lemma to_go_le: "to_go p \<le> 4"
  by (cases p) simp_all

lemma stopping_step:
  "\<not> running u \<Longrightarrow> v \<in> set (beat_next ws interval u) \<Longrightarrow> \<not> running v \<and> to_go (place v) < to_go (place u)"
  by (cases "place u") (auto simp: beat_next_def beat_main_def handle_sigterm_def)

lemma stopping_run:
  assumes "\<not> running s" "run (beat_next ws interval) s ks = Some s'"
  shows "length ks \<le> 4"
proof -
  have "length ks + to_go (place s') \<le> to_go (place s)"
    using run_bounded_inv [where I = "\<lambda>s. \<not> running s" and m = "\<lambda>s. to_go (place s)", OF assms(2,1)] stopping_step
    by blast
  with to_go_le [of "place s"] show ?thesis by simp
qed

lemma beat_stuck: "beat_next ws interval s = [] \<Longrightarrow> place s = Ended"
  by (cases "place s") (auto simp: beat_next_def beat_main_def)

lemma daemon_runs_on: "reachable (daemon_next interval) beat_init s \<Longrightarrow> running s \<Longrightarrow> daemon_next interval s \<noteq> []"
  using daemon.reach_inv [of interval s] beat_stuck by (fastforce simp: daemon_next_def beat_inv_def)

subsection \<open>Properties\<close>

lemma beat_stops:
  assumes "beat_inv interval s" "\<not> running s"
  shows "late s \<le> 1 \<and> slept s \<le> interval \<and> (\<forall>ks s'. run (beat_next ws interval) s ks = Some s' \<longrightarrow>
            length ks \<le> 4 \<and> (beat_next ws interval s' = [] \<longrightarrow> place s' = Ended))"
  using assms stopping_run beat_stuck by (simp add: beat_inv_def)

lemma periodic_thread_stops:
  assumes "reachable periodic_thread beat_init s" "\<not> running s"
  shows "late s \<le> 1 \<and> slept s \<le> 2 \<and> (\<forall>ks s'. run periodic_thread s ks = Some s' \<longrightarrow>
            length ks \<le> 4 \<and> (periodic_thread s' = [] \<longrightarrow> place s' = Ended))"
  using beat_stops [OF periodic.reach_inv [OF assms(1)] assms(2)]
  by (simp add: periodic_thread_def PERIODIC_INTERVAL_SEC_def)

text \<open>C38: Once SIGTERM or SIGINT has reached the daemon it stops, whenever the signal comes: it takes at most
  four more steps, and the only state without a step is its end; in all it writes at most one heartbeat
  and sleeps at most one interval after the signal (it does sleep so long when the signal comes between
  the test of \<open>keep_running\<close> and the sleep).\<close>

theorem daemon_stops:
  assumes "reachable (daemon_next interval) beat_init s" "\<not> running s"
  shows "late s \<le> 1 \<and> slept s \<le> nat interval \<and> (\<forall>ks s'. run (daemon_next interval) s ks = Some s' \<longrightarrow>
            length ks \<le> 4 \<and> (daemon_next interval s' = [] \<longrightarrow> place s' = Ended))"
  using beat_stops [OF daemon.reach_inv [OF assms(1)] assms(2)] by (simp add: daemon_next_def)

text \<open>The witness: the signal comes after the first heartbeat and before the sleep.\<close>

definition late_signal :: beat where
  "late_signal = \<lparr>place = Before_sleep, running = False, lines = 1, late = 0, slept = 0\<rparr>"

lemma late_signal_reached: "run (daemon_next 10) beat_init [0, 0, 1] = Some late_signal"
  by code_simp

theorem daemon_stops_witness:
  "late late_signal \<le> 1 \<and> slept late_signal \<le> nat 10"
  using daemon_stops [of 10 late_signal] run_reachable [OF late_signal_reached] by (simp add: late_signal_def)

text \<open>From there the daemon sleeps the whole interval before it stops.\<close>

lemma late_signal_sleeps:
  "run (daemon_next 10) late_signal [0, 0, 0]
     = Some \<lparr>place = Ended, running = False, lines = 1, late = 0, slept = 10\<rparr>"
  by code_simp

end
