(* ===== verification/Sys_Calls.thy ===== *)
theory Sys_Calls
  imports Prelude "HOL-Library.State_Monad"
begin

text \<open>
  System calls for the code that sets programs up: a state monad over the descriptors of the process, the
  named objects of the system and the lines printed. Which calls fail is decided by \<open>faults\<close>, one entry per
  fallible call (a call beyond the list succeeds), so that a statement for all \<open>faults\<close> covers every failure.
  \<open>wire\<close> is what has been written to sockets.
\<close>

datatype descr =
    Plain_Socket | Bound nat | Listening nat nat | Unix_Listening string nat | Connected
  | Timer nat nat | Epoll "nat list" | Inotify "string list" | Event_Fd | Queue_Fd string | Shm_Fd string | Fifo_Fd string

datatype line = Perror string | Stderr string | Stdout string

text \<open>An object under a name is left over from an earlier run, or was made by this one.\<close>

datatype age = Left_Over | Fresh

record kernel =
  faults :: "bool list"
  fds :: "(nat \<times> descr) list"
  names :: "string \<Rightarrow> age option"
  console :: "line list"
  wire :: "(nat \<times> string) list"

type_synonym 'a sys = "(kernel, 'a) state"

named_theorems sys_defs \<open>definitions of the system calls\<close>

definition lift_sys :: "(kernel \<Rightarrow> 'a \<times> kernel) \<Rightarrow> 'a sys" where [sys_defs]: "lift_sys f = State f"

definition update_kernel :: "(kernel \<Rightarrow> kernel) \<Rightarrow> unit sys" where
  [sys_defs]: "update_kernel f = lift_sys (\<lambda>k. ((), f k))"

definition say :: "line \<Rightarrow> unit sys" where
  [sys_defs]: "say l = update_kernel (\<lambda>k. k\<lparr>console := console k @ [l]\<rparr>)"

text \<open>\<open>fails\<close> takes the next entry of the oracle.\<close>

definition next_fault :: "kernel \<Rightarrow> bool" where
  "next_fault k \<longleftrightarrow> faults k \<noteq> [] \<and> hd (faults k)"

definition fails :: "bool sys" where
  [sys_defs]: "fails = lift_sys (\<lambda>k. (next_fault k, k\<lparr>faults := tl (faults k)\<rparr>))"

subsection \<open>Descriptors\<close>

definition lowest_fd :: "(nat \<times> descr) list \<Rightarrow> nat" where
  "lowest_fd xs = hd (filter (\<lambda>i. i \<notin> fst ` set xs) [0..<Suc (length xs)])"

lemma lowest_fd_fresh [simp]: "lowest_fd xs \<notin> fst ` set xs"
proof -
  have "\<not> set [0..<Suc (length xs)] \<subseteq> fst ` set xs"
  proof
    assume "set [0..<Suc (length xs)] \<subseteq> fst ` set xs"
    from card_mono [OF _ this] have "card {0..<Suc (length xs)} \<le> card (fst ` set xs)" by simp
    moreover have "card (fst ` set xs) \<le> length xs" by (meson card_image_le card_length finite_set le_trans)
    ultimately show False by simp
  qed
  then have "filter (\<lambda>i. i \<notin> fst ` set xs) [0..<Suc (length xs)] \<noteq> []"
    unfolding filter_empty_conv subset_iff by blast
  then have "lowest_fd xs \<in> set (filter (\<lambda>i. i \<notin> fst ` set xs) [0..<Suc (length xs)])"
    unfolding lowest_fd_def by (rule hd_in_set)
  then show ?thesis unfolding set_filter by blast
qed

lemma lowest_fd_not_in [simp]: "(lowest_fd xs, d) \<notin> set xs"
proof
  assume "(lowest_fd xs, d) \<in> set xs"
  then have "lowest_fd xs \<in> fst ` set xs" by (rule image_eqI [rotated]) simp
  then show False by (simp only: lowest_fd_fresh not_True_eq_False)
qed

definition mod_fd :: "nat \<Rightarrow> (descr \<Rightarrow> descr) \<Rightarrow> (nat \<times> descr) list \<Rightarrow> (nat \<times> descr) list" where
  "mod_fd n g xs = map (\<lambda>p. if fst p = n then (n, g (snd p)) else p) xs"

definition drop_fd :: "nat \<Rightarrow> (nat \<times> descr) list \<Rightarrow> (nat \<times> descr) list" where
  "drop_fd n xs = filter (\<lambda>p. fst p \<noteq> n) xs"

lemma mod_fd_other: "n \<notin> fst ` set xs \<Longrightarrow> mod_fd n g xs = xs"
  unfolding mod_fd_def by (induction xs) auto

lemma drop_fd_other: "n \<notin> fst ` set xs \<Longrightarrow> drop_fd n xs = xs"
  unfolding drop_fd_def by (induction xs) auto

lemma mod_fd_Cons [simp]:
  "mod_fd n g ((n, e) # xs) = (n, g e) # mod_fd n g xs"
  "m \<noteq> n \<Longrightarrow> mod_fd n g ((m, e) # xs) = (m, e) # mod_fd n g xs"
  by (simp_all add: mod_fd_def)

lemma drop_fd_Cons [simp]:
  "drop_fd n ((n, e) # xs) = drop_fd n xs"
  "m \<noteq> n \<Longrightarrow> drop_fd n ((m, e) # xs) = (m, e) # drop_fd n xs"
  by (simp_all add: drop_fd_def)

lemma fresh_fd_simps [simp]:
  "mod_fd (lowest_fd xs) g xs = xs" "drop_fd (lowest_fd xs) xs = xs"
  by (simp_all add: mod_fd_other drop_fd_other)

text \<open>With two new descriptors, the second is not the first.\<close>

lemma lowest_fd_neq [simp]: "lowest_fd ((n, d) # xs) \<noteq> n" "n \<noteq> lowest_fd ((n, d) # xs)"
  using lowest_fd_fresh [of "(n, d) # xs"] by auto

lemma lowest_fd_neq2 [simp]: "lowest_fd ((m, e) # (n, d) # xs) \<noteq> n" "n \<noteq> lowest_fd ((m, e) # (n, d) # xs)"
  using lowest_fd_fresh [of "(m, e) # (n, d) # xs"] by auto

lemma fresh_fd_simps2 [simp]:
  "mod_fd (lowest_fd (p # xs)) g xs = xs" "drop_fd (lowest_fd (p # xs)) xs = xs"
  using lowest_fd_fresh [of "p # xs"] by (auto intro: mod_fd_other drop_fd_other)

definition new_fd :: "descr \<Rightarrow> int sys" where
  [sys_defs]: "new_fd d =
     do { f \<leftarrow> fails;
          lift_sys (\<lambda>k. if f then (- 1, k)
                        else (int (lowest_fd (fds k)), k\<lparr>fds := (lowest_fd (fds k), d) # fds k\<rparr>)) }"

text \<open>
  A call on a descriptor that returns 0 and changes what it stands for, or returns -1; a number that is not
  an open descriptor is an error, and \<open>close\<close> of one does nothing.
\<close>

definition is_open :: "int \<Rightarrow> kernel \<Rightarrow> bool" where
  "is_open n k \<longleftrightarrow> 0 \<le> n \<and> nat n \<in> fst ` set (fds k)"

definition change_fd :: "int \<Rightarrow> (descr \<Rightarrow> descr) \<Rightarrow> int sys" where
  [sys_defs]: "change_fd n g =
     do { f \<leftarrow> fails;
          lift_sys (\<lambda>k. if f \<or> \<not> is_open n k then (- 1, k) else (0, k\<lparr>fds := mod_fd (nat n) g (fds k)\<rparr>)) }"

definition close :: "int \<Rightarrow> unit sys" where
  [sys_defs]: "close n = update_kernel (\<lambda>k. if is_open n k then k\<lparr>fds := drop_fd (nat n) (fds k)\<rparr> else k)"

lemma is_open_simps [simp]:
  "fds k = (n, d) # xs \<Longrightarrow> is_open (int n) k" "\<not> is_open (- 1) k"
  by (simp_all add: is_open_def)

lemma is_open_neg: "n < 0 \<Longrightarrow> \<not> is_open n k"
  by (simp add: is_open_def)

definition no_effect :: "int sys" where
  [sys_defs]: "no_effect = do { f \<leftarrow> fails; State_Monad.return (if f then - 1 else 0) }"

text \<open>\<open>unlink\<close>, \<open>mq_unlink\<close>, \<open>shm_unlink\<close> and \<open>sem_unlink\<close>: the callers here ignore the result.\<close>

definition unlink :: "string \<Rightarrow> unit sys" where
  [sys_defs]: "unlink n =
     do { f \<leftarrow> fails; lift_sys (\<lambda>k. if f then ((), k) else ((), k\<lparr>names := (names k)(n := None)\<rparr>)) }"

text \<open>Open with \<open>O_CREAT\<close>: an existing object is opened as it is, otherwise a new one is made.\<close>

definition create_name :: "string \<Rightarrow> unit sys" where
  [sys_defs]: "create_name n =
     update_kernel (\<lambda>k. k\<lparr>names := (names k)(n := Some (case names k n of None \<Rightarrow> Fresh | Some a \<Rightarrow> a))\<rparr>)"

definition open_creat :: "string \<Rightarrow> descr \<Rightarrow> int sys" where
  [sys_defs]: "open_creat n d =
     do { fd \<leftarrow> new_fd d; if fd < 0 then State_Monad.return fd else do { create_name n; State_Monad.return fd } }"

text \<open>\<open>bind\<close> of a Unix socket makes a name, and fails when the name exists.\<close>

definition bind_path :: "int \<Rightarrow> string \<Rightarrow> int sys" where
  [sys_defs]: "bind_path fd n =
     do { f \<leftarrow> fails;
          lift_sys (\<lambda>k. if f \<or> names k n \<noteq> None then (- 1, k)
                        else (0, k\<lparr>names := (names k)(n := Some Fresh)\<rparr>)) }"

text \<open>
  A function that may end the process returns \<open>Inl\<close> the exit status or \<open>Inr\<close> its result.
\<close>

definition exit_with :: "int \<Rightarrow> (int + 'a) sys" where
  [sys_defs]: "exit_with c = State_Monad.return (Inl c)"

definition result :: "'a \<Rightarrow> (int + 'a) sys" where
  [sys_defs]: "result x = State_Monad.return (Inr x)"

definition and_then :: "(int + 'a) sys \<Rightarrow> ('a \<Rightarrow> (int + 'b) sys) \<Rightarrow> (int + 'b) sys" where
  [sys_defs]: "and_then m f = do { r \<leftarrow> m; case r of Inl c \<Rightarrow> exit_with c | Inr x \<Rightarrow> f x }"

definition EXIT_FAILURE :: int where "EXIT_FAILURE = 1"

subsection \<open>Wait statuses\<close>

text \<open>The status of a child that called \<open>exit(n)\<close>, and of one that a signal killed, with the macros that read them.\<close>

definition exit_status :: "nat \<Rightarrow> 32 word" where "exit_status n = push_bit 8 (word_of_nat (n mod 256))"
definition killed_status :: "nat \<Rightarrow> 32 word" where "killed_status sig = word_of_nat sig"

definition WIFEXITED :: "32 word \<Rightarrow> bool" where "WIFEXITED w \<longleftrightarrow> w AND 0x7F = 0"
definition WEXITSTATUS :: "32 word \<Rightarrow> 32 word" where "WEXITSTATUS w = drop_bit 8 (w AND 0xFF00)"
definition WTERMSIG :: "32 word \<Rightarrow> 32 word" where "WTERMSIG w = w AND 0x7F"

lemma take_bit_word_of_nat: "m < 2 ^ n \<Longrightarrow> take_bit n (word_of_nat m :: 'a::len word) = word_of_nat m"
proof -
  assume "m < 2 ^ n"
  then have m: "take_bit n m = m" by (simp add: take_bit_nat_eq_self)
  have "bit m i \<longleftrightarrow> i < n \<and> bit m i" for i using m by (metis bit_take_bit_iff)
  then show ?thesis by (intro bit_word_eqI) (auto simp: bit_simps)
qed

lemma exit_status_macros: "WIFEXITED (exit_status n)" "WEXITSTATUS (exit_status n) = word_of_nat (n mod 256)"
proof -
  have t: "take_bit 8 (word_of_nat (n mod 256) :: 32 word) = word_of_nat (n mod 256)"
    by (rule take_bit_word_of_nat) simp
  have m: "w AND 0x7F = take_bit 7 w" "w AND 0xFF00 = push_bit 8 (take_bit 8 (drop_bit 8 w))" for w :: "32 word"
  proof -
    show "w AND 0x7F = take_bit 7 w" by (simp add: take_bit_eq_mask mask_eq_exp_minus_1)
    have f: "(0xFF00 :: 32 word) = push_bit 8 (mask 8)" by (simp add: mask_eq_exp_minus_1 push_bit_eq_mult)
    show "w AND 0xFF00 = push_bit 8 (take_bit 8 (drop_bit 8 w))"
      unfolding f by (rule bit_word_eqI) (auto simp: bit_simps)
  qed
  show "WIFEXITED (exit_status n)"
    unfolding WIFEXITED_def exit_status_def m by (rule bit_word_eqI) (auto simp: bit_simps)
  have "drop_bit 8 (push_bit 8 (take_bit 8 (drop_bit 8 (push_bit 8 (take_bit 8 x))))) = take_bit 8 x" for x :: "32 word"
    by (rule bit_word_eqI) (auto simp: bit_simps)
  then show "WEXITSTATUS (exit_status n) = word_of_nat (n mod 256)"
    unfolding WEXITSTATUS_def exit_status_def m by (metis t)
qed

lemma killed_status_macros:
  assumes "0 < sig" "sig < 128"
  shows "\<not> WIFEXITED (killed_status sig)" "WTERMSIG (killed_status sig) = word_of_nat sig"
proof -
  have "(word_of_nat sig :: 32 word) AND 0x7F = take_bit 7 (word_of_nat sig)"
    by (simp add: take_bit_eq_mask mask_eq_exp_minus_1)
  also have "\<dots> = word_of_nat sig" using assms by (intro take_bit_word_of_nat) simp
  finally have e: "(word_of_nat sig :: 32 word) AND 0x7F = word_of_nat sig" .
  have "unat (word_of_nat sig :: 32 word) = sig" using assms by (simp add: unat_of_nat)
  then have "(word_of_nat sig :: 32 word) \<noteq> 0" using assms by auto
  with e show "\<not> WIFEXITED (killed_status sig)" "WTERMSIG (killed_status sig) = word_of_nat sig"
    by (simp_all add: WIFEXITED_def WTERMSIG_def killed_status_def)
qed

end
