(* ===== verification/Stdio_Read.thy ===== *)
theory Stdio_Read
  imports Prelude
begin

text \<open>
  Reading a stream line by line with \<open>fgets\<close>, as the programs do that show the output of a command or send
  what is typed: a line longer than the buffer comes in pieces, and \<open>printf("%s")\<close> or \<open>strlen\<close> see a piece
  only up to its first NUL.
\<close>

definition NL :: char where "NL = CHR 0x0A"

text \<open>\<open>fgets_max m s\<close> takes at most \<open>m\<close> bytes, up to and including the first newline.\<close>

fun fgets_max :: "nat \<Rightarrow> string \<Rightarrow> string \<times> string" where
  "fgets_max 0 s = ([], s)"
| "fgets_max (Suc m) [] = ([], [])"
| "fgets_max (Suc m) (c # s) = (if c = NL then ([c], s) else apfst (Cons c) (fgets_max m s))"

definition fgets :: "nat \<Rightarrow> string \<Rightarrow> string \<times> string" where
  "fgets size0 s = fgets_max (size0 - 1) s"

lemma fgets_max_append: "fgets_max m s = (c, r) \<Longrightarrow> c @ r = s"
  by (induction m s arbitrary: c r rule: fgets_max.induct) (auto split: if_splits simp: apfst_def map_prod_def split: prod.splits)

lemma fgets_max_shorter: "0 < m \<Longrightarrow> s \<noteq> [] \<Longrightarrow> fgets_max m s = (c, r) \<Longrightarrow> c \<noteq> [] \<and> length r < length s"
proof -
  assume a: "0 < m" "s \<noteq> []" "fgets_max m s = (c, r)"
  then have n: "c \<noteq> []" by (cases m; cases s) (auto simp: apfst_def map_prod_def split: if_splits prod.splits)
  from fgets_max_append [OF a(3)] n show ?thesis by auto
qed

lemma fgets_max_piece:
  "fgets_max m s = (c, r) \<Longrightarrow> length c \<le> m \<and> NL \<notin> set (butlast c) \<and> (r \<noteq> [] \<longrightarrow> length c = m \<or> (c \<noteq> [] \<and> last c = NL))"
  by (induction m s arbitrary: c r rule: fgets_max.induct)
    (fastforce split: if_splits simp: apfst_def map_prod_def split: prod.splits)+

text \<open>The loop \<open>while (fgets(buf, size, fp) != NULL)\<close>: the pieces it gets, for a buffer of at least two bytes.\<close>

function fgets_all :: "nat \<Rightarrow> string \<Rightarrow> string list" where
  "fgets_all size0 s =
     (if s = [] \<or> size0 < 2 then []
      else case fgets size0 s of (c, r) \<Rightarrow> c # fgets_all size0 r)"
  by pat_completeness auto
termination
  by (relation "measure (\<lambda>(_, s). length s)") (auto simp: fgets_def dest!: fgets_max_shorter [rotated 2, OF sym])

declare fgets_all.simps [simp del]

lemma fgets_all_Nil [simp]: "fgets_all size0 [] = []"
  by (simp add: fgets_all.simps)

lemma fgets_all_step:
  "s \<noteq> [] \<Longrightarrow> 2 \<le> size0 \<Longrightarrow> fgets size0 s = (c, r) \<Longrightarrow> fgets_all size0 s = c # fgets_all size0 r"
  by (subst fgets_all.simps) simp

lemma fgets_all_concat: "2 \<le> size0 \<Longrightarrow> concat (fgets_all size0 s) = s"
proof (induction "length s" arbitrary: s rule: less_induct)
  case less
  show ?case
  proof (cases "s = []")
    case False
    obtain c r where f: "fgets size0 s = (c, r)" by fastforce
    with fgets_max_append have "c @ r = s" by (auto simp: fgets_def)
    moreover from f False less(2) have "length r < length s"
      using fgets_max_shorter [of "size0 - 1" s c r] by (simp add: fgets_def)
    ultimately show ?thesis using less f False by (simp add: fgets_all_step)
  qed simp
qed

lemma fgets_all_pieces:
  "2 \<le> size0 \<Longrightarrow> c \<in> set (fgets_all size0 s) \<Longrightarrow> c \<noteq> [] \<and> length c < size0 \<and> NL \<notin> set (butlast c)"
proof (induction "length s" arbitrary: s rule: less_induct)
  case less
  then have n: "s \<noteq> []" by auto
  obtain d r where f: "fgets size0 s = (d, r)" by fastforce
  then have d: "d \<noteq> []" "length r < length s" "length d \<le> size0 - 1" "NL \<notin> set (butlast d)"
    using fgets_max_shorter [of "size0 - 1" s d r] fgets_max_piece [of "size0 - 1" s d r] n less(2) by (simp_all add: fgets_def)
  show ?case
  proof (cases "c = d")
    case True
    with d less(2) show ?thesis by auto
  next
    case False
    with less.prems n f have "c \<in> set (fgets_all size0 r)" by (simp add: fgets_all_step)
    with less.hyps [OF d(2)] less(2) show ?thesis by blast
  qed
qed

text \<open>A text of lines that fit comes back line by line.\<close>

lemma fgets_max_line:
  "NL \<notin> set l \<Longrightarrow> length l < m \<Longrightarrow> fgets_max m (l @ NL # s) = (l @ [NL], s)"
  by (induction l arbitrary: m; case_tac m) auto

lemma fgets_all_lines:
  assumes "2 \<le> size0" "\<forall>l \<in> set ls. NL \<notin> set l \<and> length l + 1 < size0"
  shows "fgets_all size0 (concat (map (\<lambda>l. l @ [NL]) ls)) = map (\<lambda>l. l @ [NL]) ls"
  using assms(2)
proof (induction ls)
  case (Cons l ls)
  have "fgets size0 (l @ NL # concat (map (\<lambda>l. l @ [NL]) ls)) = (l @ [NL], concat (map (\<lambda>l. l @ [NL]) ls))"
    using Cons.prems assms(1) by (auto simp: fgets_def intro!: fgets_max_line)
  with Cons assms(1) show ?case by (simp add: fgets_all_step)
qed simp

end
