(* ===== verification/Server_Setup.thy ===== *)
theory Server_Setup
  imports Sys_Calls
begin

text \<open>
  The code that sets the servers up: the listening socket, the FIFO and the file watch of the telemetry
  server (\<open>seance6/project/main.c\<close>), the sockets, timer and epoll instance of the echo server
  (\<open>seance_4/server_epoll.c\<close>) and the start of \<open>seance_4/inotify.c\<close>. The lemmas say, for every choice of
  failing calls, which descriptors are open afterwards.
\<close>

subsection \<open>The telemetry server\<close>

definition make_listen_socket :: "int \<Rightarrow> int sys" where
  "make_listen_socket port =
     do { fd \<leftarrow> new_fd Plain_Socket;
          if fd < 0 then do { say (Perror ''socket''); State_Monad.return (- 1) }
          else do {
            _ \<leftarrow> no_effect;
            r \<leftarrow> change_fd fd (\<lambda>_. Bound (nat (port mod 65536)));
            if r < 0 then do { say (Perror ''bind''); close fd; State_Monad.return (- 1) }
            else do {
              r \<leftarrow> change_fd fd (\<lambda>_. Listening (nat (port mod 65536)) 8);
              if r < 0 then do { say (Perror ''listen''); close fd; State_Monad.return (- 1) }
              else State_Monad.return fd }}}"

text \<open>\<open>mkfifo\<close> returns -17 for \<open>EEXIST\<close> and -1 for another error.\<close>

definition mkfifo :: "string \<Rightarrow> int sys" where
  [sys_defs]: "mkfifo p =
     do { f \<leftarrow> fails;
          lift_sys (\<lambda>k. if f then (- 1, k) else if names k p \<noteq> None then (- 17, k)
                        else (0, k\<lparr>names := (names k)(p := Some Fresh)\<rparr>)) }"

definition open_fifo :: "string \<Rightarrow> int sys" where
  "open_fifo path =
     do { unlink path;
          r \<leftarrow> mkfifo path;
          if r < 0 \<and> r \<noteq> - 17 then do { say (Perror ''mkfifo''); State_Monad.return (- 1) }
          else do {
            fd \<leftarrow> new_fd (Fifo_Fd path);
            if fd < 0 then do { say (Perror ''open fifo''); State_Monad.return (- 1) }
            else State_Monad.return fd }}"

definition CONFIG_DIR :: string where "CONFIG_DIR = ''.''"

definition add_watch :: "string \<Rightarrow> descr \<Rightarrow> descr" where
  "add_watch p d = (case d of Inotify ps \<Rightarrow> Inotify (ps @ [p]) | _ \<Rightarrow> d)"

definition epoll_watch :: "int \<Rightarrow> descr \<Rightarrow> descr" where
  "epoll_watch n d = (case d of Epoll ws \<Rightarrow> Epoll (ws @ [nat n]) | _ \<Rightarrow> d)"

text \<open>
  The first lines of \<open>monitor_thread_fn\<close>, None for its early returns, and its last lines. The results of
  \<open>epoll_create1\<close> and \<open>epoll_ctl\<close> are not tested.
\<close>

definition monitor_setup :: "(int \<times> int) option sys" where
  "monitor_setup =
     do { ino_fd \<leftarrow> new_fd (Inotify []);
          if ino_fd < 0 then do { say (Perror ''inotify_init1''); State_Monad.return None }
          else do {
            wd \<leftarrow> change_fd ino_fd (add_watch CONFIG_DIR);
            if wd < 0 then do { say (Perror ''inotify_add_watch''); close ino_fd; State_Monad.return None }
            else do {
              epfd \<leftarrow> new_fd (Epoll []);
              _ \<leftarrow> change_fd epfd (epoll_watch ino_fd);
              State_Monad.return (Some (ino_fd, epfd)) }}}"

definition monitor_teardown :: "int \<times> int \<Rightarrow> unit sys" where
  "monitor_teardown p =
     (case p of (ino_fd, epfd) \<Rightarrow>
        do { close epfd; close ino_fd; say (Stdout ''[monitor] stopped'') })"

lemma make_listen_socket_run:
  assumes "run_state (make_listen_socket port) k = (fd, k')"
  shows "names k' = names k \<and> wire k' = wire k
    \<and> (if fd < 0 then fd = - 1 \<and> fds k' = fds k \<and> (\<exists>call. console k' = console k @ [Perror call])
       else nat fd \<notin> fst ` set (fds k) \<and> fds k' = (nat fd, Listening (nat (port mod 65536)) 8) # fds k
         \<and> console k' = console k)"
  using assms by (auto simp: make_listen_socket_def sys_defs split: if_splits)

lemma open_fifo_run:
  assumes "run_state (open_fifo path) k = (fd, k')"
  shows "wire k' = wire k
    \<and> (if fd < 0 then fd = - 1 \<and> fds k' = fds k \<and> (\<exists>call. console k' = console k @ [Perror call])
       else nat fd \<notin> fst ` set (fds k) \<and> fds k' = (nat fd, Fifo_Fd path) # fds k \<and> names k' path \<noteq> None)"
  using assms by (auto simp: open_fifo_def sys_defs split: if_splits)

text \<open>The watch thread gives back all its descriptors, even when \<open>epoll_create1\<close> or \<open>epoll_ctl\<close> failed unnoticed.\<close>

theorem monitor_no_leak:
  assumes "run_state monitor_setup k = (r, k1)"
  shows "case r of
      None \<Rightarrow> fds k1 = fds k
    | Some p \<Rightarrow> (nat (fst p), Inotify [CONFIG_DIR]) \<in> set (fds k1) \<and> fds (snd (run_state (monitor_teardown p) k1)) = fds k"
  using assms
  by (auto simp: monitor_setup_def monitor_teardown_def add_watch_def epoll_watch_def sys_defs is_open_def split: if_splits)

subsection \<open>The echo server\<close>

definition echo_listen_socket :: "int \<Rightarrow> (int + int) sys" where
  "echo_listen_socket port =
     do { fd \<leftarrow> new_fd Plain_Socket;
          if fd < 0 then do { say (Perror ''socket''); exit_with EXIT_FAILURE }
          else do {
            _ \<leftarrow> no_effect;
            r \<leftarrow> change_fd fd (\<lambda>_. Bound (nat (port mod 65536)));
            if r < 0 then do { say (Perror ''bind''); exit_with EXIT_FAILURE }
            else do {
              r \<leftarrow> change_fd fd (\<lambda>_. Listening (nat (port mod 65536)) 16);
              if r < 0 then do { say (Perror ''listen''); exit_with EXIT_FAILURE }
              else result fd }}}"

definition make_timer :: "nat \<Rightarrow> (int + int) sys" where
  "make_timer seconds =
     do { fd \<leftarrow> new_fd (Timer 0 0);
          if fd < 0 then do { say (Perror ''timerfd_create''); exit_with EXIT_FAILURE }
          else do {
            r \<leftarrow> change_fd fd (\<lambda>_. Timer seconds seconds);
            if r < 0 then do { say (Perror ''timerfd_settime''); exit_with EXIT_FAILURE }
            else result fd }}"

definition epoll_add :: "int \<Rightarrow> int \<Rightarrow> (int + unit) sys" where
  "epoll_add epfd fd =
     do { r \<leftarrow> change_fd epfd (epoll_watch fd);
          if r < 0 then do { say (Perror ''epoll_ctl ADD''); exit_with EXIT_FAILURE } else result () }"

text \<open>\<open>main\<close> up to its loop: the listening socket, the timer and the epoll instance.\<close>

definition echo_setup :: "int \<Rightarrow> (int + int \<times> int \<times> int) sys" where
  "echo_setup port =
     and_then (echo_listen_socket port) (\<lambda>listen_fd.
     and_then (make_timer 6) (\<lambda>timer_fd.
     do { epfd \<leftarrow> new_fd (Epoll []);
          if epfd < 0 then do { say (Perror ''epoll_create1''); exit_with EXIT_FAILURE }
          else and_then (epoll_add epfd listen_fd) (\<lambda>_.
               and_then (epoll_add epfd timer_fd) (\<lambda>_.
               do { say (Stdout ''[server] listening''); result (listen_fd, timer_fd, epfd) })) }))"

lemma echo_setup_run:
  assumes "run_state (echo_setup port) k = (Inr (listen_fd, timer_fd, epfd), k')"
  shows "fds k' = (nat epfd, Epoll [nat listen_fd, nat timer_fd]) # (nat timer_fd, Timer 6 6)
      # (nat listen_fd, Listening (nat (port mod 65536)) 16) # fds k
    \<and> distinct [nat epfd, nat timer_fd, nat listen_fd] \<and> 0 \<le> listen_fd \<and> 0 \<le> timer_fd \<and> 0 \<le> epfd"
  using assms
  by (auto simp: echo_setup_def echo_listen_socket_def make_timer_def epoll_add_def epoll_watch_def sys_defs
      split: if_splits)


lemma echo_setup_exit:
  assumes "run_state (echo_setup port) k = (Inl c, k')"
  shows "c = EXIT_FAILURE \<and> (\<exists>call. console k' = console k @ [Perror call])"
  using assms
  by (auto simp: echo_setup_def echo_listen_socket_def make_timer_def epoll_add_def epoll_watch_def sys_defs
      split: if_splits)

subsection \<open>The file watch\<close>

text \<open>What one \<open>read\<close> of the watch descriptor answers: a number of bytes, an interruption or an error.\<close>

datatype watch_read = Bytes_Read nat | Read_Interrupted | Read_Failed

text \<open>
  The loop of \<open>main\<close> in \<open>inotify.c\<close>: the batches handed to the event walk, and whether an error ended it;
  without an error the loop goes on, here until the answers run out.
\<close>

fun watch_loop :: "watch_read list \<Rightarrow> nat list \<times> bool" where
  "watch_loop [] = ([], False)"
| "watch_loop (Bytes_Read n # rs) = apfst (Cons n) (watch_loop rs)"
| "watch_loop (Read_Interrupted # rs) = watch_loop rs"
| "watch_loop (Read_Failed # rs) = ([], True)"

definition inotify_main :: "string list \<Rightarrow> watch_read list \<Rightarrow> (int + nat list) sys" where
  "inotify_main argv reads =
     (if length argv \<noteq> 2 then do { say (Stderr ''usage''); exit_with 1 }
      else do {
        fd \<leftarrow> new_fd (Inotify []);
        if fd < 0 then do { say (Perror ''inotify_init''); exit_with 1 }
        else do {
          wd \<leftarrow> change_fd fd (add_watch (argv ! 1));
          if wd < 0 then do { say (Perror ''inotify_add_watch''); close fd; exit_with 1 }
          else do {
            say (Stdout (''watching '' @ argv ! 1));
            if snd (watch_loop reads) then do { say (Perror ''read''); close fd; exit_with 1 }
            else result (fst (watch_loop reads)) }}})"

text \<open>An interrupted read loses no batch.\<close>

lemma watch_loop_batches:
  "Read_Failed \<notin> set reads \<Longrightarrow>
     watch_loop reads = (concat (map (\<lambda>r. case r of Bytes_Read n \<Rightarrow> [n] | _ \<Rightarrow> []) reads), False)"
  by (induction reads rule: watch_loop.induct) auto

lemma inotify_main_exit:
  assumes "run_state (inotify_main argv reads) k = (Inl c, k')"
  shows "c = 1 \<and> fds k' = fds k"
  using assms by (auto simp: inotify_main_def add_watch_def sys_defs split: if_splits)

end
