(* ===== verification/Ipc_Startup.thy ===== *)
theory Ipc_Startup
  imports Sys_Calls
begin

text \<open>
  Start and end of \<open>process/project/backend.c\<close>: the objects that \<open>main\<close> makes under fixed names before its
  loop, and what it removes after it. The loop itself is in \<open>Ipc_Server\<close>.
\<close>

definition MQ_NAME :: string where "MQ_NAME = ''/edu_ipc_mq''"
definition SHM_NAME :: string where "SHM_NAME = ''/edu_ipc_shm''"
definition SEM_NAME :: string where "SEM_NAME = ''/edu_ipc_sem''"
definition SOCK_PATH :: string where "SOCK_PATH = ''/tmp/edu_ipc.sock''"

definition ipc_names :: "string list" where "ipc_names = [MQ_NAME, SHM_NAME, SEM_NAME, SOCK_PATH]"

lemmas ipc_name_defs = MQ_NAME_def SHM_NAME_def SEM_NAME_def SOCK_PATH_def

lemma ipc_names_distinct [simp]:
  "MQ_NAME \<noteq> SHM_NAME" "MQ_NAME \<noteq> SEM_NAME" "MQ_NAME \<noteq> SOCK_PATH" "SHM_NAME \<noteq> SEM_NAME"
  "SHM_NAME \<noteq> SOCK_PATH" "SEM_NAME \<noteq> SOCK_PATH" "SHM_NAME \<noteq> MQ_NAME" "SEM_NAME \<noteq> MQ_NAME"
  "SOCK_PATH \<noteq> MQ_NAME" "SEM_NAME \<noteq> SHM_NAME" "SOCK_PATH \<noteq> SHM_NAME" "SOCK_PATH \<noteq> SEM_NAME"
  by (simp_all add: ipc_name_defs)

record ipc_objects =
  mq :: int
  shm_fd :: int
  listen_fd :: int

text \<open>\<open>sem_open\<close> maps the semaphore and keeps no descriptor.\<close>

definition sem_open :: "string \<Rightarrow> int sys" where
  [sys_defs]: "sem_open n =
     do { f \<leftarrow> fails;
          if f then State_Monad.return (- 1) else do { create_name n; State_Monad.return 0 } }"

text \<open>One \<open>perror\<close> and \<open>exit(1)\<close>.\<close>

definition die :: "string \<Rightarrow> (int + 'a) sys" where
  [sys_defs]: "die call = do { say (Perror call); exit_with 1 }"

text \<open>The parts of \<open>main\<close> before its loop, in the order of the code.\<close>

definition open_queue :: "(int + int) sys" where
  "open_queue =
     do { r \<leftarrow> no_effect;
          if r = - 1 then die ''sigaction''
          else do {
            unlink MQ_NAME;
            q \<leftarrow> open_creat MQ_NAME (Queue_Fd MQ_NAME);
            if q = - 1 then do {
              say (Perror ''mq_open''); say (Stderr ''Hint: on WSL, POSIX message queues may need a mount''); exit_with 1 }
            else result q }}"

definition open_shm :: "(int + int) sys" where
  "open_shm =
     do { unlink SHM_NAME;
          fd \<leftarrow> open_creat SHM_NAME (Shm_Fd SHM_NAME);
          if fd = - 1 then die ''shm_open''
          else do {
            r \<leftarrow> no_effect;
            if r = - 1 then die ''ftruncate''
            else do {
              r \<leftarrow> no_effect;
              if r = - 1 then die ''mmap''
              else do {
                unlink SEM_NAME;
                r \<leftarrow> sem_open SEM_NAME;
                if r = - 1 then die ''sem_open'' else result fd }}}}"

definition open_socket :: "(int + int) sys" where
  "open_socket =
     do { unlink SOCK_PATH;
          fd \<leftarrow> new_fd Plain_Socket;
          if fd = - 1 then die ''socket''
          else do {
            r \<leftarrow> bind_path fd SOCK_PATH;
            if r = - 1 then die ''bind''
            else do {
              r \<leftarrow> change_fd fd (\<lambda>_. Unix_Listening SOCK_PATH 8);
              if r = - 1 then die ''listen'' else do { _ \<leftarrow> no_effect; result fd } }}}"

definition ipc_setup :: "(int + ipc_objects) sys" where
  "ipc_setup =
     and_then open_queue (\<lambda>q.
     and_then open_shm (\<lambda>m.
     and_then open_socket (\<lambda>s. result \<lparr>mq = q, shm_fd = m, listen_fd = s\<rparr>)))"

fun close_clients :: "int list \<Rightarrow> unit sys" where
  "close_clients [] = State_Monad.return ()"
| "close_clients (c # cs) =
     do { (if c \<noteq> - 1 then close c else State_Monad.return ()); close_clients cs }"

text \<open>The lines after the loop; \<open>clients\<close> is the client table.\<close>

definition ipc_cleanup :: "ipc_objects \<Rightarrow> int list \<Rightarrow> unit sys" where
  "ipc_cleanup ob clients =
     do { say (Stdout ''Shutting down, cleaning up IPC objects...'');
          close (mq ob); unlink MQ_NAME;
          close (shm_fd ob); unlink SHM_NAME;
          unlink SEM_NAME;
          close_clients clients;
          close (listen_fd ob); unlink SOCK_PATH }"

text \<open>What each part does, whatever fails: the names of the others are not touched.\<close>

lemma open_queue_run:
  "case run_state open_queue k of (r, k') \<Rightarrow>
    (\<forall>n. n \<noteq> MQ_NAME \<longrightarrow> names k' n = names k n)
    \<and> (case r of Inl c \<Rightarrow> c = 1
       | Inr q \<Rightarrow> q = int (lowest_fd (fds k)) \<and> fds k' = (lowest_fd (fds k), Queue_Fd MQ_NAME) # fds k)"
  by (simp add: open_queue_def sys_defs)

lemma open_shm_run:
  "case run_state open_shm k of (r, k') \<Rightarrow>
    (\<forall>n. n \<noteq> SHM_NAME \<and> n \<noteq> SEM_NAME \<longrightarrow> names k' n = names k n)
    \<and> (case r of Inl c \<Rightarrow> c = 1
       | Inr m \<Rightarrow> m = int (lowest_fd (fds k)) \<and> fds k' = (lowest_fd (fds k), Shm_Fd SHM_NAME) # fds k)"
  by (simp add: open_shm_def sys_defs)

lemma open_socket_run:
  "case run_state open_socket k of (r, k') \<Rightarrow>
    (\<forall>n. n \<noteq> SOCK_PATH \<longrightarrow> names k' n = names k n)
    \<and> (case r of Inl c \<Rightarrow> c = 1
       | Inr s \<Rightarrow> s = int (lowest_fd (fds k)) \<and> fds k' = (lowest_fd (fds k), Unix_Listening SOCK_PATH 8) # fds k
           \<and> names k' SOCK_PATH = Some Fresh)"
  by (simp add: open_socket_def sys_defs is_open_def)

text \<open>When nothing fails, the parts end well and their objects are new.\<close>

lemma open_queue_ok:
  "faults k = [] \<Longrightarrow> \<exists>q k'. run_state open_queue k = (Inr q, k') \<and> faults k' = [] \<and> names k' MQ_NAME = Some Fresh"
  by (simp add: open_queue_def sys_defs next_fault_def)

lemma open_shm_ok:
  "faults k = [] \<Longrightarrow> \<exists>m k'. run_state open_shm k = (Inr m, k') \<and> faults k' = []
     \<and> names k' SHM_NAME = Some Fresh \<and> names k' SEM_NAME = Some Fresh"
  by (simp add: open_shm_def sys_defs next_fault_def)

lemma open_socket_ok:
  "faults k = [] \<Longrightarrow> \<exists>s k'. run_state open_socket k = (Inr s, k') \<and> faults k' = [] \<and> names k' SOCK_PATH = Some Fresh"
  by (simp add: open_socket_def sys_defs next_fault_def is_open_def)

text \<open>The state in which the loop starts.\<close>

definition ipc_ready :: "kernel \<Rightarrow> ipc_objects \<Rightarrow> kernel \<Rightarrow> bool" where
  "ipc_ready k ob k' \<longleftrightarrow>
     fds k' = (nat (listen_fd ob), Unix_Listening SOCK_PATH 8) # (nat (shm_fd ob), Shm_Fd SHM_NAME)
       # (nat (mq ob), Queue_Fd MQ_NAME) # fds k
     \<and> distinct [mq ob, shm_fd ob, listen_fd ob] \<and> 0 \<le> mq ob \<and> 0 \<le> shm_fd ob \<and> 0 \<le> listen_fd ob
     \<and> {nat (mq ob), nat (shm_fd ob), nat (listen_fd ob)} \<inter> fst ` set (fds k) = {}
     \<and> (\<forall>n. n \<notin> set ipc_names \<longrightarrow> names k' n = names k n)"

lemma ipc_setup_run:
  assumes "run_state ipc_setup k = (r, k')"
  shows "case r of Inl c \<Rightarrow> c = 1 \<and> (\<forall>n. n \<notin> set ipc_names \<longrightarrow> names k' n = names k n) | Inr ob \<Rightarrow> ipc_ready k ob k'"
proof -
  obtain r1 k1 where q: "run_state open_queue k = (r1, k1)" by fastforce
  obtain r2 k2 where m: "run_state open_shm k1 = (r2, k2)" by fastforce
  obtain r3 k3 where s: "run_state open_socket k2 = (r3, k3)" by fastforce
  show ?thesis
  proof (cases r1)
    case (Inl c)
    with assms q open_queue_run [of k] show ?thesis by (auto simp: ipc_setup_def sys_defs ipc_names_def)
  next
    case r1: (Inr qd)
    show ?thesis
    proof (cases r2)
      case (Inl c)
      with assms q m r1 open_queue_run [of k] open_shm_run [of k1] show ?thesis
        by (auto simp: ipc_setup_def sys_defs ipc_names_def)
    next
      case r2: (Inr md)
      show ?thesis
      proof (cases r3)
        case (Inl c)
        with assms q m s r1 r2 open_queue_run [of k] open_shm_run [of k1] open_socket_run [of k2] show ?thesis
          by (auto simp: ipc_setup_def sys_defs ipc_names_def)
      next
        case r3: (Inr sd)
        have e: "r = Inr \<lparr>mq = qd, shm_fd = md, listen_fd = sd\<rparr>" "k' = k3"
          using assms q m s r1 r2 r3 by (simp_all add: ipc_setup_def sys_defs)
        show ?thesis
          using open_queue_run [of k] open_shm_run [of k1] open_socket_run [of k2] q m s r1 r2 r3
            lowest_fd_fresh [of "fds k"] lowest_fd_fresh [of "fds k1"] lowest_fd_fresh [of "fds k2"]
          by (auto simp: e ipc_ready_def ipc_names_def)
      qed
    qed
  qed
qed

lemma close_run:
  "run_state (close n) k = ((), k\<lparr>fds := filter (\<lambda>p. int (fst p) \<noteq> n) (fds k)\<rparr>)"
proof (cases "is_open n k")
  case True
  then have "(\<lambda>p. fst p \<noteq> nat n) = (\<lambda>p :: nat \<times> descr. int (fst p) \<noteq> n)" by (auto simp: is_open_def)
  with True show ?thesis by (simp add: sys_defs drop_fd_def)
next
  case False
  then have "filter (\<lambda>p. int (fst p) \<noteq> n) (fds k) = fds k" by (force simp: is_open_def filter_id_conv)
  with False show ?thesis by (simp add: sys_defs)
qed

lemma close_clients_run:
  "run_state (close_clients cs) k = ((), k\<lparr>fds := filter (\<lambda>p. int (fst p) \<notin> set cs) (fds k)\<rparr>)"
proof (induction cs arbitrary: k)
  case (Cons c cs)
  have "filter (\<lambda>p. int (fst p) \<notin> insert (- 1) A) xs = filter (\<lambda>p. int (fst p) \<notin> A) xs" for xs :: "(nat \<times> descr) list" and A
    by (rule filter_cong) auto
  with Cons show ?case by (auto simp: close_run conj_commute)
qed simp

lemma unlink_ok: "faults k = [] \<Longrightarrow> run_state (unlink n) k = ((), k\<lparr>names := (names k)(n := None)\<rparr>)"
  by (simp add: sys_defs next_fault_def)

lemma ipc_cleanup_run:
  assumes "faults k = []"
  shows "fds (snd (run_state (ipc_cleanup ob tbl) k))
      = filter (\<lambda>p. int (fst p) \<notin> {mq ob, shm_fd ob, listen_fd ob} \<union> set tbl) (fds k)
    \<and> names (snd (run_state (ipc_cleanup ob tbl) k)) = (\<lambda>n. if n \<in> set ipc_names then None else names k n)"
proof -
  obtain k1 where s: "run_state (say (Stdout ''Shutting down, cleaning up IPC objects...'')) k = ((), k1)"
    "faults k1 = []" "fds k1 = fds k" "names k1 = names k" using assms by (simp add: sys_defs)
  show ?thesis
    unfolding ipc_cleanup_def
    by (simp add: s close_run close_clients_run unlink_ok ipc_names_def fun_eq_iff)
      (rule filter_cong, auto)
qed

text \<open>C35: The IPC server starts whatever earlier runs have left under its four names, and with objects of its own: a
  stale queue, memory, semaphore or socket is replaced, never reused. When the loop ends the program gives
  back every descriptor, the clients' included, and none of the four names is left; other names are not
  touched.\<close>

theorem ipc_server_restarts:
  assumes "faults k = []"
  shows "\<exists>ob k1. run_state ipc_setup k = (Inr ob, k1) \<and> (\<forall>n \<in> set ipc_names. names k1 n = Some Fresh)
    \<and> (\<forall>cs tbl k2. fds k2 = map (\<lambda>c. (c, Connected)) cs @ fds k1 \<and> names k2 = names k1 \<and> faults k2 = []
        \<and> int ` set cs \<subseteq> set tbl \<and> set tbl \<inter> int ` fst ` set (fds k1) = {} \<longrightarrow>
        (let k3 = snd (run_state (ipc_cleanup ob tbl) k2) in
         fds k3 = fds k \<and> names k3 = (\<lambda>n. if n \<in> set ipc_names then None else names k n)))"
proof -
  obtain q k1 where q: "run_state open_queue k = (Inr q, k1)" "faults k1 = []" "names k1 MQ_NAME = Some Fresh"
    using open_queue_ok [OF assms] by blast
  obtain m k2 where m: "run_state open_shm k1 = (Inr m, k2)" "faults k2 = []"
    "names k2 SHM_NAME = Some Fresh" "names k2 SEM_NAME = Some Fresh"
    using open_shm_ok [OF q(2)] by blast
  obtain s k3 where s: "run_state open_socket k2 = (Inr s, k3)" "faults k3 = []" "names k3 SOCK_PATH = Some Fresh"
    using open_socket_ok [OF m(2)] by blast
  let ?ob = "\<lparr>mq = q, shm_fd = m, listen_fd = s\<rparr>"
  have r: "run_state ipc_setup k = (Inr ?ob, k3)" using q m s by (simp add: ipc_setup_def sys_defs)
  have f: "\<forall>n \<in> set ipc_names. names k3 n = Some Fresh"
    using q m s open_shm_run [of k1] open_socket_run [of k2] by (auto simp: ipc_names_def)
  have rd: "ipc_ready k ?ob k3" using ipc_setup_run [OF r] by simp
  have c: "fds k5 = fds k \<and> names k5 = (\<lambda>n. if n \<in> set ipc_names then None else names k n)"
    if t: "fds k4 = map (\<lambda>c. (c, Connected)) cs @ fds k3" "names k4 = names k3" "faults k4 = []"
      "int ` set cs \<subseteq> set tbl" "set tbl \<inter> int ` fst ` set (fds k3) = {}"
      and k5: "k5 = snd (run_state (ipc_cleanup ?ob tbl) k4)" for cs tbl k4 k5
  proof -
    have keep: "filter (\<lambda>p. int (fst p) \<notin> {q, m, s} \<union> set tbl) (fds k) = fds k"
      unfolding filter_id_conv
    proof
      fix p assume p: "p \<in> set (fds k)"
      then have "fst p \<in> fst ` set (fds k)" by (rule imageI)
      moreover have "nat q \<notin> fst ` set (fds k)" "nat m \<notin> fst ` set (fds k)" "nat s \<notin> fst ` set (fds k)"
        using rd by (simp_all add: ipc_ready_def)
      ultimately have "fst p \<noteq> nat q" "fst p \<noteq> nat m" "fst p \<noteq> nat s" by metis+
      moreover have "int (fst p) \<in> int ` fst ` set (fds k3)" using rd p by (simp add: ipc_ready_def)
      then have "int (fst p) \<notin> set tbl" using t(5) by blast
      ultimately show "int (fst p) \<notin> {q, m, s} \<union> set tbl" using rd by (auto simp: ipc_ready_def)
    qed
    have gone: "filter (\<lambda>p. int (fst p) \<notin> {q, m, s} \<union> set tbl) (map (\<lambda>c. (c, Connected)) cs) = []"
      unfolding filter_empty_conv using t(4) by auto
    have "fds k5 = filter (\<lambda>p. int (fst p) \<notin> {q, m, s} \<union> set tbl) (fds k4)"
      "names k5 = (\<lambda>n. if n \<in> set ipc_names then None else names k4 n)"
      using ipc_cleanup_run [OF t(3), of ?ob tbl] by (simp_all add: k5)
    moreover have "filter (\<lambda>p. int (fst p) \<notin> {q, m, s} \<union> set tbl) (fds k4) = fds k"
      using rd keep gone t(1) by (simp add: ipc_ready_def)
    moreover have "(\<lambda>n. if n \<in> set ipc_names then None else names k4 n) = (\<lambda>n. if n \<in> set ipc_names then None else names k n)"
      using rd t(2) by (simp add: ipc_ready_def fun_eq_iff)
    ultimately show ?thesis by simp
  qed
  show ?thesis
    by (rule exI [of _ ?ob], rule exI [of _ k3]) (simp add: r f, auto simp: Let_def dest: c)
qed

definition after_crash :: kernel where
  "after_crash = \<lparr>faults = [], fds = [(0, Connected), (1, Connected)], names = (\<lambda>n. if n = SOCK_PATH \<or> n = ''/other'' then Some Left_Over else None),
     console = [], wire = []\<rparr>"

theorem ipc_server_restarts_witness:
  "\<exists>ob k1. run_state ipc_setup after_crash = (Inr ob, k1) \<and> (\<forall>n \<in> set ipc_names. names k1 n = Some Fresh)
    \<and> (\<forall>cs tbl k2. fds k2 = map (\<lambda>c. (c, Connected)) cs @ fds k1 \<and> names k2 = names k1 \<and> faults k2 = []
        \<and> int ` set cs \<subseteq> set tbl \<and> set tbl \<inter> int ` fst ` set (fds k1) = {} \<longrightarrow>
        (let k3 = snd (run_state (ipc_cleanup ob tbl) k2) in
         fds k3 = fds after_crash \<and> names k3 = (\<lambda>n. if n \<in> set ipc_names then None else names after_crash n)))"
  by (rule ipc_server_restarts) (simp add: after_crash_def)

text \<open>
  A start that fails ends the process without removing what it has made: here \<open>bind\<close> fails, and the queue,
  the memory and the semaphore stay behind (until the next start replaces them).
\<close>

lemma ipc_failed_start_leaves_objects:
  "case run_state ipc_setup (after_crash\<lparr>faults := replicate 11 False @ [True]\<rparr>) of
     (r, k1) \<Rightarrow> r = Inl 1 \<and> names k1 MQ_NAME = Some Fresh \<and> names k1 SHM_NAME = Some Fresh \<and> names k1 SEM_NAME = Some Fresh"
  by code_simp

end
