(* ===== verification/Docker_Servers.thy ===== *)
theory Docker_Servers
  imports Server_Setup Socket_Servers Stdio_Read
begin

text \<open>
  The two servers of \<open>seance_4/docker/server.c\<close> and \<open>seance_4/docker2/server.c\<close>: each forks a child that
  shows a directory listing, and answers every connection with one fixed text. The first waits for its
  child before it serves, the second looks after it between two connections (\<open>check_child\<close> of
  \<open>Socket_Servers\<close>). A printed line is its text without the newline.
\<close>

definition PORT :: nat where "PORT = 8080"

definition response :: string where "response = ''Hello from Arch Linux Docker container!'' @ [NL]"

fun say_all :: "line list \<Rightarrow> unit sys" where
  "say_all [] = State_Monad.return ()"
| "say_all (l # ls) = do { say l; say_all ls }"

subsection \<open>The child\<close>

text \<open>
  \<open>popen\<close> runs \<open>ls -l\<close>, whose output is the argument; the result is the exit status of the child.
\<close>

definition docker1_child :: "int \<Rightarrow> string \<Rightarrow> int sys" where
  "docker1_child my_pid listing =
     do { say (Stderr (''[CHILD] PID='' @ dec_int my_pid));
          fp \<leftarrow> no_effect;
          if fp < 0 then do { say (Perror ''popen''); State_Monad.return 1 }
          else do {
            say (Stderr ''[CHILD] popen succeeded'');
            say_all (map (\<lambda>piece. Stderr (''[CHILD] '' @ cstr piece)) (fgets_all 256 listing));
            say (Stderr ''[CHILD] ls finished'');
            State_Monad.return 0 }}"

definition docker2_child :: "int \<Rightarrow> int \<Rightarrow> string \<Rightarrow> int \<Rightarrow> int sys" where
  "docker2_child my_pid parent listing ls_status =
     do { say (Stderr (''[CHILD] PID='' @ dec_int my_pid @ '', PPID='' @ dec_int parent));
          fp \<leftarrow> no_effect;
          if fp < 0 then do { say (Perror ''[CHILD] popen''); State_Monad.return 1 }
          else do {
            say (Stderr ''[CHILD] popen() succeeded'');
            say_all (map (\<lambda>piece. Stderr (''[CHILD] '' @ cstr piece)) (fgets_all 256 listing));
            closed \<leftarrow> no_effect;
            if closed = - 1 then do { say (Perror ''[CHILD] pclose''); State_Monad.return 1 }
            else do {
              say (Stderr (''[CHILD] ls finished, status='' @ dec_int ls_status));
              State_Monad.return 0 }}}"

subsection \<open>The parent until it serves\<close>

definition docker1_setup :: "int \<Rightarrow> (int + int) sys" where
  "docker1_setup my_pid =
     do { say (Stderr (''[PARENT] PID='' @ dec_int my_pid));
          server_fd \<leftarrow> new_fd Plain_Socket;
          if server_fd < 0 then do { say (Perror ''socket''); exit_with 1 }
          else do {
            say (Stderr ''[PARENT] socket created'');
            _ \<leftarrow> no_effect;
            r \<leftarrow> change_fd server_fd (\<lambda>_. Bound PORT);
            if r < 0 then do { say (Perror ''bind''); close server_fd; exit_with 1 }
            else do {
              say (Stderr ''[PARENT] bind successful'');
              r \<leftarrow> change_fd server_fd (\<lambda>_. Listening PORT 5);
              if r < 0 then do { say (Perror ''listen''); close server_fd; exit_with 1 }
              else do {
                say (Stderr (''[PARENT] Server listening on port '' @ dec_nat PORT));
                result server_fd }}}}"

definition docker2_setup :: "int \<Rightarrow> int \<Rightarrow> (int + int) sys" where
  "docker2_setup my_pid child_of =
     do { say (Stderr (''[PARENT] PID='' @ dec_int my_pid @ '', CHILD PID='' @ dec_int child_of));
          server_fd \<leftarrow> new_fd Plain_Socket;
          if server_fd < 0 then do { say (Perror ''[PARENT] socket''); exit_with EXIT_FAILURE }
          else do {
            say (Stderr (''[PARENT] socket created: fd='' @ dec_int server_fd));
            r \<leftarrow> no_effect;
            if r < 0 then do { say (Perror ''[PARENT] setsockopt''); close server_fd; exit_with EXIT_FAILURE }
            else do {
              r \<leftarrow> change_fd server_fd (\<lambda>_. Bound PORT);
              if r < 0 then do { say (Perror ''[PARENT] bind''); close server_fd; exit_with EXIT_FAILURE }
              else do {
                say (Stderr (''[PARENT] bind successful: port='' @ dec_nat PORT));
                r \<leftarrow> change_fd server_fd (\<lambda>_. Listening PORT 5);
                if r < 0 then do { say (Perror ''[PARENT] listen''); close server_fd; exit_with EXIT_FAILURE }
                else do {
                  say (Stderr (''[PARENT] Server listening on 0.0.0.0:'' @ dec_nat PORT));
                  result server_fd }}}}}"

subsection \<open>One connection\<close>

text \<open>
  What the system answers in one turn of the loop. A write to a connection that the peer has reset raises
  SIGPIPE, which neither program handles: \<open>Pipe_Broken\<close> ends the process. \<open>child_ends\<close> is that the child
  ends before this turn.
\<close>

datatype accept_result = Accepted | Accept_Interrupted | Accept_Failed
datatype send_result = Sent nat | Send_Failed | Pipe_Broken

record docker_turn =
  child_ends :: "32 word option"
  accept_result :: accept_result
  send_result :: send_result

text \<open>The exit status a shell shows for a process that SIGPIPE killed.\<close>

definition killed_by_sigpipe :: int where "killed_by_sigpipe = 141"

definition send_to :: "int \<Rightarrow> string \<Rightarrow> send_result \<Rightarrow> (int + int) sys" where
  [sys_defs]: "send_to fd t r =
     (case r of
        Pipe_Broken \<Rightarrow> exit_with killed_by_sigpipe
      | Send_Failed \<Rightarrow> result (- 1)
      | Sent n \<Rightarrow> do { update_kernel (\<lambda>k. k\<lparr>wire := wire k @ [(nat fd, take n t)]\<rparr>); result (int (min n (length t))) })"

text \<open>\<open>accept\<close> with the answer given: a new descriptor, or -1.\<close>

definition accept_conn :: "accept_result \<Rightarrow> int sys" where
  [sys_defs]: "accept_conn a =
     lift_sys (\<lambda>k. if a = Accepted then (int (lowest_fd (fds k)), k\<lparr>fds := (lowest_fd (fds k), Connected) # fds k\<rparr>) else (- 1, k))"

definition docker1_turn :: "docker_turn \<Rightarrow> (int + unit) sys" where
  "docker1_turn t =
     do { say (Stderr ''[PARENT] Waiting for client...'');
          client_fd \<leftarrow> accept_conn (accept_result t);
          if client_fd < 0 then do { say (Perror ''accept''); result () }
          else do {
            say (Stderr ''[PARENT] Client connected'');
            and_then (send_to client_fd response (send_result t)) (\<lambda>_. do { close client_fd; result () }) }}"

text \<open>The lines about the end of the child, from the wait status; without a status they cannot be told.\<close>

definition end_line :: "32 word \<Rightarrow> line" where
  "end_line w = (if WIFEXITED w then Stderr (''[PARENT] Child exited with status='' @ dec_nat (unat (WEXITSTATUS w)))
                 else Stderr (''[PARENT] Child killed by signal='' @ dec_nat (unat (WTERMSIG w))))"

definition child_event :: "docker_turn \<Rightarrow> docker_server \<Rightarrow> docker_server" where
  "child_event t s =
     (case (child_ends t, child_state s) of (Some w, Running) \<Rightarrow> s\<lparr>child_state := Ended w\<rparr> | _ \<Rightarrow> s)"

definition docker2_turn :: "int \<Rightarrow> docker_turn \<Rightarrow> docker_server \<Rightarrow> (int + docker_server) sys" where
  "docker2_turn the_child t s =
     (let s1 = child_event t s; s2 = check_child the_child s1 in
      do { say_all (map end_line (List.map_filter id (drop (length (reports s1)) (reports s2))));
           say (Stderr ''[PARENT] Waiting for client...'');
           client_fd \<leftarrow> accept_conn (accept_result t);
           if client_fd < 0 then
             (if accept_result t = Accept_Interrupted then result s2
              else do { say (Perror ''[PARENT] accept''); result s2 })
           else do {
             say (Stderr (''[PARENT] Client connected: fd='' @ dec_int client_fd));
             and_then (send_to client_fd response (send_result t)) (\<lambda>ret.
             do { say (if ret < 0 then Perror ''[PARENT] send'' else Stderr (''[PARENT] Sent '' @ dec_int ret @ '' bytes''));
                  close client_fd;
                  say (Stderr ''[PARENT] Client disconnected'');
                  result s2 }) }})"

fun docker1_loop :: "docker_turn list \<Rightarrow> (int + unit) sys" where
  "docker1_loop [] = result ()"
| "docker1_loop (t # ts) = and_then (docker1_turn t) (\<lambda>_. docker1_loop ts)"

fun docker2_loop :: "int \<Rightarrow> docker_turn list \<Rightarrow> docker_server \<Rightarrow> (int + docker_server) sys" where
  "docker2_loop the_child [] s = result s"
| "docker2_loop the_child (t # ts) s = and_then (docker2_turn the_child t s) (docker2_loop the_child ts)"

subsection \<open>Both programs\<close>

text \<open>
  The parents after \<open>fork\<close> has returned \<open>child_of\<close>. The result True of the first: it serves; False: it is
  still in \<open>waitpid\<close>, as its child has not ended.
\<close>

definition docker1_main :: "int \<Rightarrow> int \<Rightarrow> bool \<Rightarrow> docker_turn list \<Rightarrow> (int + bool) sys" where
  "docker1_main my_pid child_of child_ended ts =
     do { say (Stderr ''[1] main started'');
          if child_of < 0 then do { say (Perror ''fork''); exit_with 1 }
          else and_then (docker1_setup my_pid) (\<lambda>server_fd.
            if \<not> child_ended then result False
            else do {
              say (Stderr ''[PARENT] Child finished'');
              and_then (docker1_loop ts) (\<lambda>_. result True) }) }"

definition docker2_main :: "int \<Rightarrow> int \<Rightarrow> docker_turn list \<Rightarrow> (int + docker_server) sys" where
  "docker2_main my_pid child_of ts =
     do { say (Stderr (''[MAIN] PID='' @ dec_int my_pid @ '' started''));
          if child_of < 0 then do { say (Perror ''fork''); exit_with EXIT_FAILURE }
          else and_then (docker2_setup my_pid child_of) (\<lambda>server_fd.
            docker2_loop child_of ts \<lparr>child_pid = child_of, child_state = Running, reports = []\<rparr>) }"

text \<open>What the clients get, each on the descriptor \<open>fd\<close> of its time, and whether SIGPIPE ends the server.\<close>

fun answers :: "nat \<Rightarrow> docker_turn list \<Rightarrow> (nat \<times> string) list \<times> bool" where
  "answers fd [] = ([], False)"
| "answers fd (t # ts) =
     (if accept_result t \<noteq> Accepted then answers fd ts
      else case send_result t of
             Pipe_Broken \<Rightarrow> ([], True)
           | Send_Failed \<Rightarrow> answers fd ts
           | Sent n \<Rightarrow> apfst (Cons (fd, take n response)) (answers fd ts))"

lemma say_all_run: "run_state (say_all ls) k = ((), k\<lparr>console := console k @ ls\<rparr>)"
  by (induction ls arbitrary: k) (simp_all add: sys_defs)

lemma and_then_run:
  "run_state (and_then m f) k = (case run_state m k of (Inl c, k') \<Rightarrow> (Inl c, k') | (Inr x, k') \<Rightarrow> run_state (f x) k')"
  by (simp add: sys_defs split: prod.splits sum.splits)

text \<open>The part of a turn that both servers share, as its effect on descriptors and connections.\<close>

definition turn_effect :: "docker_turn \<Rightarrow> (int + 'a) \<times> kernel \<Rightarrow> kernel \<Rightarrow> bool" where
  "turn_effect t res k \<longleftrightarrow>
     (case res of (r, k') \<Rightarrow>
        if accept_result t = Accepted \<and> send_result t = Pipe_Broken then r = Inl killed_by_sigpipe \<and> wire k' = wire k
        else (\<exists>x. r = Inr x) \<and> fds k' = fds k
          \<and> wire k' = wire k @ (case (accept_result t, send_result t) of
              (Accepted, Sent n) \<Rightarrow> [(lowest_fd (fds k), take n response)] | _ \<Rightarrow> []))"

lemma docker1_turn_effect: "turn_effect t (run_state (docker1_turn t) k) k"
  by (cases "accept_result t"; cases "send_result t")
    (simp_all add: turn_effect_def docker1_turn_def sys_defs is_open_def)

lemma docker2_turn_effect: "turn_effect t (run_state (docker2_turn the_child t s) k) k"
  by (cases "accept_result t"; cases "send_result t")
    (simp_all add: turn_effect_def docker2_turn_def Let_def say_all_run sys_defs is_open_def)

lemma docker1_loop_run:
  assumes "run_state (docker1_loop ts) k = (r, k')"
  shows "wire k' = wire k @ fst (answers (lowest_fd (fds k)) ts)
    \<and> (if snd (answers (lowest_fd (fds k)) ts) then r = Inl killed_by_sigpipe else (\<exists>x. r = Inr x) \<and> fds k' = fds k)"
  using assms
proof (induction ts arbitrary: k)
  case Nil
  then show ?case by (auto simp: sys_defs)
next
  case (Cons t ts)
  obtain r1 k1 where t: "run_state (docker1_turn t) k = (r1, k1)" by fastforce
  with docker1_turn_effect [of t k] have e: "turn_effect t (r1, k1) k" by simp
  show ?case
  proof (cases r1)
    case (Inl c)
    with e Cons.prems t show ?thesis by (auto simp: turn_effect_def and_then_run split: if_splits)
  next
    case (Inr x)
    with Cons.prems t have "run_state (docker1_loop ts) k1 = (r, k')" by (simp add: and_then_run)
    from Cons.IH [OF this] e Inr show ?thesis
      by (auto simp: turn_effect_def split: if_splits accept_result.splits send_result.splits)
  qed
qed

lemma docker2_loop_run:
  assumes "run_state (docker2_loop the_child ts s) k = (r, k')"
  shows "wire k' = wire k @ fst (answers (lowest_fd (fds k)) ts)
    \<and> (if snd (answers (lowest_fd (fds k)) ts) then r = Inl killed_by_sigpipe else (\<exists>x. r = Inr x) \<and> fds k' = fds k)"
  using assms
proof (induction ts arbitrary: s k)
  case Nil
  then show ?case by (auto simp: sys_defs)
next
  case (Cons t ts)
  obtain r1 k1 where t: "run_state (docker2_turn the_child t s) k = (r1, k1)" by fastforce
  with docker2_turn_effect [of t the_child s k] have e: "turn_effect t (r1, k1) k" by simp
  show ?case
  proof (cases r1)
    case (Inl c)
    with e Cons.prems t show ?thesis by (auto simp: turn_effect_def and_then_run split: if_splits)
  next
    case (Inr s1)
    with Cons.prems t have "run_state (docker2_loop the_child ts s1) k1 = (r, k')" by (simp add: and_then_run)
    from Cons.IH [OF this] e Inr show ?thesis
      by (auto simp: turn_effect_def split: if_splits accept_result.splits send_result.splits)
  qed
qed

lemma docker1_setup_run:
  "case run_state (docker1_setup p) k of (r, k') \<Rightarrow> wire k' = wire k
    \<and> (case r of Inl c \<Rightarrow> c = 1 \<and> fds k' = fds k
       | Inr fd \<Rightarrow> fd = int (lowest_fd (fds k)) \<and> fds k' = (lowest_fd (fds k), Listening PORT 5) # fds k)"
  by (simp add: docker1_setup_def sys_defs is_open_def)

lemma docker2_setup_run:
  "case run_state (docker2_setup p c) k of (r, k') \<Rightarrow> wire k' = wire k
    \<and> (case r of Inl c \<Rightarrow> c = EXIT_FAILURE \<and> fds k' = fds k
       | Inr fd \<Rightarrow> fd = int (lowest_fd (fds k)) \<and> fds k' = (lowest_fd (fds k), Listening PORT 5) # fds k)"
  by (simp add: docker2_setup_def sys_defs is_open_def)

text \<open>The first program ignores a failure of \<open>setsockopt\<close>; otherwise the two succeed together.\<close>

lemma docker_setups_agree:
  assumes "faults k1 = faults k2" "fds k1 = fds k2" "run_state (docker2_setup p c) k2 = (Inr fd, k2')"
  shows "\<exists>k1'. run_state (docker1_setup p) k1 = (Inr fd, k1')"
  using assms
  by (auto simp: docker1_setup_def docker2_setup_def sys_defs is_open_def next_fault_def split: if_splits)

lemma docker1_setup_ok: "faults k = [] \<Longrightarrow> \<exists>fd k'. run_state (docker1_setup p) k = (Inr fd, k')"
  by (simp add: docker1_setup_def sys_defs next_fault_def is_open_def)

lemma docker2_setup_ok: "faults k = [] \<Longrightarrow> \<exists>fd k'. run_state (docker2_setup p c) k = (Inr fd, k')"
  by (simp add: docker2_setup_def sys_defs next_fault_def is_open_def)

lemma docker2_main_run:
  assumes "0 \<le> child_of" "run_state (docker2_main p child_of ts) k = (Inr s, k')"
  shows "\<exists>fd k1. run_state (docker2_setup p child_of) (k\<lparr>console := console k @ [Stderr (''[MAIN] PID='' @ dec_int p @ '' started'')]\<rparr>) = (Inr fd, k1)
    \<and> wire k' = wire k @ fst (answers (lowest_fd (fds k1)) ts) \<and> \<not> snd (answers (lowest_fd (fds k1)) ts) \<and> fds k' = fds k1"
proof -
  let ?k0 = "k\<lparr>console := console k @ [Stderr (''[MAIN] PID='' @ dec_int p @ '' started'')]\<rparr>"
  have m: "run_state (docker2_main p child_of ts) k = run_state (and_then (docker2_setup p child_of)
      (\<lambda>server_fd. docker2_loop child_of ts \<lparr>child_pid = child_of, child_state = Running, reports = []\<rparr>)) ?k0"
    using assms(1) unfolding docker2_main_def by (simp add: say_def update_kernel_def lift_sys_def)
  obtain r1 k1 where s: "run_state (docker2_setup p child_of) ?k0 = (r1, k1)" by fastforce
  with docker2_setup_run [where p = p and c = child_of and k = ?k0] have w: "wire k1 = wire k" by simp
  from assms(2) m s obtain fd where r: "r1 = Inr fd"
    and l: "run_state (docker2_loop child_of ts \<lparr>child_pid = child_of, child_state = Running, reports = []\<rparr>) k1 = (Inr s, k')"
    by (cases r1) (simp_all add: and_then_run)
  from docker2_loop_run [OF l] w r s show ?thesis by (auto split: if_splits)
qed


lemma docker2_main_ok:
  assumes "0 \<le> child_of" "faults k = []" "\<not> snd (answers (lowest_fd ((lowest_fd (fds k), Listening PORT 5) # fds k)) ts)"
  shows "\<exists>s k2. run_state (docker2_main p child_of ts) k = (Inr s, k2)
    \<and> wire k2 = wire k @ fst (answers (lowest_fd ((lowest_fd (fds k), Listening PORT 5) # fds k)) ts)"
proof -
  let ?k2 = "k\<lparr>console := console k @ [Stderr (''[MAIN] PID='' @ dec_int p @ '' started'')]\<rparr>"
  obtain fd2 q2 where q2: "run_state (docker2_setup p child_of) ?k2 = (Inr fd2, q2)"
    using docker2_setup_ok [of ?k2 p child_of] assms(2) by auto
  have m2: "run_state (docker2_main p child_of ts) k = run_state (and_then (docker2_setup p child_of)
      (\<lambda>server_fd. docker2_loop child_of ts \<lparr>child_pid = child_of, child_state = Running, reports = []\<rparr>)) ?k2"
    using assms(1) unfolding docker2_main_def by (simp add: say_def update_kernel_def lift_sys_def)
  obtain r k2 where l: "run_state (docker2_loop child_of ts \<lparr>child_pid = child_of, child_state = Running, reports = []\<rparr>) q2 = (r, k2)"
    by fastforce
  have "run_state (docker2_main p child_of ts) k = (r, k2)" unfolding m2 and_then_run q2 by (simp add: l)
  then show ?thesis
    using docker2_setup_run [where p = p and c = child_of and k = ?k2] docker2_loop_run [OF l] q2 assms(3) by auto
qed

definition host :: kernel where
  "host = \<lparr>faults = [], fds = [(0, Connected), (1, Connected), (2, Connected)], names = (\<lambda>_. None), console = [], wire = []\<rparr>"

definition demo_turns :: "docker_turn list" where
  "demo_turns =
     [\<lparr>child_ends = Some 0, accept_result = Accepted, send_result = Sent 40\<rparr>,
      \<lparr>child_ends = None, accept_result = Accept_Interrupted, send_result = Send_Failed\<rparr>,
      \<lparr>child_ends = None, accept_result = Accepted, send_result = Send_Failed\<rparr>]"


text \<open>The first server serves nobody before its child has ended: with a child that never ends it sits in
  \<open>waitpid\<close> for good, its socket listening, and writes nothing to anybody; the second serves the same
  clients in that situation, provided none breaks its pipe.\<close>

theorem docker1_waits_for_child:
  assumes "0 \<le> child_of" "faults k = []" "\<not> snd (answers (lowest_fd ((lowest_fd (fds k), Listening PORT 5) # fds k)) ts)"
  shows "\<exists>k1 s k2. run_state (docker1_main p child_of False ts) k = (Inr False, k1) \<and> wire k1 = wire k
    \<and> fds k1 = (lowest_fd (fds k), Listening PORT 5) # fds k
    \<and> run_state (docker2_main p child_of ts) k = (Inr s, k2)
    \<and> wire k2 = wire k @ fst (answers (lowest_fd ((lowest_fd (fds k), Listening PORT 5) # fds k)) ts)"
proof -
  let ?k1 = "k\<lparr>console := console k @ [Stderr ''[1] main started'']\<rparr>"
  obtain fd1 q1 where q1: "run_state (docker1_setup p) ?k1 = (Inr fd1, q1)" using docker1_setup_ok [of ?k1 p] assms(2) by auto
  have m1: "run_state (docker1_main p child_of False ts) k = run_state (and_then (docker1_setup p) (\<lambda>server_fd. result False)) ?k1"
    using assms(1) unfolding docker1_main_def by (simp add: say_def update_kernel_def lift_sys_def)
  have r1: "run_state (docker1_main p child_of False ts) k = (Inr False, q1)"
    unfolding m1 and_then_run q1 by (simp add: result_def)
  show ?thesis
    using r1 docker1_setup_run [where p = p and k = ?k1] q1 docker2_main_ok [OF assms, of p] by auto
qed

theorem docker1_waits_for_child_witness:
  "\<exists>k1 s k2. run_state (docker1_main 1 7 False (tl demo_turns @ [hd demo_turns])) host = (Inr False, k1) \<and> wire k1 = []
    \<and> run_state (docker2_main 1 7 (tl demo_turns @ [hd demo_turns])) host = (Inr s, k2) \<and> wire k2 = [(4, response)]"
proof -
  have "answers (lowest_fd ((lowest_fd (fds host), Listening PORT 5) # fds host)) (tl demo_turns @ [hd demo_turns])
      = ([(4, response)], False)" by code_simp
  with docker1_waits_for_child [of 7 host "tl demo_turns @ [hd demo_turns]" 1] show ?thesis by (auto simp: host_def)
qed

text \<open>A client that resets its connection before the answer ends both programs, which leave SIGPIPE at its default.\<close>

lemma broken_pipe_kills_docker_servers:
  assumes "accept_result t = Accepted" "send_result t = Pipe_Broken"
  shows "fst (run_state (docker1_loop (t # ts)) k) = Inl killed_by_sigpipe"
    "fst (run_state (docker2_loop c (t # ts) s) k) = Inl killed_by_sigpipe"
proof -
  obtain r1 k1 where l1: "run_state (docker1_loop (t # ts)) k = (r1, k1)" by fastforce
  obtain r2 k2 where l2: "run_state (docker2_loop c (t # ts) s) k = (r2, k2)" by fastforce
  show "fst (run_state (docker1_loop (t # ts)) k) = Inl killed_by_sigpipe"
    using docker1_loop_run [OF l1] assms unfolding l1 by simp
  show "fst (run_state (docker2_loop c (t # ts) s) k) = Inl killed_by_sigpipe"
    using docker2_loop_run [OF l2] assms unfolding l2 by simp
qed

subsection \<open>The client of both\<close>

text \<open>
  \<open>docker/client.c\<close> and \<open>docker2/client.c\<close>, which are the same: what \<open>read\<close> returns is the argument, None
  for an error.
\<close>

definition docker_client :: "string option \<Rightarrow> int sys" where
  "docker_client answer =
     do { sock \<leftarrow> new_fd Plain_Socket;
          if sock < 0 then do { say (Perror ''socket''); State_Monad.return 1 }
          else do {
            r \<leftarrow> change_fd sock (\<lambda>_. Connected);
            if r < 0 then do { say (Perror ''connect''); State_Monad.return 1 }
            else do {
              say (Stdout ''Connected to server'');
              update_kernel (\<lambda>k. k\<lparr>wire := wire k @ [(nat sock, ''Hello from Linux host!'')]\<rparr>);
              (case answer of
                 Some bytes \<Rightarrow>
                   if bytes \<noteq> [] then say (Stdout (''Server response: '' @ cstr (take 1023 bytes))) else State_Monad.return ()
               | None \<Rightarrow> State_Monad.return ());
              close sock;
              State_Monad.return 0 }}}"

text \<open>The client shows the answer of the servers, and ends with status 0 even when it got none.\<close>

lemma docker_client_shows_answer:
  assumes "faults k = []"
  shows "fst (run_state (docker_client a) k) = 0 \<and> fds (snd (run_state (docker_client a) k)) = fds k
    \<and> console (snd (run_state (docker_client (Some response)) k))
      = console k @ [Stdout ''Connected to server'', Stdout (''Server response: '' @ response)]"
proof -
  have c: "cstr (take 1023 response) = response" "response \<noteq> []" by (simp_all add: response_def cstr_def NL_def)
  show ?thesis
    using assms by (cases a) (simp_all add: docker_client_def sys_defs next_fault_def is_open_def c)
qed

end
