(* ===== verification/Echo_Session.thy ===== *)
theory Echo_Session
  imports Server_Setup Socket_Servers Stdio_Read
begin

text \<open>
  The client of the echo server, \<open>seance_4/client_epoll.c\<close>, and the two programs together: the server from its
  start on, and what the client shows of what was typed.
\<close>

subsection \<open>The whole server\<close>

text \<open>The epoll instance that \<open>echo_setup\<close> fills is the set the event loop starts from.\<close>

theorem echo_server_from_start:
  assumes "run_state (echo_setup port) k = (Inr (listen_fd, timer_fd, epfd), k')"
    "events_ok listen_fd timer_fd es (echo_init listen_fd timer_fd)"
    "event_loop listen_fd timer_fd es (echo_init listen_fd timer_fd) = Some s"
  shows "map_of (fds k') (nat epfd) = Some (Epoll [nat listen_fd, nat timer_fd])
    \<and> interest s = {listen_fd, timer_fd} \<union> conns s \<and> (\<forall>c \<in> conns s. echoed s c = received s c)"
proof -
  have "echo_inv listen_fd timer_fd (echo_init listen_fd timer_fd)" by (simp add: echo_inv_def echo_init_def)
  from event_loop_inv [OF this assms(2,3)] echo_setup_run [OF assms(1)] show ?thesis by (simp add: echo_inv_def)
qed

subsection \<open>The client\<close>

definition connect_to :: "bool \<Rightarrow> (int + int) sys" where
  "connect_to address_ok =
     do { fd \<leftarrow> new_fd Plain_Socket;
          if fd < 0 then do { say (Perror ''socket''); exit_with EXIT_FAILURE }
          else if \<not> address_ok then do { say (Stderr ''bad address''); exit_with EXIT_FAILURE }
          else do {
            r \<leftarrow> change_fd fd (\<lambda>_. Connected);
            if r < 0 then do { say (Perror ''connect''); exit_with EXIT_FAILURE } else result fd }}"

lemma connect_to_run:
  "case run_state (connect_to address_ok) k of (r, k') \<Rightarrow>
     (case r of Inl c \<Rightarrow> c = EXIT_FAILURE | Inr fd \<Rightarrow> address_ok \<and> fds k' = (nat fd, Connected) # fds k)"
  by (simp add: connect_to_def sys_defs is_open_def)

text \<open>
  \<open>send_all\<close> writes \<open>buf\<close> from the offset \<open>off\<close> on: 0 or -1, and the bytes that have gone out; None when
  the answers run out, which stands for a \<open>write\<close> that has not returned.
\<close>

fun send_all :: "write_result list \<Rightarrow> byte list \<Rightarrow> nat \<Rightarrow> byte list \<Rightarrow> (int \<times> byte list) option" where
  "send_all answers buf off sent =
     (if off < length buf then
        (case answers of
           [] \<Rightarrow> None
         | Interrupted # answers' \<Rightarrow> send_all answers' buf off sent
         | Write_Error # answers' \<Rightarrow> Some (- 1, sent)
         | Wrote w # answers' \<Rightarrow>
             (let n = min w (length buf - off) in send_all answers' buf (off + n) (sent @ take n (drop off buf))))
      else Some (0, sent))"

declare send_all.simps [simp del]

text \<open>The client's loop with an offset and the server's loop over the rest of the buffer do the same.\<close>

theorem send_all_is_write_loop:
  "off \<le> length buf \<Longrightarrow>
     send_all answers buf off sent = map_option (apfst (\<lambda>ok. if ok then 0 else - 1)) (write_loop answers (drop off buf) sent)"
proof (induction answers arbitrary: off sent)
  case Nil
  then show ?case by (cases "off < length buf") (simp_all add: send_all.simps write_loop_simps)
next
  case (Cons a answers)
  show ?case
  proof (cases "off < length buf")
    case True
    show ?thesis
    proof (cases a)
      case (Wrote w)
      let ?n = "min w (length buf - off)"
      have "send_all (a # answers) buf off sent = send_all answers buf (off + ?n) (sent @ take ?n (drop off buf))"
        using True Wrote by (subst send_all.simps) (simp add: Let_def)
      moreover have "write_loop (a # answers) (drop off buf) sent
          = write_loop answers (drop (off + ?n) buf) (sent @ take ?n (drop off buf))"
        using True Wrote by (simp add: write_loop_simps add.commute)
      ultimately show ?thesis using Cons.IH [of "off + ?n" "sent @ take ?n (drop off buf)"] True by simp
    qed (use True Cons.IH [of off sent] in \<open>simp_all add: write_loop_simps send_all.simps [of "_ # _"]\<close>)
  next
    case False
    with Cons.prems show ?thesis by (simp add: send_all.simps write_loop_simps)
  qed
qed

corollary send_all_sends:
  assumes "send_all answers buf 0 [] = Some (r, out)"
  shows "(\<exists>rest. buf = out @ rest) \<and> (r = 0 \<longrightarrow> out = buf)"
proof -
  from assms obtain ok where w: "write_loop answers buf [] = Some (ok, out)" "r = (if ok then 0 else - 1)"
    using send_all_is_write_loop [of 0 buf answers "[]"] by (auto split: if_splits)
  with write_loop_prefix [OF w(1)] show ?thesis by (auto split: if_splits)
qed

subsection \<open>A session\<close>

text \<open>
  \<open>main\<close> of the client against a server that echoes every byte: \<open>unread\<close> are the echoed bytes not yet
  read. One turn sends a piece of the input, up to its first NUL, and reads once: the number of bytes the
  read gets is at least one and at most 511 and what there is, otherwise as the answer says. A read with
  nothing to come does not return: \<open>Waits_Forever\<close>. The result is what is shown behind \<open>[server echoed]\<close>.
\<close>

datatype client_read = Gets nat | Closed | Failed

datatype session_end = Input_Ended | Server_Closed | Read_Failure | Waits_Forever

fun echo_client :: "client_read list \<Rightarrow> string list \<Rightarrow> string \<Rightarrow> string list \<times> session_end" where
  "echo_client reads [] unread = ([], Input_Ended)"
| "echo_client reads (line0 # input) unread =
     (let u = unread @ cstr line0 in
      case reads of
        Closed # _ \<Rightarrow> ([], Server_Closed)
      | Failed # _ \<Rightarrow> ([], Read_Failure)
      | _ \<Rightarrow>
          if u = [] then ([], Waits_Forever)
          else let n = (case reads of Gets m # _ \<Rightarrow> max 1 (min m 511) | _ \<Rightarrow> 511)
               in apfst (Cons (cstr (take n u))) (echo_client (tl reads) input (drop n u)))"

definition typed_session :: "client_read list \<Rightarrow> string \<Rightarrow> string list \<times> session_end" where
  "typed_session reads typed = echo_client reads (fgets_all 512 typed) []"

definition gets :: "client_read \<Rightarrow> bool" where "gets r = (case r of Gets _ \<Rightarrow> True | _ \<Rightarrow> False)"

lemma echo_client_prefix:
  "NUL \<notin> set (unread @ concat input) \<Longrightarrow> \<exists>rest. unread @ concat input = concat (fst (echo_client reads input unread)) @ rest"
proof (induction input arbitrary: reads unread)
  case (Cons line0 input)
  let ?u = "unread @ cstr line0"
  have c: "cstr line0 = line0" using Cons.prems by (simp add: cstr_id)
  define n where "n = (case reads of Gets m # _ \<Rightarrow> max 1 (min m 511) | _ \<Rightarrow> 511)"
  show ?case
  proof (cases "(case reads of Closed # _ \<Rightarrow> True | Failed # _ \<Rightarrow> True | _ \<Rightarrow> False) \<or> ?u = []")
    case True
    then show ?thesis by (auto simp: Let_def split: list.splits client_read.splits)
  next
    case False
    have e: "echo_client reads (line0 # input) unread = apfst (Cons (cstr (take n ?u))) (echo_client (tl reads) input (drop n ?u))"
      using False by (auto simp: Let_def n_def split: list.splits client_read.splits)
    have t: "cstr (take n ?u) = take n ?u" using Cons.prems c by (auto intro!: cstr_id dest: in_set_takeD)
    have "NUL \<notin> set (drop n ?u @ concat input)" using Cons.prems c by (auto dest: in_set_dropD)
    from Cons.IH [OF this, of "tl reads"] obtain rest
      where r: "drop n ?u @ concat input = concat (fst (echo_client (tl reads) input (drop n ?u))) @ rest" by blast
    have "unread @ concat (line0 # input) = take n ?u @ (drop n ?u @ concat input)"
      unfolding append_assoc [symmetric] append_take_drop_id by (simp add: c)
    with r e t show ?thesis by simp
  qed
qed simp

text \<open>With a reply to every piece the session ends with the input.\<close>

lemma echo_client_ends:
  "NUL \<notin> set (concat input) \<Longrightarrow> [] \<notin> set input \<Longrightarrow> list_all gets reads \<Longrightarrow>
     snd (echo_client reads input unread) = Input_Ended \<and> length (fst (echo_client reads input unread)) = length input"
proof (induction input arbitrary: reads unread)
  case (Cons line0 input)
  let ?u = "unread @ cstr line0"
  have u: "cstr line0 \<noteq> []" using Cons.prems by (auto simp: cstr_id)
  have g: "list_all gets (tl reads)" using Cons.prems(3) by (cases reads) auto
  have "\<exists>n. echo_client reads (line0 # input) unread = apfst (Cons (cstr (take n ?u))) (echo_client (tl reads) input (drop n ?u))"
    using u Cons.prems(3) by (cases reads) (auto simp: Let_def gets_def split: client_read.splits)
  with Cons.IH [OF _ _ g] Cons.prems show ?case by fastforce
qed simp

lemma echo_client_whole:
  "NUL \<notin> set (concat input) \<Longrightarrow> list_all (\<lambda>l. l \<noteq> [] \<and> length l < 512) input \<Longrightarrow> list_all (\<lambda>r. \<exists>m \<ge> 511. r = Gets m) reads \<Longrightarrow>
     fst (echo_client reads input []) = input"
proof (induction input arbitrary: reads)
  case (Cons line0 input)
  have c: "cstr line0 = line0" "line0 \<noteq> []" "length line0 \<le> 511" using Cons.prems by (auto simp: cstr_id)
  have "fst (echo_client (tl reads) input []) = input" using Cons by (cases reads) auto
  with c Cons.prems(3) show ?case by (cases reads) (auto simp: Let_def)
qed simp



end
