(* ===== verification/Fork_Labs.thy ===== *)
theory Fork_Labs
  imports Transition Sys_Calls Stdio_Read Process_Labs
begin

text \<open>
  Programs that fork: \<open>process/lab3_fork.c\<close>, \<open>lab5_forkpid.c\<close>, \<open>lab6_waitpid.c\<close>, \<open>lab7_processmap.c\<close> and
  \<open>seance_4/namespace.c\<close>. A program is the tree of what it does next: print a line (its text without the line end),
  wait for its child and go on with the status, exit, or loop for ever. Parent and child run interleaved;
  sleeping only allows that. \<open>process/lab8_cmdexec.c\<close>, which reads the output of a command, is at the end.
\<close>

subsection \<open>Families of two processes\<close>

datatype prog = Print string prog | Forever | Exit nat | Wait "32 word option \<Rightarrow> prog"

datatype kid = Kid prog | Dead "32 word" | Reaped | No_Kid

text \<open>\<open>shown\<close> are the lines of both on the terminal, those of the parent marked True.\<close>

record family =
  parent :: prog
  kid :: kid
  shown :: "(bool \<times> string) list"

text \<open>A wait without a child returns at once, with an error and no status.\<close>

definition parent_next :: "family \<Rightarrow> family list" where
  "parent_next f =
     (case parent f of
        Print s p \<Rightarrow> [f\<lparr>parent := p, shown := shown f @ [(True, s)]\<rparr>]
      | Wait go_on \<Rightarrow>
          (case kid f of
             Kid _ \<Rightarrow> []
           | Dead w \<Rightarrow> [f\<lparr>parent := go_on (Some w), kid := Reaped\<rparr>]
           | _ \<Rightarrow> [f\<lparr>parent := go_on None\<rparr>])
      | _ \<Rightarrow> [])"

definition kid_next :: "family \<Rightarrow> family list" where
  "kid_next f =
     (case kid f of
        Kid (Print s p) \<Rightarrow> [f\<lparr>kid := Kid p, shown := shown f @ [(False, s)]\<rparr>]
      | Kid (Exit n) \<Rightarrow> [f\<lparr>kid := Dead (exit_status n)\<rparr>]
      | Kid (Wait go_on) \<Rightarrow> [f\<lparr>kid := Kid (go_on None)\<rparr>]
      | _ \<Rightarrow> [])"

text \<open>Somebody else may kill the child, when \<open>kills\<close> says so.\<close>

definition kill_next :: "bool \<Rightarrow> family \<Rightarrow> family list" where
  "kill_next kills f = (case kid f of Kid _ \<Rightarrow> if kills then [f\<lparr>kid := Dead (killed_status 9)\<rparr>] else [] | _ \<Rightarrow> [])"

definition family_next :: "bool \<Rightarrow> family \<Rightarrow> family list" where
  "family_next kills f = parent_next f @ kid_next f @ kill_next kills f"

definition forked :: "prog \<Rightarrow> prog \<Rightarrow> family" where
  "forked p c = \<lparr>parent = p, kid = Kid c, shown = []\<rparr>"

definition prints :: "string list \<Rightarrow> prog \<Rightarrow> prog" where "prints ls p = foldr Print ls p"

lemma prints_simps [simp]: "prints [] p = p" "prints (l # ls) p = Print l (prints ls p)"
  by (simp_all add: prints_def)

definition lines_of :: "bool \<Rightarrow> (bool \<times> string) list \<Rightarrow> string list" where
  "lines_of b xs = map snd (filter (\<lambda>x. fst x = b) xs)"

lemma lines_of_simps [simp]:
  "lines_of b [] = []" "lines_of b (xs @ ys) = lines_of b xs @ lines_of b ys"
  "lines_of b [(b, l)] = [l]" "a \<noteq> b \<Longrightarrow> lines_of b [(a, l)] = []"
  "lines_of True [(False, l)] = []" "lines_of False [(True, l)] = []"
  by (simp_all add: lines_of_def)

text \<open>
  A child that prints \<open>ls\<close> and then exits or loops has ended with a status and what it printed until then: all
  of it, unless it was killed.
\<close>

definition ended :: "bool \<Rightarrow> string list \<Rightarrow> prog \<Rightarrow> 32 word \<Rightarrow> string list \<Rightarrow> bool" where
  "ended kills ls fin w said \<longleftrightarrow>
     (\<exists>n. fin = Exit n \<and> w = exit_status n \<and> said = ls) \<or> (kills \<and> w = killed_status 9 \<and> (\<exists>rest. ls = said @ rest))"

text \<open>The shape of a parent that prints, waits, prints and exits, before and after its wait.\<close>

definition kid_ok :: "bool \<Rightarrow> string list \<Rightarrow> prog \<Rightarrow> kid \<Rightarrow> string list \<Rightarrow> bool" where
  "kid_ok kills ls fin k said \<longleftrightarrow>
     (case k of
        Kid p \<Rightarrow> \<exists>rest. said @ rest = ls \<and> p = prints rest fin
      | Dead w \<Rightarrow> ended kills ls fin w said
      | _ \<Rightarrow> False)"

lemma kid_ok_simps [simp]:
  "kid_ok kills ls fin (Kid p) said \<longleftrightarrow> (\<exists>rest. said @ rest = ls \<and> p = prints rest fin)"
  "kid_ok kills ls fin (Dead w) said \<longleftrightarrow> ended kills ls fin w said"
  "\<not> kid_ok kills ls fin Reaped said" "\<not> kid_ok kills ls fin No_Kid said"
  by (simp_all add: kid_ok_def)

definition before_wait :: "bool \<Rightarrow> string list \<Rightarrow> (32 word option \<Rightarrow> prog) \<Rightarrow> string list \<Rightarrow> prog \<Rightarrow> family \<Rightarrow> bool" where
  "before_wait kills as go_on ls fin f \<longleftrightarrow>
     (\<exists>rest. lines_of True (shown f) @ rest = as \<and> parent f = prints rest (Wait go_on))
     \<and> kid_ok kills ls fin (kid f) (lines_of False (shown f))"

definition after_wait :: "bool \<Rightarrow> string list \<Rightarrow> (32 word option \<Rightarrow> string list) \<Rightarrow> string list \<Rightarrow> prog \<Rightarrow> family \<Rightarrow> bool" where
  "after_wait kills as bs ls fin f \<longleftrightarrow>
     (\<exists>pre w said rest. shown f = pre @ map (Pair True) said \<and> lines_of True pre = as
        \<and> ended kills ls fin w (lines_of False pre) \<and> said @ rest = bs (Some w)
        \<and> parent f = prints rest (Exit 0) \<and> kid f = Reaped)"

definition waiting_parent :: "string list \<Rightarrow> (32 word option \<Rightarrow> string list) \<Rightarrow> prog" where
  "waiting_parent as bs = prints as (Wait (\<lambda>w. prints (bs w) (Exit 0)))"

definition ends_or_loops :: "prog \<Rightarrow> bool" where
  "ends_or_loops p \<longleftrightarrow> (\<exists>n. p = Exit n) \<or> p = Forever"

lemma before_wait_step:
  assumes i: "before_wait kills as (\<lambda>w. prints (bs w) (Exit 0)) ls fin f" and l: "ends_or_loops fin"
    and v: "g \<in> set (family_next kills f)"
  shows "before_wait kills as (\<lambda>w. prints (bs w) (Exit 0)) ls fin g \<or> after_wait kills as bs ls fin g"
proof -
  from i obtain rest where p: "lines_of True (shown f) @ rest = as" "parent f = prints rest (Wait (\<lambda>w. prints (bs w) (Exit 0)))"
    by (auto simp: before_wait_def)
  from v consider "g \<in> set (parent_next f)" | "g \<in> set (kid_next f)" | "g \<in> set (kill_next kills f)"
    by (auto simp: family_next_def)
  then show ?thesis
  proof cases
    case 1
    show ?thesis
    proof (cases rest)
      case Nil
      with 1 p i obtain w where "kid f = Dead w" "g = f\<lparr>parent := prints (bs (Some w)) (Exit 0), kid := Reaped\<rparr>"
        by (auto simp: parent_next_def before_wait_def split: kid.splits)
      moreover have "ended kills ls fin w (lines_of False (shown f))" using i \<open>kid f = Dead w\<close> by (simp add: before_wait_def)
      ultimately have "after_wait kills as bs ls fin g"
        unfolding after_wait_def using p Nil by (intro exI [of _ "shown f"] exI [of _ w] exI [of _ "[]"] exI [of _ "bs (Some w)"]) simp
      then show ?thesis ..
    next
      case (Cons l rest')
      with 1 p have g: "g = f\<lparr>parent := prints rest' (Wait (\<lambda>w. prints (bs w) (Exit 0))), shown := shown f @ [(True, l)]\<rparr>"
        by (simp add: parent_next_def)
      have "before_wait kills as (\<lambda>w. prints (bs w) (Exit 0)) ls fin g"
        unfolding before_wait_def
        using p Cons i by (intro conjI exI [of _ rest']) (simp_all add: g before_wait_def)
      then show ?thesis ..
    qed
  next
    case 2
    with i l show ?thesis
    proof (cases "kid f")
      case (Kid q)
      with i obtain kr where k: "lines_of False (shown f) @ kr = ls" "q = prints kr fin" by (auto simp: before_wait_def)
      show ?thesis
      proof (cases kr)
        case Nil
        with 2 Kid k p l show ?thesis by (auto simp: kid_next_def before_wait_def ended_def ends_or_loops_def)
      next
        case (Cons l kr')
        with 2 Kid k p show ?thesis by (auto simp: kid_next_def before_wait_def)
      qed
    qed (auto simp: kid_next_def)
  next
    case 3
    with i p show ?thesis
      by (cases "kid f") (auto simp: kill_next_def before_wait_def ended_def split: if_splits)
  qed
qed

lemma after_wait_step:
  assumes i: "after_wait kills as bs ls fin f" and v: "g \<in> set (family_next kills f)"
  shows "after_wait kills as bs ls fin g"
proof -
  from i obtain pre w said rest where a: "shown f = pre @ map (Pair True) said" "lines_of True pre = as"
    "ended kills ls fin w (lines_of False pre)" "said @ rest = bs (Some w)" "parent f = prints rest (Exit 0)" "kid f = Reaped"
    by (auto simp: after_wait_def)
  show ?thesis
  proof (cases rest)
    case Nil
    with a v show ?thesis by (simp add: family_next_def parent_next_def kid_next_def kill_next_def)
  next
    case (Cons l rest')
    with a v have g: "g = f\<lparr>parent := prints rest' (Exit 0), shown := shown f @ [(True, l)]\<rparr>"
      by (simp add: family_next_def parent_next_def kid_next_def kill_next_def)
    have "shown g = pre @ map (Pair True) (said @ [l])" "(said @ [l]) @ rest' = bs (Some w)"
      "parent g = prints rest' (Exit 0)" "kid g = Reaped"
      using a Cons by (simp_all add: g)
    with a show ?thesis unfolding after_wait_def by blast
  qed
qed

lemma forked_inv:
  assumes "reachable (family_next kills) (forked (waiting_parent as bs) (prints ls fin)) f" "ends_or_loops fin"
  shows "before_wait kills as (\<lambda>w. prints (bs w) (Exit 0)) ls fin f \<or> after_wait kills as bs ls fin f"
  using assms(1)
proof (rule reach_keeps)
  show "before_wait kills as (\<lambda>w. prints (bs w) (Exit 0)) ls fin (forked (waiting_parent as bs) (prints ls fin))
    \<or> after_wait kills as bs ls fin (forked (waiting_parent as bs) (prints ls fin))"
    by (simp add: before_wait_def forked_def waiting_parent_def)
qed (use before_wait_step after_wait_step assms(2) in blast)

text \<open>
  Where such a family comes to rest: the parent has printed everything, its last lines after everything else
  and for the status the child ended with; or the child loops, nobody kills it, and the parent waits for ever.
\<close>

definition rests_ended :: "bool \<Rightarrow> string list \<Rightarrow> (32 word option \<Rightarrow> string list) \<Rightarrow> string list \<Rightarrow> prog \<Rightarrow> family \<Rightarrow> bool" where
  "rests_ended kills as bs ls fin f \<longleftrightarrow>
     (\<exists>pre w. shown f = pre @ map (Pair True) (bs (Some w)) \<and> lines_of True pre = as \<and> ended kills ls fin w (lines_of False pre))"

lemma forked_final:
  assumes "reachable (family_next kills) (forked (waiting_parent as bs) (prints ls fin)) f" "ends_or_loops fin"
    "family_next kills f = []"
  shows "rests_ended kills as bs ls fin f
    \<or> fin = Forever \<and> \<not> kills \<and> kid f = Kid Forever \<and> lines_of True (shown f) = as \<and> lines_of False (shown f) = ls"
  using forked_inv [OF assms(1,2)]
proof
  assume b: "before_wait kills as (\<lambda>w. prints (bs w) (Exit 0)) ls fin f"
  then obtain rest where p: "lines_of True (shown f) @ rest = as" "parent f = prints rest (Wait (\<lambda>w. prints (bs w) (Exit 0)))"
    by (auto simp: before_wait_def)
  have n: "parent_next f = []" "kid_next f = []" "kill_next kills f = []" using assms(3) by (simp_all add: family_next_def)
  then have r: "rest = []" using p by (cases rest) (auto simp: parent_next_def)
  then obtain q where k: "kid f = Kid q" using n(1) p b by (cases "kid f") (auto simp: parent_next_def before_wait_def)
  with b obtain kr where kr: "lines_of False (shown f) @ kr = ls" "q = prints kr fin" by (auto simp: before_wait_def)
  then have "kr = []" "fin = Forever" using n(2) k assms(2) by (cases kr; auto simp: kid_next_def ends_or_loops_def)+
  with kr k p r n(3) show ?thesis by (auto simp: kill_next_def split: if_splits)
next
  assume "after_wait kills as bs ls fin f"
  then obtain pre w said rest where a: "shown f = pre @ map (Pair True) said" "lines_of True pre = as"
    "ended kills ls fin w (lines_of False pre)" "said @ rest = bs (Some w)" "parent f = prints rest (Exit 0)"
    by (auto simp: after_wait_def)
  with assms(3) have "rest = []" by (cases rest) (auto simp: family_next_def parent_next_def)
  with a show ?thesis unfolding rests_ended_def by auto
qed

text \<open>The lines after the wait come only when the child has ended, whatever the schedule.\<close>

lemma forked_exited:
  assumes "reachable (family_next kills) (forked (waiting_parent as bs) (prints ls fin)) f" "ends_or_loops fin"
    "parent f = Exit 0"
  shows "rests_ended kills as bs ls fin f"
  using forked_inv [OF assms(1,2)]
proof
  assume "before_wait kills as (\<lambda>w. prints (bs w) (Exit 0)) ls fin f"
  then obtain rest where "parent f = prints rest (Wait (\<lambda>w. prints (bs w) (Exit 0)))" by (auto simp: before_wait_def)
  with assms(3) show ?thesis by (cases rest) auto
next
  assume "after_wait kills as bs ls fin f"
  then obtain pre w said rest where a: "shown f = pre @ map (Pair True) said" "lines_of True pre = as"
    "ended kills ls fin w (lines_of False pre)" "said @ rest = bs (Some w)" "parent f = prints rest (Exit 0)"
    by (auto simp: after_wait_def)
  with assms(3) have "rest = []" by (cases rest) auto
  with a show ?thesis unfolding rests_ended_def by auto
qed

text \<open>Every schedule is finite: \<open>m\<close> bounds what the parent prints after its wait.\<close>

fun steps_left :: "nat \<Rightarrow> prog \<Rightarrow> nat" where
  "steps_left m (Print s p) = Suc (steps_left m p)"
| "steps_left m (Wait go_on) = Suc m"
| "steps_left m Forever = 0"
| "steps_left m (Exit n) = 0"

definition family_left :: "nat \<Rightarrow> family \<Rightarrow> nat" where
  "family_left m f = steps_left m (parent f) + (case kid f of Kid p \<Rightarrow> Suc (steps_left 0 p) | _ \<Rightarrow> 0)"

lemma steps_left_prints [simp]: "steps_left m (prints ls p) = length ls + steps_left m p"
  by (induction ls) auto

lemma steps_left_end [simp]: "ends_or_loops fin \<Longrightarrow> steps_left m fin = 0"
  by (auto simp: ends_or_loops_def)

lemma forked_measure:
  assumes i: "before_wait kills as (\<lambda>w. prints (bs w) (Exit 0)) ls fin f \<or> after_wait kills as bs ls fin f"
    and l: "ends_or_loops fin" "\<And>w. length (bs (Some w)) \<le> m" and v: "g \<in> set (family_next kills f)"
  shows "family_left m g < family_left m f"
proof -
  from v consider "g \<in> set (parent_next f)" | "g \<in> set (kid_next f)" | "g \<in> set (kill_next kills f)"
    by (auto simp: family_next_def)
  then show ?thesis
  proof cases
    case 1
    show ?thesis
    proof (cases "parent f")
      case (Wait go_on)
      then have b: "before_wait kills as (\<lambda>w. prints (bs w) (Exit 0)) ls fin f"
        using i by (auto simp: after_wait_def prints_def split: list.splits elim: list.exhaust) (metis list.exhaust prints_def prints_simps prog.distinct)
      then have "go_on = (\<lambda>w. prints (bs w) (Exit 0))"
        using Wait by (auto simp: before_wait_def) (metis list.exhaust prints_simps prog.distinct(5) prog.inject(3))
      with 1 Wait b l(2) show ?thesis
        by (cases "kid f") (auto simp: parent_next_def before_wait_def family_left_def less_Suc_eq_le)
    qed (use 1 in \<open>auto simp: parent_next_def family_left_def\<close>)
  next
    case 2
    then obtain q where k: "kid f = Kid q" by (cases "kid f") (auto simp: kid_next_def)
    with i obtain rest where "q = prints rest fin" by (auto simp: before_wait_def after_wait_def)
    with 2 k l(1) show ?thesis
      by (cases rest) (auto simp: kid_next_def family_left_def ends_or_loops_def)
  next
    case 3
    then show ?thesis by (auto simp: kill_next_def family_left_def split: kid.splits if_splits)
  qed
qed

lemma forked_run_bounded:
  assumes "run (family_next kills) (forked (waiting_parent as bs) (prints ls fin)) ks = Some f" "ends_or_loops fin"
    "\<And>w. length (bs (Some w)) \<le> m"
  shows "length ks \<le> length as + length ls + m + 2"
proof -
  let ?I = "\<lambda>f. before_wait kills as (\<lambda>w. prints (bs w) (Exit 0)) ls fin f \<or> after_wait kills as bs ls fin f"
  have "?I (forked (waiting_parent as bs) (prints ls fin))"
    by (simp add: before_wait_def forked_def waiting_parent_def)
  then have "length ks + family_left m f \<le> family_left m (forked (waiting_parent as bs) (prints ls fin))"
  proof (rule run_bounded_inv [where I = ?I, OF assms(1)])
    fix u v assume u: "?I u" and v: "v \<in> set (family_next kills u)"
    have "?I v" using u before_wait_step [OF _ assms(2) v] after_wait_step [OF _ v] by blast
    moreover have "family_left m v < family_left m u" by (rule forked_measure [OF u assms(2,3) v])
    ultimately show "?I v \<and> family_left m v < family_left m u" ..
  qed
  also have "\<dots> = length as + length ls + m + 2"
    using assms(2) by (simp add: family_left_def forked_def waiting_parent_def)
  finally show ?thesis by simp
qed

subsection \<open>The programs\<close>

text \<open>Each program after \<open>fork\<close> has returned \<open>cid\<close>, in the process \<open>me\<close> with parent \<open>my_parent\<close>.\<close>

definition fork_hello :: "int \<Rightarrow> int \<Rightarrow> string" where
  "fork_hello cid me = ''---Hello from parent process! fork() returned child id='' @ dec_int cid @ '', my PID='' @ dec_int me"

definition child_hello :: "int \<Rightarrow> int \<Rightarrow> int \<Rightarrow> string" where
  "child_hello cid me my_parent =
     ''*** Hello from child process! fork() returned id='' @ dec_int cid @ '', my PID='' @ dec_int me @ '', my PPID='' @ dec_int my_parent"

definition exiting :: "int \<Rightarrow> string" where
  "exiting me = ''--- Parent process (PID='' @ dec_int me @ '') is exiting''"

text \<open>\<open>status\<close> is not initialised: without a child the number printed cannot be told.\<close>

definition lab3_main :: "int \<Rightarrow> int \<Rightarrow> int \<Rightarrow> prog" where
  "lab3_main cid me my_parent =
     Print ''Hello all ''
       (if cid = 0 then Print (child_hello cid me my_parent) (Exit 1)
        else Print (fork_hello cid me) (Wait (\<lambda>status.
             Print (''Status of child process: '' @ (case status of Some w \<Rightarrow> dec_int (sint w) | None \<Rightarrow> ''?''))
               (Print (exiting me) (Exit 0)))))"

definition lab5_main :: "int \<Rightarrow> int \<Rightarrow> int \<Rightarrow> prog" where
  "lab5_main cid me my_parent =
     (if cid < 0 then Print ''fork failed'' (Exit 1)
      else if cid = 0 then Print (child_hello cid me my_parent) Forever
      else Print (fork_hello cid me) (Wait (\<lambda>status. Print (exiting me) (Exit 0))))"

definition lab6_main :: "int \<Rightarrow> int \<Rightarrow> int \<Rightarrow> prog" where
  "lab6_main cid me my_parent =
     (if cid < 0 then Print ''fork failed'' (Exit 1)
      else if cid = 0 then
        Print (child_hello cid me my_parent)
          (Print (''*** Child process (PID='' @ dec_int me @ '') is exiting'') (Exit 0))
      else Print (fork_hello cid me) (Wait (\<lambda>status.
        Print (case status of
                 Some w \<Rightarrow>
                   if WIFEXITED w
                   then ''--> Child process '' @ dec_int cid @ '' exited with status '' @ dec_nat (unat (WEXITSTATUS w))
                   else ''--> Child process '' @ dec_int cid @ '' did not exit normally''
               | None \<Rightarrow> ''?'')
          (Print (exiting me) (Exit 0)))))"

text \<open>\<open>affinity_ok\<close> is whether \<open>sched_setaffinity\<close> succeeds in this process, \<open>cpu\<close> what \<open>sched_getcpu\<close> returns.\<close>

definition lab7_main :: "int \<Rightarrow> bool \<Rightarrow> nat \<Rightarrow> prog" where
  "lab7_main cid affinity_ok cpu =
     (if cid < 0 then Print ''fork failed'' (Exit 1)
      else if cid = 0 then
        (if \<not> affinity_ok then Print ''sched_setaffinity (child)'' (Exit 1)
         else Print (''Child process: Running on CPU '' @ dec_nat cpu) Forever)
      else
        (if \<not> affinity_ok then Print ''sched_setaffinity (parent)'' (Exit 1)
         else Print (''Parent process: Running on CPU '' @ dec_nat cpu) (Wait (\<lambda>_. Exit 0))))"

text \<open>The two processes of a program.\<close>

definition both :: "(int \<Rightarrow> int \<Rightarrow> int \<Rightarrow> prog) \<Rightarrow> int \<Rightarrow> int \<Rightarrow> int \<Rightarrow> family" where
  "both main0 child_id me my_parent = forked (main0 child_id me my_parent) (main0 0 child_id me)"

text \<open>In \<open>lab6_waitpid.c\<close> the parent reports its child truthfully: every schedule ends, after at most seven
  steps, with both processes through; the parent's report and its last line come after everything the
  child said; it reports status 0 exactly when the child has printed both its lines, and otherwise, if
  somebody killed the child, that it did not exit normally.\<close>

theorem lab6_reports_child:
  assumes "0 < cid" "run (family_next kills) (both lab6_main cid me my_parent) ks = Some f"
  shows "length ks \<le> 7
    \<and> (family_next kills f = [] \<longrightarrow>
        (\<exists>pre report. shown f = pre @ [(True, report), (True, exiting me)] \<and> lines_of True pre = [fork_hello cid me]
          \<and> (report = ''--> Child process '' @ dec_int cid @ '' exited with status 0''
               \<and> lines_of False pre = [child_hello 0 cid me, ''*** Child process (PID='' @ dec_int cid @ '') is exiting'']
             \<or> kills \<and> report = ''--> Child process '' @ dec_int cid @ '' did not exit normally'')))"
proof -
  let ?bs = "\<lambda>status. [case status of
                 Some w \<Rightarrow>
                   if WIFEXITED w
                   then ''--> Child process '' @ dec_int cid @ '' exited with status '' @ dec_nat (unat (WEXITSTATUS w))
                   else ''--> Child process '' @ dec_int cid @ '' did not exit normally''
               | None \<Rightarrow> ''?'', exiting me]"
  let ?ls = "[child_hello 0 cid me, ''*** Child process (PID='' @ dec_int cid @ '') is exiting'']"
  have b: "both lab6_main cid me my_parent = forked (waiting_parent [fork_hello cid me] ?bs) (prints ?ls (Exit 0))"
    using assms(1) by (simp add: both_def lab6_main_def waiting_parent_def)
  have l: "ends_or_loops (Exit 0)" by (simp add: ends_or_loops_def)
  have "length ks \<le> 7" using forked_run_bounded [OF assms(2) [unfolded b] l, of 2] by simp
  moreover have "rests_ended kills [fork_hello cid me] ?bs ?ls (Exit 0) f" if "family_next kills f = []"
    using forked_final [OF run_reachable [OF assms(2) [unfolded b]] l that] by simp
  moreover have "dec_nat 0 = ''0''" by code_simp
  ultimately show ?thesis
    using exit_status_macros [of 0] killed_status_macros [of 9] by (force simp: rests_ended_def ended_def)
qed

theorem lab6_reports_child_witness:
  "\<exists>f. run (family_next False) (both lab6_main 7 1 0) [1, 1, 0, 0, 0, 0, 0] = Some f
    \<and> (\<exists>pre report. shown f = pre @ [(True, report), (True, exiting 1)] \<and> lines_of True pre = [fork_hello 7 1])"
proof -
  have r: "run (family_next False) (both lab6_main 7 1 0) [1, 1, 0, 0, 0, 0, 0] \<noteq> None
    \<and> (case run (family_next False) (both lab6_main 7 1 0) [1, 1, 0, 0, 0, 0, 0] of
         Some f \<Rightarrow> family_next False f = [] | None \<Rightarrow> False)"
    by (simp add: both_def forked_def lab6_main_def family_next_def parent_next_def kid_next_def kill_next_def)
  then obtain f where f: "run (family_next False) (both lab6_main 7 1 0) [1, 1, 0, 0, 0, 0, 0] = Some f" "family_next False f = []"
    by (auto split: option.splits)
  from lab6_reports_child [OF _ f(1)] f show ?thesis by auto
qed

text \<open>\<open>lab3_fork.c\<close> prints the wait status itself, not the exit code: the child returns 1 and the parent shows 256.\<close>

theorem lab3_prints_raw_status:
  assumes "0 < cid" "reachable (family_next False) (both lab3_main cid me my_parent) f" "family_next False f = []"
  shows "\<exists>pre. shown f = pre @ [(True, ''Status of child process: 256''), (True, exiting me)]
    \<and> lines_of False pre = [''Hello all '', child_hello 0 cid me]"
proof -
  let ?bs = "\<lambda>status. [''Status of child process: '' @ (case status of Some w \<Rightarrow> dec_int (sint w) | None \<Rightarrow> ''?''), exiting me]"
  let ?ls = "[''Hello all '', child_hello 0 cid me]"
  have b: "both lab3_main cid me my_parent = forked (waiting_parent [''Hello all '', fork_hello cid me] ?bs) (prints ?ls (Exit 1))"
    using assms(1) by (simp add: both_def lab3_main_def waiting_parent_def)
  have "dec_int (sint (exit_status 1)) = ''256''" by code_simp
  then show ?thesis
    using forked_final [OF assms(2) [unfolded b] _ assms(3)]
    by (auto simp: rests_ended_def ended_def ends_or_loops_def)
qed

theorem lab3_prints_raw_status_witness:
  "\<exists>f pre. run (family_next False) (both lab3_main 7 1 0) [0, 0, 0, 0, 0, 0, 0, 0] = Some f
    \<and> shown f = pre @ [(True, ''Status of child process: 256''), (True, exiting 1)]"
proof -
  have "case run (family_next False) (both lab3_main 7 1 0) [0, 0, 0, 0, 0, 0, 0, 0] of
         Some f \<Rightarrow> family_next False f = [] | None \<Rightarrow> False"
    by (simp add: both_def forked_def lab3_main_def family_next_def parent_next_def kid_next_def kill_next_def)
  then obtain f where f: "run (family_next False) (both lab3_main 7 1 0) [0, 0, 0, 0, 0, 0, 0, 0] = Some f" "family_next False f = []"
    by (auto split: option.splits)
  from lab3_prints_raw_status [OF _ run_reachable [OF f(1)] f(2)] f(1) show ?thesis by auto
qed

text \<open>When \<open>fork\<close> fails, \<open>lab3_fork.c\<close> goes on as the parent, waits for nobody and prints an uninitialised number.\<close>

lemma lab3_fork_fails:
  "\<exists>f. run (family_next False) \<lparr>parent = lab3_main (- 1) me my_parent, kid = No_Kid, shown = []\<rparr> [0, 0, 0, 0, 0] = Some f
    \<and> shown f = [(True, ''Hello all ''), (True, fork_hello (- 1) me), (True, ''Status of child process: ?''), (True, exiting me)]"
  by (simp add: lab3_main_def family_next_def parent_next_def kid_next_def kill_next_def)

text \<open>In \<open>lab5_forkpid.c\<close> and \<open>lab7_processmap.c\<close> the child loops: unless somebody kills it the parent never ends.\<close>

theorem looping_child_keeps_parent:
  assumes "0 < cid"
  shows "reachable (family_next False) (both lab5_main cid me my_parent) f \<Longrightarrow> parent f \<noteq> Exit 0"
    "reachable (family_next False) (forked (lab7_main cid True cpu0) (lab7_main 0 True cpu1)) f \<Longrightarrow> parent f \<noteq> Exit 0"
proof -
  have b5: "both lab5_main cid me my_parent
      = forked (waiting_parent [fork_hello cid me] (\<lambda>_. [exiting me])) (prints [child_hello 0 cid me] Forever)"
    using assms by (simp add: both_def lab5_main_def waiting_parent_def)
  have b7: "forked (lab7_main cid True cpu0) (lab7_main 0 True cpu1)
      = forked (waiting_parent [''Parent process: Running on CPU '' @ dec_nat cpu0] (\<lambda>_. []))
          (prints [''Child process: Running on CPU '' @ dec_nat cpu1] Forever)"
    using assms by (simp add: lab7_main_def waiting_parent_def)
  have l: "ends_or_loops Forever" by (simp add: ends_or_loops_def)
  show "parent f \<noteq> Exit 0" if "reachable (family_next False) (both lab5_main cid me my_parent) f"
    using forked_exited [OF that [unfolded b5] l] by (auto simp: rests_ended_def ended_def)
  show "parent f \<noteq> Exit 0" if "reachable (family_next False) (forked (lab7_main cid True cpu0) (lab7_main 0 True cpu1)) f"
    using forked_exited [OF that [unfolded b7] l] by (auto simp: rests_ended_def ended_def)
qed

text \<open>With the kill, \<open>lab5_forkpid.c\<close> comes to its end.\<close>

lemma lab5_ends_by_kill:
  "0 < cid \<Longrightarrow> \<exists>f. run (family_next True) (both lab5_main cid me my_parent) [0, 0, 0, 0, 0] = Some f
     \<and> parent f = Exit 0 \<and> shown f = [(True, fork_hello cid me), (False, child_hello 0 cid me), (True, exiting me)]"
  by (simp add: both_def forked_def lab5_main_def family_next_def parent_next_def kid_next_def kill_next_def)

subsection \<open>A process in its own PID namespace\<close>

text \<open>
  \<open>namespace.c\<close> on the buffered standard output of \<open>Process_Labs\<close>. The child that \<open>clone\<close> makes has a copy of
  the buffer, and ends by \<open>_exit\<close> when its function returns. \<open>readlink\<close> fills at most 63 bytes.
\<close>

definition print_pid_ns_id :: "string \<Rightarrow> int \<Rightarrow> string option \<Rightarrow> stdout \<Rightarrow> stdout" where
  "print_pid_ns_id tag me link =
     (case link of
        Some target \<Rightarrow> printf (''['' @ tag @ ''] real pid='' @ dec_int me @ ''  pid namespace = '' @ cstr (take 63 target) @ [newline])
      | None \<Rightarrow> printf (''['' @ tag @ ''] real pid='' @ dec_int me @ ''  readlink failed'' @ [newline]))"

text \<open>In its namespace the child has the pid 1.\<close>

definition child_func :: "string option \<Rightarrow> stdout \<Rightarrow> stdout" where
  "child_func link s =
     printf (''[child] done, exiting.'' @ [newline])
       (print_pid_ns_id ''child'' 1 link
         (printf ([newline] @ ''[child] getpid() = 1 (this is PID 1 inside the new PID namespace)'' @ [newline]) s))"

definition parent_start :: "int \<Rightarrow> string option \<Rightarrow> stdout \<Rightarrow> stdout" where
  "parent_start me link s = print_pid_ns_id ''parent'' me link (printf (''[parent] starting'' @ [newline]) s)"

definition parent_rest :: "int \<Rightarrow> stdout \<Rightarrow> stdout" where
  "parent_rest cid s =
     printf (''[parent] child has exited.'' @ [newline])
       (printf (''[parent] created child, host-visible pid='' @ dec_int cid @ [newline]) s)"

text \<open>The exit status, and what the parent and the child write.\<close>

definition namespace_main :: "bool \<Rightarrow> int \<Rightarrow> string option \<Rightarrow> string option \<Rightarrow> int \<Rightarrow> int \<times> string \<times> string" where
  "namespace_main terminal me link child_link cid =
     (let s = parent_start me link \<lparr>on_terminal = terminal, pending = [], written = []\<rparr> in
      if cid = - 1 then (1, exit (\<lambda>s. s) s, [])
      else (0, exit (\<lambda>s. s) (parent_rest cid s), exit_now (child_func child_link (s\<lparr>written := []\<rparr>))))"

text \<open>Lines that end with a newline leave a terminal at once, and wait in the buffer otherwise.\<close>

lemma printf_line:
  "pending s = [] \<Longrightarrow> on_terminal s \<Longrightarrow> printf (l @ [newline]) s = s\<lparr>written := written s @ l @ [newline]\<rparr>"
  "\<not> on_terminal s \<Longrightarrow> printf t s = s\<lparr>pending := pending s @ t\<rparr>"
  by (simp_all add: printf_def Let_def)

lemma printf_line2:
  "pending s = [] \<Longrightarrow> on_terminal s \<Longrightarrow>
     printf (l @ m @ [newline]) s = s\<lparr>written := written s @ l @ m @ [newline]\<rparr>"
  using printf_line(1) [of s "l @ m"] by simp

lemma print_pid_ns_id_line:
  "\<exists>l. l \<noteq> [] \<and> (\<forall>s. pending s = [] \<longrightarrow> on_terminal s \<longrightarrow> print_pid_ns_id tag me link s = s\<lparr>written := written s @ l @ [newline]\<rparr>)
     \<and> (\<forall>s. \<not> on_terminal s \<longrightarrow> print_pid_ns_id tag me link s = s\<lparr>pending := pending s @ l @ [newline]\<rparr>)"
proof -
  let ?l = "case link of
        Some target \<Rightarrow> ''['' @ tag @ ''] real pid='' @ dec_int me @ ''  pid namespace = '' @ cstr (take 63 target)
      | None \<Rightarrow> ''['' @ tag @ ''] real pid='' @ dec_int me @ ''  readlink failed''"
  have p: "print_pid_ns_id tag me link = printf (?l @ [newline])"
    by (cases link) (simp_all add: print_pid_ns_id_def)
  have "?l \<noteq> []" by (cases link) simp_all
  then show ?thesis unfolding p by (intro exI [of _ ?l]) (simp add: printf_line)
qed

text \<open>The lines of the child in \<open>namespace.c\<close> are seen only on a terminal: there all three come out; when the
  output goes to a pipe or a file they stay in the child's copy of the buffer, and the child's end by
  \<open>_exit\<close> drops them, while all four lines of the parent are written in both cases.\<close>

theorem namespace_child_output:
  assumes "cid \<noteq> - 1"
  shows "\<exists>parent_line child_line.
     namespace_main False me link child_link cid = (0, ''[parent] starting'' @ [newline] @ parent_line @ [newline]
        @ ''[parent] created child, host-visible pid='' @ dec_int cid @ [newline] @ ''[parent] child has exited.'' @ [newline], [])
   \<and> namespace_main True me link child_link cid = (0, ''[parent] starting'' @ [newline] @ parent_line @ [newline]
        @ ''[parent] created child, host-visible pid='' @ dec_int cid @ [newline] @ ''[parent] child has exited.'' @ [newline],
        [newline] @ ''[child] getpid() = 1 (this is PID 1 inside the new PID namespace)'' @ [newline]
        @ child_line @ [newline] @ ''[child] done, exiting.'' @ [newline])"
proof -
  obtain pl where p: "\<And>s. pending s = [] \<Longrightarrow> on_terminal s \<Longrightarrow> print_pid_ns_id ''parent'' me link s = s\<lparr>written := written s @ pl @ [newline]\<rparr>"
    "\<And>s. \<not> on_terminal s \<Longrightarrow> print_pid_ns_id ''parent'' me link s = s\<lparr>pending := pending s @ pl @ [newline]\<rparr>"
    using print_pid_ns_id_line by blast
  obtain cl where c: "\<And>s. pending s = [] \<Longrightarrow> on_terminal s \<Longrightarrow> print_pid_ns_id ''child'' 1 child_link s = s\<lparr>written := written s @ cl @ [newline]\<rparr>"
    "\<And>s. \<not> on_terminal s \<Longrightarrow> print_pid_ns_id ''child'' 1 child_link s = s\<lparr>pending := pending s @ cl @ [newline]\<rparr>"
    using print_pid_ns_id_line by blast
  show ?thesis
    using assms
    by (intro exI [of _ pl] exI [of _ cl])
      (simp add: namespace_main_def parent_start_def parent_rest_def child_func_def p c printf_line
        printf_line2 [where l = "[newline]", simplified] printf_line2 exit_def exit_now_def flush_def Let_def del: append.simps)
qed

theorem namespace_child_output_witness:
  "fst (namespace_main False 50 (Some ''pid:[1]'') None 51) = 0 \<and> snd (snd (namespace_main False 50 (Some ''pid:[1]'') None 51)) = []"
  using namespace_child_output [of 51 50 "Some ''pid:[1]''" None] by auto

subsection \<open>The output of a command\<close>

text \<open>
  \<open>lab8_cmdexec.c\<close>: \<open>system\<close> with its status unused, and the loop over the output of \<open>uname -a\<close>, which is the
  argument, through a buffer of 128 bytes. The result is the exit status; the lines are what is printed.
\<close>

definition lab8_main :: "string \<Rightarrow> int sys" where
  "lab8_main output =
     do { _ \<leftarrow> no_effect;
          fp \<leftarrow> no_effect;
          if fp < 0 then do { say (Perror ''popen failed''); State_Monad.return 1 }
          else do {
            update_kernel (\<lambda>k. k\<lparr>console := console k @ map (\<lambda>piece. Stdout (''Output: '' @ cstr piece)) (fgets_all 128 output)\<rparr>);
            State_Monad.return 0 }}"

text \<open>Every line of at most 126 characters is shown once, behind one \<open>Output:\<close>.\<close>

lemma lab8_shows_output:
  assumes "faults k = []" "\<forall>l \<in> set ls. NL \<notin> set l \<and> NUL \<notin> set l \<and> length l \<le> 126"
  shows "console (snd (run_state (lab8_main (concat (map (\<lambda>l. l @ [NL]) ls))) k))
     = console k @ map (\<lambda>l. Stdout (''Output: '' @ l @ [NL])) ls"
proof -
  have "fgets_all 128 (concat (map (\<lambda>l. l @ [NL]) ls)) = map (\<lambda>l. l @ [NL]) ls"
    by (rule fgets_all_lines) (use assms(2) in auto)
  moreover have "cstr (l @ [NL]) = l @ [NL]" if "l \<in> set ls" for l
    using assms(2) that by (intro cstr_id) (auto simp: NL_def)
  ultimately show ?thesis using assms(1) by (simp add: lab8_main_def sys_defs next_fault_def)
qed

end
