(* ===== verification/Signal_Labs.thy ===== *)
theory Signal_Labs
  imports Transition Process_Labs
begin

text \<open>
  Programs that wait for signals or send them: \<open>process/lab9_signal_wait.c\<close>, \<open>process/lab9_signal_post.c\<close>,
  \<open>process/lab10_sigfault.c\<close> and \<open>thread/lab28_thread_signal.c\<close>. Numbers are those of Linux.
\<close>

definition SIGINT :: nat where "SIGINT = 2"
definition SIGUSR1 :: nat where "SIGUSR1 = 10"
definition SIGSEGV :: nat where "SIGSEGV = 11"

datatype process_end = Exited nat | Terminated nat

subsection \<open>Waiting (\<open>lab9_signal_wait\<close>)\<close>

text \<open>
  How far \<open>main\<close> has come: no handler, the one for \<open>SIGUSR1\<close>, both, then in turn about to print the loop's line
  and in \<open>pause\<close>.
\<close>

datatype wait_at = No_Handler | Usr1_Handled | Both_Handled | At_Loop | In_Pause

record waiter =
  wait_at :: wait_at
  said :: "string list"
  ended_as :: "process_end option"

text \<open>What happens next: the program goes on (which it cannot in \<open>pause\<close>), or a signal arrives.\<close>

datatype wait_event = Goes_On | Arrives nat

definition handle_sig :: "nat \<Rightarrow> waiter \<Rightarrow> waiter" where
  "handle_sig sig w =
     (let w = w\<lparr>said := said w @ [''Received signal '' @ dec_nat sig]\<rparr> in
      if sig = SIGUSR1 then w\<lparr>said := said w @ [''Handling SIGUSR1...''], ended_as := Some (Exited 0)\<rparr>
      else if sig = SIGINT then w\<lparr>said := said w @ [''Ignoring SIGINT (Ctrl+C)...'']\<rparr>
      else w\<lparr>said := said w @ [''Unhandled signal: '' @ dec_nat sig]\<rparr>)"

definition handled :: "nat \<Rightarrow> waiter \<Rightarrow> bool" where
  "handled sig w \<longleftrightarrow>
     (sig = SIGUSR1 \<and> wait_at w \<noteq> No_Handler) \<or> (sig = SIGINT \<and> wait_at w \<noteq> No_Handler \<and> wait_at w \<noteq> Usr1_Handled)"

text \<open>A signal without a handler ends the process; one with a handler runs it, and ends a \<open>pause\<close>.\<close>

definition signal_wait_step :: "int \<Rightarrow> wait_event \<Rightarrow> waiter \<Rightarrow> waiter" where
  "signal_wait_step me e w =
     (if ended_as w \<noteq> None then w
      else case e of
        Goes_On \<Rightarrow>
          (case wait_at w of
             No_Handler \<Rightarrow> w\<lparr>wait_at := Usr1_Handled\<rparr>
           | Usr1_Handled \<Rightarrow> w\<lparr>wait_at := Both_Handled\<rparr>
           | Both_Handled \<Rightarrow> w\<lparr>wait_at := At_Loop, said := said w @ [''Process ID: '' @ dec_int me]\<rparr>
           | At_Loop \<Rightarrow> w\<lparr>wait_at := In_Pause, said := said w @ [''Waiting for SIGUSR1...'']\<rparr>
           | In_Pause \<Rightarrow> w)
      | Arrives sig \<Rightarrow>
          if \<not> handled sig w then w\<lparr>ended_as := Some (Terminated sig)\<rparr>
          else let w = handle_sig sig w
               in if wait_at w = In_Pause \<and> ended_as w = None then w\<lparr>wait_at := At_Loop\<rparr> else w)"

definition signal_wait_main :: "int \<Rightarrow> wait_event list \<Rightarrow> waiter" where
  "signal_wait_main me es = foldl (\<lambda>w e. signal_wait_step me e w) \<lparr>wait_at = No_Handler, said = [], ended_as = None\<rparr> es"

lemma both_handled_step:
  assumes "wait_at w \<notin> {No_Handler, Usr1_Handled}" "ended_as w = None" "e \<in> {Goes_On, Arrives SIGINT}"
  shows "wait_at (signal_wait_step me e w) \<notin> {No_Handler, Usr1_Handled} \<and> ended_as (signal_wait_step me e w) = None"
  using assms by (auto simp: signal_wait_step_def handled_def handle_sig_def Let_def SIGINT_def SIGUSR1_def split: wait_at.splits)

lemma both_handled_stays:
  "wait_at w \<notin> {No_Handler, Usr1_Handled} \<Longrightarrow> ended_as w = None \<Longrightarrow> set es \<subseteq> {Goes_On, Arrives SIGINT} \<Longrightarrow>
     wait_at (foldl (\<lambda>w e. signal_wait_step me e w) w es) \<notin> {No_Handler, Usr1_Handled}
     \<and> ended_as (foldl (\<lambda>w e. signal_wait_step me e w) w es) = None"
proof (induction es arbitrary: w)
  case (Cons e es)
  then show ?case using both_handled_step [of w e me] by simp
qed simp

lemma ended_stays: "ended_as w \<noteq> None \<Longrightarrow> foldl (\<lambda>w e. signal_wait_step me e w) w es = w"
  by (induction es) (simp_all add: signal_wait_step_def)

text \<open>Once both handlers of \<open>lab9_signal_wait.c\<close> are in place the program survives any number of Ctrl+C and ends,
  with status 0, exactly at the first SIGUSR1, at whatever point that arrives; but a signal that arrives
  before its \<open>signal\<close> call ends the process instead.\<close>

theorem signal_wait_ends_on_usr1:
  assumes "set es \<subseteq> {Goes_On, Arrives SIGINT}"
  shows "ended_as (signal_wait_main me ([Goes_On, Goes_On] @ es)) = None
    \<and> ended_as (signal_wait_main me ([Goes_On, Goes_On] @ es @ Arrives SIGUSR1 # fs)) = Some (Exited 0)
    \<and> ended_as (signal_wait_main me (Arrives SIGUSR1 # fs)) = Some (Terminated SIGUSR1)
    \<and> ended_as (signal_wait_main me (Goes_On # Arrives SIGINT # fs)) = Some (Terminated SIGINT)"
proof -
  let ?w = "foldl (\<lambda>w e. signal_wait_step me e w) \<lparr>wait_at = Both_Handled, said = [], ended_as = None\<rparr> es"
  have s: "signal_wait_main me ([Goes_On, Goes_On] @ gs)
      = foldl (\<lambda>w e. signal_wait_step me e w) \<lparr>wait_at = Both_Handled, said = [], ended_as = None\<rparr> gs" for gs
    by (simp add: signal_wait_main_def signal_wait_step_def)
  have w: "wait_at ?w \<notin> {No_Handler, Usr1_Handled}" "ended_as ?w = None"
    using both_handled_stays [of "\<lparr>wait_at = Both_Handled, said = [], ended_as = None\<rparr>" es me] assms by simp_all
  have u: "ended_as (signal_wait_step me (Arrives SIGUSR1) ?w) = Some (Exited 0)"
    using w by (simp add: signal_wait_step_def handled_def handle_sig_def Let_def)
  have "ended_as (foldl (\<lambda>w e. signal_wait_step me e w) (signal_wait_step me (Arrives SIGUSR1) ?w) fs) = Some (Exited 0)"
    using ended_stays [of "signal_wait_step me (Arrives SIGUSR1) ?w" me fs] u by simp
  moreover have e: "signal_wait_step me (Arrives SIGUSR1) \<lparr>wait_at = No_Handler, said = [], ended_as = None\<rparr>
      = \<lparr>wait_at = No_Handler, said = [], ended_as = Some (Terminated SIGUSR1)\<rparr>"
    "signal_wait_step me Goes_On \<lparr>wait_at = No_Handler, said = [], ended_as = None\<rparr> = \<lparr>wait_at = Usr1_Handled, said = [], ended_as = None\<rparr>"
    "signal_wait_step me (Arrives SIGINT) \<lparr>wait_at = Usr1_Handled, said = [], ended_as = None\<rparr>
      = \<lparr>wait_at = Usr1_Handled, said = [], ended_as = Some (Terminated SIGINT)\<rparr>"
    by (simp_all add: signal_wait_step_def handled_def SIGINT_def SIGUSR1_def)
  have "ended_as (signal_wait_main me (Arrives SIGUSR1 # fs)) = Some (Terminated SIGUSR1)"
    "ended_as (signal_wait_main me (Goes_On # Arrives SIGINT # fs)) = Some (Terminated SIGINT)"
    unfolding signal_wait_main_def foldl_Cons e by (simp_all add: ended_stays)
  ultimately show ?thesis using s w by simp
qed

theorem signal_wait_ends_on_usr1_witness:
  "ended_as (signal_wait_main 5 ([Goes_On, Goes_On] @ [Goes_On, Arrives SIGINT, Goes_On] @ [Arrives SIGUSR1])) = Some (Exited 0)"
  using signal_wait_ends_on_usr1 [of "[Goes_On, Arrives SIGINT, Goes_On]" 5 "[]"] by simp

subsection \<open>Sending (\<open>lab9_signal_post\<close>)\<close>

text \<open>
  \<open>kill(pid, sig)\<close>: a positive \<open>pid\<close> is one process, 0 the sender's process group, -1 all processes but the sender, and
  any other negative number the group of that number. A process is its pid and its group; the result is whom the signal
  reaches, the empty list being the error.
\<close>

definition kill_targets :: "int \<Rightarrow> int \<times> int \<Rightarrow> (int \<times> int) list \<Rightarrow> int list" where
  "kill_targets p self procs =
     map fst (filter (\<lambda>(q, g).
       if 0 < p then q = p else if p = 0 then g = snd self else if p = - 1 then q \<noteq> fst self else g = - p) procs)"

text \<open>
  \<open>scanned\<close> is the number \<open>scanf\<close> read; when it read none, \<open>pid\<close> has the indeterminate value \<open>junk\<close>. The result is whom
  SIGUSR1 reaches and what is printed, None when the program itself is among them and ends by the signal.
\<close>

definition signal_post_main :: "int option \<Rightarrow> int \<Rightarrow> int \<times> int \<Rightarrow> (int \<times> int) list \<Rightarrow> int list \<times> string option" where
  "signal_post_main scanned junk self procs =
     (let p = (case scanned of Some p \<Rightarrow> p | None \<Rightarrow> junk); ts = kill_targets p self procs in
      if ts = [] then (ts, Some ''Error sending signal'')
      else if fst self \<in> set ts then (ts, None)
      else (ts, Some (''Sent SIGUSR1 to process '' @ dec_int p)))"

text \<open>
  For a positive number the program signals that process and no other. The number is not checked: 0 signals the whole
  process group, the program itself included, and without a number whatever was in the variable decides.
\<close>

lemma signal_post_targets:
  assumes "distinct (map fst procs)" "(q, g) \<in> set procs" "self \<in> set procs"
  shows "0 < q \<Longrightarrow> q \<noteq> fst self \<Longrightarrow> signal_post_main (Some q) junk self procs = ([q], Some (''Sent SIGUSR1 to process '' @ dec_int q))"
    "snd (signal_post_main (Some 0) junk self procs) = None"
    "signal_post_main None q self procs = signal_post_main (Some q) junk self procs"
proof -
  have f: "map fst (filter (\<lambda>(a, b). a = q) procs) = [q]" using assms(1,2)
    by (induction procs) (auto simp: filter_empty_conv image_iff split: if_splits)
  show "signal_post_main (Some q) junk self procs = ([q], Some (''Sent SIGUSR1 to process '' @ dec_int q))"
    if "0 < q" "q \<noteq> fst self"
  proof -
    have "kill_targets q self procs = [q]" using f that(1) by (simp add: kill_targets_def)
    then show ?thesis using that by (simp add: signal_post_main_def Let_def)
  qed
  have "fst self \<in> set (kill_targets 0 self procs)"
    using assms(3) by (force simp: kill_targets_def)
  then show "snd (signal_post_main (Some 0) junk self procs) = None"
    by (cases "kill_targets 0 self procs") (auto simp: signal_post_main_def Let_def)
  show "signal_post_main None q self procs = signal_post_main (Some q) junk self procs"
    by (simp add: signal_post_main_def)
qed

subsection \<open>A fault (\<open>lab10_sigfault\<close>)\<close>

text \<open>The handler prints and leaves by \<open>_exit\<close>: what is still in the buffer is lost.\<close>

definition handle_sigsegv :: "string \<Rightarrow> stdout \<Rightarrow> string \<times> process_end" where
  "handle_sigsegv address s = (exit_now (printf (''Fault address: '' @ address @ [newline]) s), Exited 1)"

text \<open>
  \<open>main\<close> writes to the address \<open>0x400\<close>, which is never mapped; \<open>installed\<close> is whether the call of \<open>sigaction\<close>
  is made, which is a comment in the source.
\<close>

definition lab10_main :: "bool \<Rightarrow> bool \<Rightarrow> string \<times> process_end" where
  "lab10_main installed terminal =
     (if installed then handle_sigsegv ''0x400'' \<lparr>on_terminal = terminal, pending = [], written = []\<rparr>
      else ([], Terminated SIGSEGV))"

lemma lab10_outcomes:
  "lab10_main False terminal = ([], Terminated SIGSEGV)"
  "lab10_main True True = (''Fault address: 0x400'' @ [newline], Exited 1)" "lab10_main True False = ([], Exited 1)"
  by (simp_all add: lab10_main_def handle_sigsegv_def exit_now_def printf_def Let_def newline_def)

subsection \<open>A signal for a thread (\<open>lab28\<close>)\<close>

datatype sleeper_at = Starting | Registered | Asleep | Woken | Gone
datatype sender_at = About_To_Send | Sending | Joining | Main_Returned

text \<open>The four lines the program prints.\<close>

datatype signal_line = Going_To_Sleep | Woke_Up | Main_Sending | Received_Signal

record thread_signal =
  sleeper :: sleeper_at
  sender :: sender_at
  terminated :: bool
  heard :: "signal_line list"

definition thread_signal_init :: thread_signal where
  "thread_signal_init = \<lparr>sleeper = Starting, sender = About_To_Send, terminated = False, heard = []\<rparr>"

definition tell :: "signal_line \<Rightarrow> thread_signal \<Rightarrow> thread_signal" where
  "tell l s = s\<lparr>heard := heard s @ [l]\<rparr>"

definition thread_func :: "thread_signal \<Rightarrow> thread_signal list" where
  "thread_func s =
     (case sleeper s of
        Starting \<Rightarrow> [s\<lparr>sleeper := Registered\<rparr>]
      | Registered \<Rightarrow> [tell Going_To_Sleep (s\<lparr>sleeper := Asleep\<rparr>)]
      | Asleep \<Rightarrow> [s\<lparr>sleeper := Woken\<rparr>]
      | Woken \<Rightarrow> [tell Woke_Up (s\<lparr>sleeper := Gone\<rparr>)]
      | Gone \<Rightarrow> [])"

text \<open>
  \<open>pthread_kill\<close> with SIGUSR1: the handler runs in the thread and ends its sleep; before it is registered the
  signal ends the process; a thread that has returned is not signalled.
\<close>

definition signal_thread :: "thread_signal \<Rightarrow> thread_signal" where
  "signal_thread s =
     (case sleeper s of
        Starting \<Rightarrow> s\<lparr>terminated := True\<rparr>
      | Asleep \<Rightarrow> tell Received_Signal (s\<lparr>sleeper := Woken\<rparr>)
      | Gone \<Rightarrow> s
      | _ \<Rightarrow> tell Received_Signal s)"

definition main_thread :: "thread_signal \<Rightarrow> thread_signal list" where
  "main_thread s =
     (case sender s of
        About_To_Send \<Rightarrow> [tell Main_Sending (s\<lparr>sender := Sending\<rparr>)]
      | Sending \<Rightarrow> [signal_thread (s\<lparr>sender := Joining\<rparr>)]
      | Joining \<Rightarrow> if sleeper s = Gone then [s\<lparr>sender := Main_Returned\<rparr>] else []
      | Main_Returned \<Rightarrow> [])"

definition signal_next :: "thread_signal \<Rightarrow> thread_signal list" where
  "signal_next s = (if terminated s then [] else thread_func s @ main_thread s)"

text \<open>What has been printed follows from where the two threads are.\<close>

definition signal_inv :: "thread_signal \<Rightarrow> bool" where
  "signal_inv s \<longleftrightarrow>
     (terminated s \<longrightarrow> sleeper s = Starting \<and> sender s = Joining)
   \<and> (sleeper s = Starting \<and> sender s \<in> {Joining, Main_Returned} \<longrightarrow> terminated s)
   \<and> (sender s = Main_Returned \<longrightarrow> sleeper s = Gone)
   \<and> (Woke_Up \<in> set (heard s) \<longleftrightarrow> sleeper s = Gone)
   \<and> (Going_To_Sleep \<in> set (heard s) \<longleftrightarrow> sleeper s \<in> {Asleep, Woken, Gone})
   \<and> (Main_Sending \<in> set (heard s) \<longleftrightarrow> sender s \<noteq> About_To_Send)
   \<and> (Received_Signal \<in> set (heard s) \<longrightarrow> sender s \<in> {Joining, Main_Returned} \<and> sleeper s \<noteq> Starting)"

definition signal_left :: "thread_signal \<Rightarrow> nat" where
  "signal_left s =
     (case sleeper s of Starting \<Rightarrow> 4 | Registered \<Rightarrow> 3 | Asleep \<Rightarrow> 2 | Woken \<Rightarrow> 1 | Gone \<Rightarrow> 0)
     + (case sender s of About_To_Send \<Rightarrow> 3 | Sending \<Rightarrow> 2 | Joining \<Rightarrow> 1 | Main_Returned \<Rightarrow> 0)"

lemma thread_func_inv: "signal_inv s \<Longrightarrow> \<not> terminated s \<Longrightarrow> s' \<in> set (thread_func s) \<Longrightarrow> signal_inv s'"
  by (cases "sleeper s"; simp add: signal_inv_def thread_func_def tell_def; blast)

lemma main_thread_inv: "signal_inv s \<Longrightarrow> \<not> terminated s \<Longrightarrow> s' \<in> set (main_thread s) \<Longrightarrow> signal_inv s'"
  by (cases "sender s"; cases "sleeper s"; simp add: signal_inv_def main_thread_def signal_thread_def tell_def)

lemma signal_inv_step: "signal_inv s \<Longrightarrow> s' \<in> set (signal_next s) \<Longrightarrow> signal_inv s'"
  by (auto simp: signal_next_def intro: thread_func_inv main_thread_inv split: if_splits)

lemma signal_left_step: "s' \<in> set (signal_next s) \<Longrightarrow> signal_left s' < signal_left s"
  by (cases "sleeper s"; cases "sender s")
    (auto simp: signal_left_def signal_next_def thread_func_def main_thread_def signal_thread_def tell_def split: if_splits)

interpretation thread_signal: terminating_system signal_next thread_signal_init signal_inv signal_left
proof
  show "signal_inv thread_signal_init" by (simp add: signal_inv_def thread_signal_init_def)
qed (rule signal_inv_step, assumption+, rule signal_left_step)

text \<open>
  Every schedule ends: regularly, with main returned and the thread woken; or by the signal itself, when it comes before
  the thread has registered its handler, which the second of sleep in \<open>main\<close> makes unlikely but does not exclude.
\<close>

theorem thread_signal_outcomes:
  "(run signal_next thread_signal_init ks = Some s \<longrightarrow> length ks \<le> 7
      \<and> (signal_next s = [] \<longrightarrow>
          (if terminated s then Going_To_Sleep \<notin> set (heard s) \<and> sender s = Joining
           else sender s = Main_Returned \<and> Woke_Up \<in> set (heard s))))
   \<and> (\<exists>t. run signal_next thread_signal_init [1, 1] = Some t \<and> terminated t)"
proof -
  have "length ks \<le> 7" "signal_inv s" if "run signal_next thread_signal_init ks = Some s"
    using thread_signal.run_length [OF that] thread_signal.run_inv [OF that]
    by (simp_all add: signal_left_def thread_signal_init_def)
  moreover have "terminated s \<or> sender s = Main_Returned" if "signal_next s = []"
    using that by (cases "sleeper s"; cases "sender s")
      (auto simp: signal_next_def thread_func_def main_thread_def split: if_splits)
  moreover have "\<exists>t. run signal_next thread_signal_init [1, 1] = Some t \<and> terminated t"
    by (simp add: thread_signal_init_def signal_next_def thread_func_def main_thread_def signal_thread_def tell_def)
  moreover have "Going_To_Sleep \<notin> set (heard s) \<and> sender s = Joining" if "signal_inv s" "terminated s"
    using that by (simp add: signal_inv_def)
  moreover have "Woke_Up \<in> set (heard s)" if "signal_inv s" "sender s = Main_Returned"
    using that by (simp add: signal_inv_def)
  ultimately show ?thesis by presburger
qed

end
