(* ===== verification/Semaphore_Lab.thy ===== *)
theory Semaphore_Lab
  imports Transition
begin

text \<open>
  \<open>process/ipc/lab16_sem1.c\<close>: any number \<open>n\<close> of copies of the program, which append a line to one file under a
  named semaphore used as a mutex. The program never unlinks the semaphore, so it outlives every run.
\<close>

text \<open>\<open>Killed True\<close> is a process that was killed between \<open>sem_wait\<close> and \<open>sem_post\<close>.\<close>

datatype writer_pc = Opening | Waiting | Locked | Wrote | Ended | Killed bool

text \<open>\<open>semaphore\<close> is the named object with its value, if it exists; \<open>shared_file\<close> tells who wrote each line.\<close>

record semlab =
  semaphore :: "nat option"
  writer_at :: "nat \<Rightarrow> writer_pc"
  shared_file :: "nat list"

definition sem_start :: "nat option \<Rightarrow> semlab" where
  "sem_start v = \<lparr>semaphore = v, writer_at = (\<lambda>_. Opening), shared_file = []\<rparr>"

definition goto_writer :: "nat \<Rightarrow> writer_pc \<Rightarrow> semlab \<Rightarrow> semlab" where
  "goto_writer t p s = s\<lparr>writer_at := (writer_at s)(t := p)\<rparr>"

text \<open>
  \<open>sem_open\<close> with \<open>O_CREAT\<close> and the value 1 uses an existing semaphore as it is, and may fail; \<open>fopen\<close> may fail.
\<close>

definition writer_step :: "nat \<Rightarrow> semlab \<Rightarrow> semlab list" where
  "writer_step t s =
     (case writer_at s t of
        Opening \<Rightarrow>
          [goto_writer t Waiting (s\<lparr>semaphore := Some (case semaphore s of None \<Rightarrow> 1 | Some v \<Rightarrow> v)\<rparr>), goto_writer t Ended s]
      | Waiting \<Rightarrow>
          (case semaphore s of
             Some (Suc v) \<Rightarrow> [goto_writer t Locked (s\<lparr>semaphore := Some v\<rparr>)]
           | _ \<Rightarrow> [])
      | Locked \<Rightarrow> [goto_writer t Wrote (s\<lparr>shared_file := shared_file s @ [t]\<rparr>), goto_writer t Wrote s]
      | Wrote \<Rightarrow> [goto_writer t Ended (s\<lparr>semaphore := map_option Suc (semaphore s)\<rparr>)]
      | _ \<Rightarrow> [])"

definition holds :: "writer_pc \<Rightarrow> bool" where
  "holds p \<longleftrightarrow> p = Locked \<or> p = Wrote \<or> p = Killed True"

definition writer_kill :: "nat \<Rightarrow> semlab \<Rightarrow> semlab list" where
  "writer_kill t s =
     (case writer_at s t of
        Ended \<Rightarrow> []
      | Killed _ \<Rightarrow> []
      | p \<Rightarrow> [goto_writer t (Killed (holds p)) s])"

definition sem_next :: "nat \<Rightarrow> bool \<Rightarrow> semlab \<Rightarrow> semlab list" where
  "sem_next n kills s =
     concat (map (\<lambda>t. writer_step t s @ (if kills then writer_kill t s else [])) [0..<n])"

lemma sem_next_mem:
  "s' \<in> set (sem_next n kills s) \<longleftrightarrow> (\<exists>t < n. s' \<in> set (writer_step t s) \<or> kills \<and> s' \<in> set (writer_kill t s))"
  by (auto simp: sem_next_def)

text \<open>
  The value is 1 and nobody holds the semaphore, or it is 0 and exactly one process does; before it exists
  nobody is past \<open>sem_open\<close>.
\<close>

definition sem_inv :: "nat \<Rightarrow> semlab \<Rightarrow> bool" where
  "sem_inv n s \<longleftrightarrow>
     (case semaphore s of
        None \<Rightarrow> \<forall>t. writer_at s t \<in> {Opening, Ended, Killed False}
      | Some v \<Rightarrow>
          v = 1 \<and> (\<forall>t. \<not> holds (writer_at s t))
          \<or> v = 0 \<and> (\<exists>t < n. holds (writer_at s t) \<and> (\<forall>u. u \<noteq> t \<longrightarrow> \<not> holds (writer_at s u))))"

lemma sem_inv_cases:
  assumes "sem_inv n s"
  obtains "semaphore s = None" "\<forall>t. \<not> holds (writer_at s t)" "\<forall>t. writer_at s t \<noteq> Waiting"
  | "semaphore s = Some 1" "\<forall>t. \<not> holds (writer_at s t)"
  | t where "semaphore s = Some 0" "t < n" "holds (writer_at s t)" "\<forall>u. u \<noteq> t \<longrightarrow> \<not> holds (writer_at s u)"
proof (cases "semaphore s")
  case None
  then have a: "\<forall>t. writer_at s t \<in> {Opening, Ended, Killed False}" using assms by (simp add: sem_inv_def)
  have "\<not> holds (writer_at s t) \<and> writer_at s t \<noteq> Waiting" for t
    using a [rule_format, of t] by (auto simp: holds_def)
  with None that show ?thesis by blast
next
  case (Some v)
  with assms that show ?thesis by (auto simp: sem_inv_def)
qed

lemma holds_simps [simp]: "holds Locked" "holds Wrote" "holds (Killed b) = b" "\<not> holds Opening" "\<not> holds Waiting" "\<not> holds Ended"
  by (simp_all add: holds_def)

lemma sem_step:
  assumes i: "sem_inv n s" and v: "s' \<in> set (sem_next n kills s)"
  shows "sem_inv n s'"
proof -
  from v obtain t where t: "t < n" "s' \<in> set (writer_step t s) \<or> s' \<in> set (writer_kill t s)"
    by (auto simp: sem_next_mem)
  from i show ?thesis
  proof (cases rule: sem_inv_cases)
    case 1
    then have "writer_at s u \<in> {Opening, Ended, Killed False}" for u using i by (simp add: sem_inv_def)
    with 1 1(2) [rule_format, of t] t show ?thesis
      by (cases "writer_at s t") (auto simp: sem_inv_def writer_step_def writer_kill_def goto_writer_def)
  next
    case 2
    with t 2(2) [rule_format, of t] show ?thesis
      by (cases "writer_at s t") (auto simp: sem_inv_def writer_step_def writer_kill_def goto_writer_def)
  next
    case (3 u)
    show ?thesis
    proof (cases "t = u")
      case True
      with 3 t show ?thesis
        by (cases "writer_at s t") (auto simp: sem_inv_def writer_step_def writer_kill_def goto_writer_def)
    next
      case False
      with 3 3(4) [rule_format, of t] t have "semaphore s' = Some 0 \<and> (\<forall>v. holds (writer_at s' v) = holds (writer_at s v))"
        by (cases "writer_at s t") (auto simp: writer_step_def writer_kill_def goto_writer_def split: if_splits)
      with 3 show ?thesis by (auto simp: sem_inv_def)
    qed
  qed
qed

definition sem_init :: "bool \<Rightarrow> semlab" where
  "sem_init existing = sem_start (if existing then Some 1 else None)"

interpretation semlab: invariant_system "sem_next n kills" "sem_init existing" "sem_inv n" for n kills existing
proof
  show "sem_inv n (sem_init existing)" by (simp add: sem_inv_def sem_init_def sem_start_def)
qed (rule sem_step)

text \<open>
  A semaphore at 0 that no living process holds: nobody can ever raise it again.
\<close>

definition sem_lost :: "semlab \<Rightarrow> bool" where
  "sem_lost s \<longleftrightarrow> semaphore s = Some 0 \<and> (\<forall>t. writer_at s t \<noteq> Locked \<and> writer_at s t \<noteq> Wrote)"

lemma sem_lost_step:
  assumes "sem_lost s" "s' \<in> set (sem_next n kills s)"
  shows "sem_lost s' \<and> shared_file s' = shared_file s"
proof -
  from assms(2) obtain t where t: "t < n" "s' \<in> set (writer_step t s) \<or> s' \<in> set (writer_kill t s)"
    by (auto simp: sem_next_mem)
  have "writer_at s t \<noteq> Locked" "writer_at s t \<noteq> Wrote" using assms(1) by (simp_all add: sem_lost_def)
  with t(2) assms(1) show ?thesis
    by (cases "writer_at s t") (auto simp: sem_lost_def writer_step_def writer_kill_def goto_writer_def split: if_splits)
qed

lemma sem_lost_reach:
  assumes "reachable (sem_next n kills) s s'" "sem_lost s"
  shows "sem_lost s' \<and> shared_file s' = shared_file s"
  using assms by (induction rule: reachable.induct) (use sem_lost_step in fastforce)+

lemma writer_stuck:
  "writer_step t s = [] \<Longrightarrow> writer_at s t = Ended \<or> (\<exists>b. writer_at s t = Killed b) \<or> (writer_at s t = Waiting \<and> semaphore s \<in> {None, Some 0})"
  by (auto simp: writer_step_def split: writer_pc.splits option.splits nat.splits)

text \<open>C37: The semaphore keeps the writers apart, whether an earlier run left it behind or not: no two of any number
  of copies are ever between \<open>sem_wait\<close> and \<open>sem_post\<close>; if nobody is killed they all come to their end. A
  writer that is killed in between takes the semaphore with it: no process of this or, as nobody unlinks the
  name, of any later run ever writes again.\<close>

theorem semaphore_lab_correct:
  assumes "reachable (sem_next n kills) (sem_init existing) s"
  shows "(\<forall>t u. writer_at s t \<in> {Locked, Wrote} \<and> writer_at s u \<in> {Locked, Wrote} \<longrightarrow> t = u)
    \<and> (\<not> kills \<and> sem_next n kills s = [] \<longrightarrow> (\<forall>t < n. writer_at s t = Ended))
    \<and> (writer_at s t = Killed True \<longrightarrow>
        (\<forall>s'. reachable (sem_next n kills) s s' \<longrightarrow> shared_file s' = shared_file s \<and> semaphore s' = Some 0)
        \<and> (\<forall>m s'. reachable (sem_next m kills) (sem_start (semaphore s)) s' \<longrightarrow> shared_file s' = []))"
proof -
  have i: "sem_inv n s" by (rule semlab.reach_inv [OF assms])
  have nk: "writer_at s t \<noteq> Killed b" if nokill: "\<not> kills" for t b
  proof -
    have "\<forall>t b. writer_at s t \<noteq> Killed b"
    proof (rule reach_keeps [OF assms, where I = "\<lambda>s. \<forall>t b. writer_at s t \<noteq> Killed b"])
      show "\<forall>t b. writer_at (sem_init existing) t \<noteq> Killed b" by (simp add: sem_init_def sem_start_def)
    next
      fix u v assume u: "\<forall>t b. writer_at u t \<noteq> Killed b" and "v \<in> set (sem_next n kills u)"
      then obtain t where "v \<in> set (writer_step t u)" using nokill by (auto simp: sem_next_mem)
      with u show "\<forall>t b. writer_at v t \<noteq> Killed b"
        by (auto simp: writer_step_def goto_writer_def split: writer_pc.splits option.splits nat.splits if_splits)
    qed
    then show ?thesis by blast
  qed
  have one: "t = u" if "holds (writer_at s t)" "holds (writer_at s u)" for t u
    using i that by (cases rule: sem_inv_cases) metis+
  have end0: "writer_at s t = Ended" if k: "\<not> kills" "sem_next n kills s = []" and t: "t < n" for t
  proof -
    have e: "writer_step u s = []" if "u < n" for u using k(2) that by (auto simp: sem_next_def)
    have w: "writer_at s t = Ended \<or> writer_at s t = Waiting \<and> semaphore s \<in> {None, Some 0}"
      using writer_stuck [OF e [OF t]] nk [OF k(1)] by blast
    from i show ?thesis
    proof (cases rule: sem_inv_cases)
      case (3 u)
      then have "writer_step u s \<noteq> []" using nk [OF k(1), of u] by (auto simp: holds_def writer_step_def)
      with e 3 show ?thesis by blast
    qed (use w in auto)
  qed
  have lost: "sem_lost s" if "writer_at s t = Killed True"
    using i
  proof (cases rule: sem_inv_cases)
    case (3 u)
    then have "u = t" using that by (metis holds_simps(3))
    with 3 that have "writer_at s v \<noteq> Locked \<and> writer_at s v \<noteq> Wrote" for v
      by (cases "v = t") (auto simp: holds_def)
    with 3 show ?thesis by (simp add: sem_lost_def)
  qed (use that in \<open>metis holds_simps(3)\<close>)+
  have next_run: "sem_lost (sem_start (semaphore s))" if "writer_at s t = Killed True"
    using lost [OF that] by (simp add: sem_lost_def sem_start_def)
  have "\<forall>t u. writer_at s t \<in> {Locked, Wrote} \<and> writer_at s u \<in> {Locked, Wrote} \<longrightarrow> t = u"
    using one by (metis holds_simps(1,2) insertE singletonD)
  moreover have "shared_file s' = []" if "writer_at s t = Killed True" "reachable (sem_next m kills) (sem_start (semaphore s)) s'" for m s'
    using sem_lost_reach [OF that(2) next_run [OF that(1)]] by (simp add: sem_start_def)
  moreover have "shared_file s' = shared_file s \<and> semaphore s' = Some 0"
    if "writer_at s t = Killed True" "reachable (sem_next n kills) s s'" for s'
    using sem_lost_reach [OF that(2) lost [OF that(1)]] by (simp add: sem_lost_def)
  ultimately show ?thesis using end0 by blast
qed

theorem semaphore_lab_correct_witness:
  "\<exists>s. run (sem_next 2 True) (sem_init False) [0, 0, 2] = Some s \<and> writer_at s 0 = Killed True
    \<and> (\<forall>m s'. reachable (sem_next m True) (sem_start (semaphore s)) s' \<longrightarrow> shared_file s' = [])"
proof -
  have "case run (sem_next 2 True) (sem_init False) [0, 0, 2] of Some s \<Rightarrow> writer_at s 0 = Killed True | None \<Rightarrow> False"
    by (simp add: sem_next_def writer_step_def writer_kill_def goto_writer_def sem_init_def sem_start_def upt_rec)
  then obtain s where s: "run (sem_next 2 True) (sem_init False) [0, 0, 2] = Some s" "writer_at s 0 = Killed True"
    by (auto split: option.splits)
  from semaphore_lab_correct [OF run_reachable [OF s(1)], of 0] s show ?thesis by blast
qed

end
