(* ===== verification/False_Sharing.thy ===== *)
theory False_Sharing
  imports Transition
begin

text \<open>
  \<open>thread/lab33_falsesharing.c\<close> and \<open>thread/lab33_falsesharingWithPadding.c\<close>: four threads that count in
  their own element of one array. The two programs differ only in the size of an element; which elements
  share a cache line follows from the layout of the structure.
\<close>

subsection \<open>Layout\<close>

definition align_up :: "nat \<Rightarrow> nat \<Rightarrow> nat" where
  "align_up a n = (n + a - 1) div a * a"

text \<open>A structure as its fields' sizes and alignments: where the fields end, and the size of the whole.\<close>

fun fields_end :: "(nat \<times> nat) list \<Rightarrow> nat \<Rightarrow> nat" where
  "fields_end [] off = off"
| "fields_end ((size0, a) # fs) off = fields_end fs (align_up a off + size0)"

definition struct_size :: "(nat \<times> nat) list \<Rightarrow> nat" where
  "struct_size fs = align_up (fold max (map snd fs) 1) (fields_end fs 0)"

definition CACHE_LINE_SIZE :: nat where "CACHE_LINE_SIZE = 64"
definition LONG_LONG :: "nat \<times> nat" where "LONG_LONG = (8, 8)"

definition counter_no_padding_t :: "(nat \<times> nat) list" where
  "counter_no_padding_t = [LONG_LONG]"

text \<open>
  The attribute in the source stands behind the semicolon that ends the field, so it declares nothing:
  \<open>value\<close> keeps the alignment of a \<open>long long\<close>. The padding is \<open>CACHE_LINE_SIZE - sizeof(int)\<close> bytes.
\<close>

definition counter_padded_t :: "(nat \<times> nat) list" where
  "counter_padded_t = [LONG_LONG, (CACHE_LINE_SIZE - 4, 1)]"

text \<open>The cache line of element \<open>i\<close> of an array of such structures at \<open>base\<close>.\<close>

definition line_of :: "(nat \<times> nat) list \<Rightarrow> nat \<Rightarrow> nat \<Rightarrow> nat" where
  "line_of t base i = (base + struct_size t * i) div CACHE_LINE_SIZE"

definition NUM_THREADS :: nat where "NUM_THREADS = 4"

lemma struct_sizes: "struct_size counter_no_padding_t = 8" "struct_size counter_padded_t = 72"
  by (simp_all add: struct_size_def counter_no_padding_t_def counter_padded_t_def LONG_LONG_def CACHE_LINE_SIZE_def
      align_up_def)

lemma intended_size: "struct_size [LONG_LONG, (7 * 8, 1)] = CACHE_LINE_SIZE"
  by (simp add: struct_size_def LONG_LONG_def CACHE_LINE_SIZE_def align_up_def)

lemma padded_lines_increase: "i < j \<Longrightarrow> line_of counter_padded_t base i < line_of counter_padded_t base j"
proof -
  assume ij: "i < j"
  have "(base + 72 * i) div 64 < (base + 72 * i + 64) div 64" by simp
  also have "\<dots> \<le> (base + 72 * j) div 64" using ij by (intro div_le_mono) simp
  finally show ?thesis by (simp add: line_of_def struct_sizes CACHE_LINE_SIZE_def)
qed

lemma unpadded_lines_meet:
  "line_of counter_no_padding_t base 0 = line_of counter_no_padding_t base 1
   \<or> line_of counter_no_padding_t base 1 = line_of counter_no_padding_t base 2"
proof -
  have "base div 64 = (base + 8) div 64 \<or> (base + 8) div 64 = (base + 16) div 64" by arith
  then show ?thesis by (simp add: line_of_def struct_sizes CACHE_LINE_SIZE_def)
qed

text \<open>An element's \<open>value\<close> lies in one line only, as it is aligned.\<close>

lemma value_in_one_line:
  assumes "8 dvd base" "8 dvd struct_size t"
  shows "(base + struct_size t * i + 7) div CACHE_LINE_SIZE = line_of t base i"
proof -
  from assms have "8 dvd base + struct_size t * i" by simp
  then obtain k where "base + struct_size t * i = 8 * k" by (auto elim: dvdE)
  moreover have "(8 * k + 7) div 64 = 8 * k div 64" for k :: nat by arith
  ultimately show ?thesis by (simp add: line_of_def CACHE_LINE_SIZE_def)
qed

text \<open>Padding does keep the counters apart: wherever the array lies, no two of the padded counters share a cache
  line, and without padding two of the four always do. The padded structure has 72 bytes, not the 64 that
  the comments compute, as the alignment attribute is not attached to the field and the padding is 60
  bytes.\<close>

theorem padding_separates_counters:
  assumes "8 dvd base"
  shows "inj_on (line_of counter_padded_t base) {..<NUM_THREADS} \<and> \<not> inj_on (line_of counter_no_padding_t base) {..<NUM_THREADS}
    \<and> (\<forall>t \<in> {counter_padded_t, counter_no_padding_t}. \<forall>i. (base + struct_size t * i + 7) div CACHE_LINE_SIZE = line_of t base i)
    \<and> struct_size counter_padded_t = 72 \<and> struct_size [LONG_LONG, (7 * 8, 1)] = CACHE_LINE_SIZE"
proof -
  have "inj_on (line_of counter_padded_t base) {..<NUM_THREADS}"
    by (rule inj_onI, rule ccontr) (metis linorder_neqE_nat nat_neq_iff padded_lines_increase)
  moreover have "\<not> inj_on (line_of counter_no_padding_t base) {..<NUM_THREADS}"
  proof
    assume i: "inj_on (line_of counter_no_padding_t base) {..<NUM_THREADS}"
    then show False using unpadded_lines_meet [of base] inj_onD [OF i, of 0 1] inj_onD [OF i, of 1 2]
      by (auto simp: NUM_THREADS_def)
  qed
  moreover have "\<forall>t \<in> {counter_padded_t, counter_no_padding_t}. 8 dvd struct_size t" by (simp add: struct_sizes)
  ultimately show ?thesis
    using value_in_one_line [OF assms] intended_size struct_sizes(2) by blast
qed

theorem padding_separates_counters_witness:
  "inj_on (line_of counter_padded_t 4128) {..<NUM_THREADS} \<and> \<not> inj_on (line_of counter_no_padding_t 4128) {..<NUM_THREADS}"
  using padding_separates_counters [of 4128] by simp

subsection \<open>The threads\<close>

text \<open>
  \<open>value++\<close> of a volatile counter is a load and a store. \<open>iters\<close> is \<open>ITERATIONS\<close>, \<open>loops\<close> the loop variable.
\<close>

datatype sharing_pc = Loading | Storing int | Returned

record sharing =
  counters :: "nat \<Rightarrow> int"
  loops :: "nat \<Rightarrow> nat"
  counter_at :: "nat \<Rightarrow> sharing_pc"

definition ITERATIONS :: nat where "ITERATIONS = 100000000"

definition sharing_init :: sharing where
  "sharing_init = \<lparr>counters = (\<lambda>_. 0), loops = (\<lambda>_. 0), counter_at = (\<lambda>_. Loading)\<rparr>"

definition thread_func :: "nat \<Rightarrow> nat \<Rightarrow> sharing \<Rightarrow> sharing list" where
  "thread_func iters t s =
     (case counter_at s t of
        Loading \<Rightarrow>
          if loops s t < iters then [s\<lparr>counter_at := (counter_at s)(t := Storing (counters s t))\<rparr>]
          else [s\<lparr>counter_at := (counter_at s)(t := Returned)\<rparr>]
      | Storing v \<Rightarrow>
          [s\<lparr>counters := (counters s)(t := v + 1), loops := (loops s)(t := loops s t + 1),
             counter_at := (counter_at s)(t := Loading)\<rparr>]
      | Returned \<Rightarrow> [])"

definition sharing_next :: "nat \<Rightarrow> sharing \<Rightarrow> sharing list" where
  "sharing_next iters s = concat (map (\<lambda>t. thread_func iters t s) [0..<NUM_THREADS])"

text \<open>\<open>main\<close> after the joins: the sum, and whether it prints that the result is correct.\<close>

definition verify :: "nat \<Rightarrow> sharing \<Rightarrow> int \<times> bool" where
  "verify iters s =
     (let total_sum = foldl (\<lambda>sum i. sum + counters s i) 0 [0..<NUM_THREADS]
      in (total_sum, total_sum = int (NUM_THREADS * iters)))"

definition thread_ok :: "nat \<Rightarrow> int \<Rightarrow> nat \<Rightarrow> sharing_pc \<Rightarrow> bool" where
  "thread_ok iters c l p \<longleftrightarrow>
     c = int l \<and> (case p of Loading \<Rightarrow> l \<le> iters | Storing v \<Rightarrow> v = int l \<and> l < iters | Returned \<Rightarrow> l = iters)"

definition sharing_inv :: "nat \<Rightarrow> sharing \<Rightarrow> bool" where
  "sharing_inv iters s \<longleftrightarrow> (\<forall>t. thread_ok iters (counters s t) (loops s t) (counter_at s t))"

definition thread_left :: "nat \<Rightarrow> nat \<Rightarrow> sharing \<Rightarrow> nat" where
  "thread_left iters t s =
     (case counter_at s t of Loading \<Rightarrow> 2 * (iters - loops s t) + 1 | Storing v \<Rightarrow> 2 * (iters - loops s t) | Returned \<Rightarrow> 0)"

definition sharing_left :: "nat \<Rightarrow> sharing \<Rightarrow> nat" where
  "sharing_left iters s = sum_list (map (\<lambda>t. thread_left iters t s) [0..<NUM_THREADS])"

lemma sharing_next_mem: "s' \<in> set (sharing_next iters s) \<longleftrightarrow> (\<exists>t < NUM_THREADS. s' \<in> set (thread_func iters t s))"
  by (auto simp: sharing_next_def)

lemma sharing_step:
  assumes i: "sharing_inv iters s" and v: "s' \<in> set (sharing_next iters s)"
  shows "sharing_inv iters s' \<and> sharing_left iters s' < sharing_left iters s"
proof -
  from v obtain t where t: "t < NUM_THREADS" "s' \<in> set (thread_func iters t s)" by (auto simp: sharing_next_mem)
  have ok: "thread_ok iters (counters s t) (loops s t) (counter_at s t)" using i by (simp add: sharing_inv_def)
  have "thread_ok iters (counters s' t) (loops s' t) (counter_at s' t)"
    using ok t(2) by (cases "counter_at s t") (auto simp: thread_ok_def thread_func_def split: if_splits)
  moreover have "counters s' u = counters s u \<and> loops s' u = loops s u \<and> counter_at s' u = counter_at s u" if "u \<noteq> t" for u
    using t(2) that by (auto simp: thread_func_def split: sharing_pc.splits if_splits)
  ultimately have inv: "sharing_inv iters s'" using i unfolding sharing_inv_def by metis
  have it: "counter_at s t = Storing v \<Longrightarrow> loops s t < iters" for v using ok by (simp add: thread_ok_def)
  have d: "thread_left iters t s' < thread_left iters t s"
    using t(2) it by (auto simp: thread_func_def thread_left_def split: sharing_pc.splits if_splits)
  have o: "thread_left iters u s' = thread_left iters u s" if "u \<noteq> t" for u
    using t(2) that by (auto simp: thread_func_def thread_left_def split: sharing_pc.splits if_splits)
  have "t = 0 \<or> t = 1 \<or> t = 2 \<or> t = 3" using t(1) by (auto simp: NUM_THREADS_def)
  then have "sharing_left iters s' < sharing_left iters s"
    using d o [of 0] o [of 1] o [of 2] o [of 3]
    by (auto simp: sharing_left_def NUM_THREADS_def upt_rec numeral_2_eq_2 numeral_3_eq_3)
  with inv show ?thesis ..
qed

text \<open>With a counter of its own for each thread nothing is lost: every schedule of the four threads ends, after
  two memory accesses per iteration and one step to return, and when it has ended the program finds four times the
  number of iterations, 400,000,000 for \<open>ITERATIONS\<close>, and reports the result as correct.\<close>

theorem sharing_sum_correct:
  assumes "run (sharing_next iters) sharing_init ks = Some s"
  shows "length ks \<le> 4 * (2 * iters + 1)
    \<and> (sharing_next iters s = [] \<longrightarrow> verify iters s = (4 * int iters, True) \<and> (\<forall>t < NUM_THREADS. counters s t = int iters))"
proof -
  have i0: "sharing_inv iters sharing_init" by (simp add: sharing_inv_def sharing_init_def thread_ok_def)
  have "length ks + sharing_left iters s \<le> sharing_left iters sharing_init"
    by (rule run_bounded_inv [where I = "sharing_inv iters", OF assms i0]) (rule sharing_step)
  moreover have "sharing_left iters sharing_init = 4 * (2 * iters + 1)"
    by (simp add: sharing_left_def thread_left_def sharing_init_def NUM_THREADS_def upt_rec)
  moreover have i: "sharing_inv iters s"
    by (rule reach_keeps [OF run_reachable [OF assms], where I = "sharing_inv iters"]) (use i0 sharing_step in blast)+
  have "counters s t = int iters" if "sharing_next iters s = []" "t < NUM_THREADS" for t
  proof -
    from that have "thread_func iters t s = []" by (simp add: sharing_next_def)
    then have "counter_at s t = Returned" by (auto simp: thread_func_def split: sharing_pc.splits if_splits)
    moreover have "thread_ok iters (counters s t) (loops s t) (counter_at s t)" using i by (simp add: sharing_inv_def)
    ultimately show ?thesis by (simp add: thread_ok_def)
  qed
  ultimately show ?thesis by (auto simp: verify_def NUM_THREADS_def upt_rec)
qed

theorem sharing_sum_correct_witness:
  "\<exists>s. run (sharing_next 1) sharing_init (replicate 12 0) = Some s \<and> verify 1 s = (4, True)"
proof -
  have "case run (sharing_next 1) sharing_init (replicate 12 0) of Some s \<Rightarrow> sharing_next 1 s = [] | None \<Rightarrow> False"
    by (simp add: sharing_next_def thread_func_def sharing_init_def NUM_THREADS_def upt_rec numeral_eq_Suc)
  then obtain s where "run (sharing_next 1) sharing_init (replicate 12 0) = Some s" "sharing_next 1 s = []"
    by (auto split: option.splits)
  with sharing_sum_correct [OF this(1)] show ?thesis by auto
qed

end
