(* ===== verification/Demo_Labs.thy ===== *)
theory Demo_Labs
  imports Transition Sys_Calls
begin

text \<open>
  The remaining demonstration programs: \<open>process/lab1_stdout.c\<close>, \<open>lab2_background.c\<close>, \<open>ipc/lab13_pipe.c\<close>,
  \<open>ipc/lab14_queue1_send_timeout.c\<close>, and on threads \<open>lab18_thrCreation.c\<close>, \<open>lab19_thrDetached.c\<close>,
  \<open>lab20_thrGetValue.c\<close> and \<open>lab30_thread_affinity.c\<close>. Printed lines are without their line ends.
\<close>

subsection \<open>Processes\<close>

text \<open>\<open>lab1_stdout.c\<close>: a failed \<open>open\<close> is only reported.\<close>

definition lab1_stdout_main :: "int sys" where
  "lab1_stdout_main =
     do { fd \<leftarrow> new_fd (Fifo_Fd ''nonexistent.txt'');
          (if fd = - 1 then say (Stderr ''open failed'') else State_Monad.return ());
          say (Stdout ''This message will not be printed '');
          State_Monad.return 0 }"

text \<open>The line that says it will not be printed is printed, whether the file exists or not.\<close>

lemma lab1_prints_anyway:
  "Stdout ''This message will not be printed '' \<in> set (console (snd (run_state lab1_stdout_main k)))"
  by (simp add: lab1_stdout_main_def sys_defs)

text \<open>\<open>lab2_background.c\<close>: the lines printed from a value of \<open>count\<close> on.\<close>

function background_loop :: "nat \<Rightarrow> string list" where
  "background_loop count0 =
     (''Program running... count: '' @ dec_nat count0)
     # (if 100 \<le> count0 + 1 then [''Program finished after 100 iterations''] else background_loop (count0 + 1))"
  by pat_completeness auto
termination by (relation "measure (\<lambda>count0. 100 - count0)") auto
declare background_loop.simps [simp del]

definition lab2_background_main :: "string list" where
  "lab2_background_main = background_loop 0"

lemma background_loop_eq:
  "n < 100 \<Longrightarrow> background_loop n = map (\<lambda>i. ''Program running... count: '' @ dec_nat i) [n..<100] @ [''Program finished after 100 iterations'']"
proof (induction n rule: background_loop.induct)
  case (1 n)
  then show ?case by (subst background_loop.simps) (auto simp: upt_rec)
qed

text \<open>The loop, written as an endless one, prints the counts 0 to 99 and ends.\<close>

lemma lab2_background_prints:
  "lab2_background_main = map (\<lambda>i. ''Program running... count: '' @ dec_nat i) [0..<100] @ [''Program finished after 100 iterations'']"
  by (simp only: lab2_background_main_def background_loop_eq)

text \<open>
  \<open>lab13_pipe.c\<close>: the exit status of each process with its own \<open>x\<close>, the parent's first; \<open>pipe_ok\<close> is whether
  \<open>pipe\<close> succeeds, \<open>fork_result\<close> what \<open>fork\<close> returns in the parent.
\<close>

definition lab13_main :: "bool \<Rightarrow> int \<Rightarrow> (nat \<times> int) list" where
  "lab13_main pipe_ok fork_result =
     (let x = 152; after_fork = (\<lambda>n :: int. if n = 0 then (0, x) else (0, x + 1)) in
      if \<not> pipe_ok then [(1, x)]
      else if fork_result < 0 then [(1, x)]
      else [after_fork fork_result, after_fork 0])"

lemma lab13_separate_memory: "0 < n \<Longrightarrow> lab13_main True n = [(0, 153), (0, 152)]"
  by (simp add: lab13_main_def Let_def)

text \<open>\<open>lab14_queue1_send_timeout.c\<close>: the queue afterwards and the line printed.\<close>

definition send_timeout_main :: "string list \<Rightarrow> string list \<times> string" where
  "send_timeout_main queue = (let message = ''Hello with timeout!'' in (queue, ''Message sent with 500ms timeout: '' @ message))"

text \<open>It reports a message as sent and sends none.\<close>

lemma send_timeout_sends_nothing: "send_timeout_main queue = (queue, ''Message sent with 500ms timeout: Hello with timeout!'')"
  by (simp add: send_timeout_main_def Let_def)

subsection \<open>A value from a thread (\<open>lab20\<close>)\<close>

text \<open>The block a thread allocates and its content; \<open>live\<close> are the blocks not freed.\<close>

record thread_heap =
  block :: "nat \<Rightarrow> int"
  live :: "nat set"
  next_block :: nat

definition thread_function :: "bool \<Rightarrow> thread_heap \<Rightarrow> nat option \<times> thread_heap" where
  "thread_function alloc_ok h =
     (if \<not> alloc_ok then (None, h)
      else let num = next_block h
           in (Some num, h\<lparr>block := (block h)(num := 42), live := insert num (live h), next_block := Suc num\<rparr>))"

datatype lab20_end = Create_Failed | Join_Failed | Shown int thread_heap | Null_Read

definition lab20_main :: "bool \<Rightarrow> bool \<Rightarrow> bool \<Rightarrow> thread_heap \<Rightarrow> lab20_end" where
  "lab20_main create_ok join_ok alloc_ok h =
     (if \<not> create_ok then Create_Failed
      else case thread_function alloc_ok h of (return_value, h1) \<Rightarrow>
        if \<not> join_ok then Join_Failed
        else case return_value of
               None \<Rightarrow> Null_Read
             | Some r \<Rightarrow> Shown (block h1 r) (h1\<lparr>live := live h1 - {r}\<rparr>))"

text \<open>
  The value comes through and its block is freed; but a thread that could not allocate returns NULL, as its comment
  says \<open>to indicate an error\<close>, and main reads through it.
\<close>

lemma lab20_outcomes:
  "next_block h \<notin> live h \<Longrightarrow> \<exists>h'. lab20_main True True True h = Shown 42 h' \<and> live h' = live h"
  "lab20_main True True False h = Null_Read"
  by (auto simp: lab20_main_def thread_function_def Let_def)

subsection \<open>Threads and the life of main (\<open>lab18\<close>, \<open>lab19\<close>)\<close>

text \<open>
  \<open>hello\<close> is an array of \<open>main\<close>. In \<open>lab18\<close> main waits for the thread, which never returns; in \<open>lab19\<close> main ends
  itself by \<open>pthread_exit\<close> and the array's life with it, while the detached thread goes on.
\<close>

datatype greeter_at = Greeter_Asleep | Greeter_Loops nat | Greeter_Done

record greeting =
  main_ended :: bool
  greeter :: greeter_at
  printed :: "string list"
  dangling_read :: bool

definition greeting_init :: greeting where
  "greeting_init = \<lparr>main_ended = False, greeter = Greeter_Asleep, printed = [], dangling_read = False\<rparr>"

definition hello :: string where "hello = ''Hello World!''"

definition print_hello :: "greeting \<Rightarrow> greeting" where
  "print_hello s = s\<lparr>printed := printed s @ [hello], dangling_read := dangling_read s \<or> main_ended s\<rparr>"

definition myTheadFunction :: "greeting \<Rightarrow> greeting list" where
  "myTheadFunction s =
     (case greeter s of
        Greeter_Asleep \<Rightarrow> [print_hello (s\<lparr>greeter := Greeter_Loops 0\<rparr>)]
      | Greeter_Loops n \<Rightarrow> [s\<lparr>greeter := Greeter_Loops (Suc n), printed := printed s @ [''Thread is still running...'']\<rparr>]
      | Greeter_Done \<Rightarrow> [])"

definition lab18_next :: "greeting \<Rightarrow> greeting list" where
  "lab18_next s = myTheadFunction s @ (if greeter s = Greeter_Done \<and> \<not> main_ended s then [s\<lparr>main_ended := True\<rparr>] else [])"

definition hello_arg :: "greeting \<Rightarrow> greeting list" where
  "hello_arg s = (case greeter s of Greeter_Asleep \<Rightarrow> [print_hello (s\<lparr>greeter := Greeter_Done\<rparr>)] | _ \<Rightarrow> [])"

definition lab19_next :: "greeting \<Rightarrow> greeting list" where
  "lab19_next s = hello_arg s @ (if main_ended s then [] else [s\<lparr>main_ended := True\<rparr>])"

text \<open>\<open>lab18\<close> never ends and never reads a dead array.\<close>

definition lab18_inv :: "greeting \<Rightarrow> bool" where
  "lab18_inv s \<longleftrightarrow> greeter s \<noteq> Greeter_Done \<and> \<not> main_ended s \<and> \<not> dangling_read s"

interpretation lab18: invariant_system lab18_next greeting_init lab18_inv
proof
  show "lab18_inv greeting_init" by (simp add: lab18_inv_def greeting_init_def)
next
  fix u v assume "lab18_inv u" "v \<in> set (lab18_next u)"
  then show "lab18_inv v"
    by (auto simp: lab18_inv_def lab18_next_def myTheadFunction_def print_hello_def split: greeter_at.splits)
qed

lemma lab18_never_ends: "reachable lab18_next greeting_init s \<Longrightarrow> lab18_next s \<noteq> [] \<and> \<not> main_ended s \<and> \<not> dangling_read s"
  using lab18.reach_inv [of s]
  by (auto simp: lab18_inv_def lab18_next_def myTheadFunction_def split: greeter_at.splits)

text \<open>
  \<open>lab19\<close> always comes to an end with the greeting printed once; when main is faster than the thread, as the second of
  sleep in the thread makes it, the thread reads the array after its life has ended.
\<close>

definition lab19_inv :: "greeting \<Rightarrow> bool" where
  "lab19_inv s \<longleftrightarrow>
     (case greeter s of Greeter_Asleep \<Rightarrow> printed s = [] \<and> \<not> dangling_read s | Greeter_Done \<Rightarrow> printed s = [hello] | _ \<Rightarrow> False)"

interpretation lab19: invariant_system lab19_next greeting_init lab19_inv
proof
  show "lab19_inv greeting_init" by (simp add: lab19_inv_def greeting_init_def)
next
  fix u v assume "lab19_inv u" "v \<in> set (lab19_next u)"
  then show "lab19_inv v"
    by (cases "greeter u") (auto simp: lab19_inv_def lab19_next_def hello_arg_def print_hello_def split: if_splits)
qed

lemma lab19_outcomes:
  "reachable lab19_next greeting_init s \<Longrightarrow> lab19_next s = [] \<Longrightarrow> printed s = [hello] \<and> main_ended s"
  "\<exists>t. run lab19_next greeting_init [1, 0] = Some t \<and> lab19_next t = [] \<and> dangling_read t"
  "\<exists>t. run lab19_next greeting_init [0, 0] = Some t \<and> lab19_next t = [] \<and> \<not> dangling_read t"
proof -
  show "printed s = [hello] \<and> main_ended s" if "reachable lab19_next greeting_init s" "lab19_next s = []"
    using lab19.reach_inv [OF that(1)] that(2)
    by (cases "greeter s") (auto simp: lab19_inv_def lab19_next_def hello_arg_def split: if_splits)
qed (simp_all add: lab19_next_def hello_arg_def print_hello_def greeting_init_def)

subsection \<open>The processor of a thread (\<open>lab30\<close>)\<close>

text \<open>
  The thread prints the processor it runs on, which the scheduler chooses among \<open>cpus\<close> until main has bound it to number 2.
\<close>

record affinity =
  bound :: bool
  cpu_shown :: "nat option"

definition lab30_next :: "nat list \<Rightarrow> affinity \<Rightarrow> affinity list" where
  "lab30_next cpus s =
     (if cpu_shown s = None then map (\<lambda>c. s\<lparr>cpu_shown := Some c\<rparr>) (if bound s then [2] else cpus) else [])
     @ (if bound s then [] else [s\<lparr>bound := True\<rparr>])"

text \<open>So the line may show any processor: the binding comes too late when the thread prints first.\<close>

lemma lab30_shows_any_cpu:
  assumes "c \<in> set cpus"
  shows "\<exists>s. reachable (lab30_next cpus) \<lparr>bound = False, cpu_shown = None\<rparr> s \<and> cpu_shown s = Some c \<and> bound s"
proof -
  let ?s0 = "\<lparr>bound = False, cpu_shown = None\<rparr>" and ?s1 = "\<lparr>bound = False, cpu_shown = Some c\<rparr>" and ?s2 = "\<lparr>bound = True, cpu_shown = Some c\<rparr>"
  have "?s1 \<in> set (lab30_next cpus ?s0)" "?s2 \<in> set (lab30_next cpus ?s1)"
    using assms by (auto simp: lab30_next_def)
  then have "reachable (lab30_next cpus) ?s0 ?s2" by (blast intro: reachable.intros)
  then show ?thesis by (intro exI [of _ ?s2]) simp
qed

end
