(* ===== verification/First_Labs.thy ===== *)
theory First_Labs
  imports Crc_Lib Small_Labs CJson_Data
begin

text \<open>
  The first programs of the course: the tables of \<open>lab2/main.c\<close> and \<open>lab3/main.c\<close>, the clients of the CRC library
  in \<open>lab4_toolchain\<close> to \<open>lab7_shared_lib\<close>, the client of the two libraries of \<open>seance6/linking_demo\<close>, and
  the loop that \<open>seance_4/time1.c\<close> measures.
\<close>

subsection \<open>Tables on three kinds of memory (\<open>lab2\<close>, \<open>lab3\<close>)\<close>

definition gtable_size :: nat where "gtable_size = 256"

text \<open>
  The loop that fills the global, the local and the allocated table; None is an access outside a table or
  through the NULL that a failed \<open>malloc\<close> returned.
\<close>

function fill_tables ::
  "nat \<Rightarrow> u32 list \<Rightarrow> u32 list \<Rightarrow> u32 list option \<Rightarrow> (u32 list \<times> u32 list \<times> u32 list) option" where
  "fill_tables i g l p =
     (if i < gtable_size then
        if i < length g \<and> i < length l then
          let g' = g[i := word_of_nat i]; l' = l[i := g' ! i + 1] in
          (case p of
             None \<Rightarrow> None
           | Some pt \<Rightarrow> if i < length pt then fill_tables (i + 1) g' l' (Some (pt[i := g' ! i + 2])) else None)
        else None
      else map_option (\<lambda>pt. (g, l, pt)) p)"
  by pat_completeness auto
termination by (relation "measure (\<lambda>(i, _). gtable_size - i)") auto
declare fill_tables.simps [simp del]

definition table_lines :: "u32 list \<Rightarrow> u32 list \<Rightarrow> string list" where
  "table_lines l p =
     concat (map (\<lambda>i. [''local_table['' @ dec_nat i @ ''] = '' @ dec_int (sint (l ! i)) @ '' '',
                       ''ptable['' @ dec_nat i @ ''] = '' @ dec_int (sint (p ! i)) @ '' '']) [0..<gtable_size])"

text \<open>\<open>malloced\<close> is the block \<open>malloc\<close> returned, with whatever it holds; the result is the lines printed.\<close>

definition lab2_main :: "int \<Rightarrow> int \<Rightarrow> u32 list option \<Rightarrow> string list option" where
  "lab2_main me my_parent malloced =
     (case fill_tables 0 (replicate gtable_size 0) (replicate gtable_size 0) malloced of
        None \<Rightarrow> None
      | Some (g, l, p) \<Rightarrow>
          Some ([''LAB2---------------------- '',
                 ''Hello world from process id ='' @ dec_int me @ '' my ppid ='' @ dec_int my_parent @ '' ''] @ table_lines l p))"

definition lab3_main :: "int \<Rightarrow> int \<Rightarrow> u32 list option \<Rightarrow> string list option" where
  "lab3_main me my_parent malloced =
     (case fill_tables 0 (replicate gtable_size 0) (replicate gtable_size 0) malloced of
        None \<Rightarrow> None
      | Some (g, l, p) \<Rightarrow>
          Some ([''LAB3---------------------- '',
                 ''Hello world from process id ='' @ dec_int me @ '' my ppid ='' @ dec_int my_parent @ '' ''] @ table_lines l p))"

lemma take_Suc_list_update: "i < length xs \<Longrightarrow> take (Suc i) (xs[i := x]) = take i xs @ [x]"
  by (simp add: take_Suc_conv_app_nth)

lemma fill_tables_fills:
  "i \<le> gtable_size \<Longrightarrow> length g = gtable_size \<Longrightarrow> length l = gtable_size \<Longrightarrow> length pt = gtable_size \<Longrightarrow>
     fill_tables i g l (Some pt) = Some (take i g @ map word_of_nat [i..<gtable_size],
       take i l @ map (\<lambda>i. word_of_nat i + 1) [i..<gtable_size], take i pt @ map (\<lambda>i. word_of_nat i + 2) [i..<gtable_size])"
proof (induction "gtable_size - i" arbitrary: i g l pt)
  case 0
  then show ?case by (subst fill_tables.simps) simp
next
  case (Suc n)
  then have i: "i < gtable_size" by simp
  then have u: "[i..<gtable_size] = i # [Suc i..<gtable_size]" by (simp add: upt_rec)
  have "fill_tables i g l (Some pt)
      = fill_tables (Suc i) (g[i := word_of_nat i]) (l[i := word_of_nat i + 1]) (Some (pt[i := word_of_nat i + 2]))"
    using i Suc.prems by (subst fill_tables.simps) (simp add: Let_def)
  also have "\<dots> = Some (take i g @ map word_of_nat [i..<gtable_size],
       take i l @ map (\<lambda>i. word_of_nat i + 1) [i..<gtable_size], take i pt @ map (\<lambda>i. word_of_nat i + 2) [i..<gtable_size])"
    using i Suc.prems Suc.hyps(2)
    by (subst Suc.hyps(1)) (simp_all add: take_Suc_list_update u)
  finally show ?case .
qed

definition two_lines :: "nat \<Rightarrow> string list" where
  "two_lines i = [''local_table['' @ dec_nat i @ ''] = '' @ dec_nat (i + 1) @ '' '', ''ptable['' @ dec_nat i @ ''] = '' @ dec_nat (i + 2) @ '' '']"

lemma sint_small: "k < 2 ^ 31 \<Longrightarrow> sint (word_of_nat k :: u32) = int k"
  by (simp add: signed_of_nat signed_take_bit_int_eq_self)

lemma dec_int_of_nat [simp]: "dec_int (int n) = dec_nat n"
  by (simp add: dec_int_def)

lemma dec_sums:
  assumes "i < 256"
  shows "dec_int (sint (word_of_nat i + 1 :: u32)) = dec_nat (i + 1)" "dec_int (sint (word_of_nat i + 2 :: u32)) = dec_nat (i + 2)"
proof -
  have "word_of_nat i + 1 = (word_of_nat (i + 1) :: u32)" "word_of_nat i + 2 = (word_of_nat (i + 2) :: u32)" by simp_all
  moreover have "sint (word_of_nat (i + 1) :: u32) = int (i + 1)" "sint (word_of_nat (i + 2) :: u32) = int (i + 2)"
    using assms by (intro sint_small; simp)+
  ultimately show "dec_int (sint (word_of_nat i + 1 :: u32)) = dec_nat (i + 1)" "dec_int (sint (word_of_nat i + 2 :: u32)) = dec_nat (i + 2)"
    by (simp_all only: dec_int_of_nat)
qed

text \<open>Both programs print \<open>i + 1\<close> and \<open>i + 2\<close> for every index, and crash on the first write when \<open>malloc\<close> failed.\<close>

theorem lab2_prints_tables:
  assumes "length junk = gtable_size"
  shows "lab2_main me my_parent (Some junk)
      = Some ([''LAB2---------------------- '',
               ''Hello world from process id ='' @ dec_int me @ '' my ppid ='' @ dec_int my_parent @ '' '']
              @ concat (map two_lines [0..<gtable_size]))
    \<and> lab2_main me my_parent None = None"
proof -
  let ?l = "map (\<lambda>i. word_of_nat i + 1 :: u32) [0..<gtable_size]" and ?p = "map (\<lambda>i. word_of_nat i + 2 :: u32) [0..<gtable_size]"
  have m: "fill_tables 0 (replicate gtable_size 0) (replicate gtable_size 0) (Some junk)
      = Some (map word_of_nat [0..<gtable_size], ?l, ?p)"
    using fill_tables_fills [of 0 "replicate gtable_size 0" "replicate gtable_size 0" junk] assms by simp
  have n: "fill_tables 0 (replicate gtable_size 0) (replicate gtable_size 0) None = None"
    by (subst fill_tables.simps) (simp add: gtable_size_def)
  have "table_lines ?l ?p = concat (map two_lines [0..<gtable_size])"
    unfolding table_lines_def
    by (intro arg_cong [where f = concat] map_cong refl)
      (simp add: two_lines_def gtable_size_def dec_sums del: upt_rec_numeral upt_Suc)
  then show ?thesis by (simp add: lab2_main_def m n del: upt_rec_numeral)
qed

subsection \<open>The clients of the CRC library (\<open>lab4\<close> to \<open>lab7\<close>)\<close>

text \<open>\<open>%x\<close>.\<close>

definition hex_digit :: "nat \<Rightarrow> char" where
  "hex_digit k = (if k < 10 then char_of (48 + k) else char_of (87 + k))"

function hex_nat :: "nat \<Rightarrow> string" where
  "hex_nat n = (if n < 16 then [hex_digit n] else hex_nat (n div 16) @ [hex_digit (n mod 16)])"
  by pat_completeness auto
termination by (relation "measure id") auto
declare hex_nat.simps [simp del]

definition crc_gtable :: "u32 list" where
  "crc_gtable = 0x154F11D # replicate 19 0"

text \<open>
  \<open>main\<close>, with the bytes of the table as the CRC reads them and its two sizes; \<open>%d\<close> shows the maximum as a
  signed number. None is a read outside the table.
\<close>

definition crc_client :: "u32 list \<Rightarrow> string \<Rightarrow> string list option" where
  "crc_client table banner =
     (case (compute_crc32 (concat (map (le_bytes 4) table)) (4 * length table), getMaxValue table (length table)) of
        (Some crc, Some mx) \<Rightarrow>
          Some [banner, ''crc32 = '' @ hex_nat (unat crc) @ '' '', ''max = '' @ dec_int (sint mx) @ '' '']
      | _ \<Rightarrow> None)"

definition lab4_crc_main :: "string list option" where
  "lab4_crc_main = crc_client crc_gtable ''LAB4---------------------- ''"
definition lab5_crc_main :: "string list option" where
  "lab5_crc_main = crc_client crc_gtable ''LAB4---------------------- ''"
definition lab6_crc_main :: "string list option" where
  "lab6_crc_main = crc_client crc_gtable ''LAB4---------------------- ''"
definition lab7_crc_main :: "string list option" where
  "lab7_crc_main = crc_client crc_gtable ''LAB7 Shared lib---------------------- ''"

lemma length_table_bytes: "length (concat (map (le_bytes 4) table)) = 4 * length (table :: u32 list)"
  by (induction table) simp_all

lemma crc_loop_defined: "sz \<le> length buf \<Longrightarrow> crc_loop crc buf sz \<noteq> None"
  by (induction crc buf sz rule: crc_loop.induct) auto

text \<open>The client never reads outside its table and shows the maximum of it, as a negative number from \<open>2 ^ 31\<close> on.\<close>

theorem crc_client_shows_max:
  assumes "table \<noteq> []"
  shows "\<exists>crc. crc_client table banner = Some [banner, ''crc32 = '' @ hex_nat (unat crc) @ '' '',
      ''max = '' @ dec_int (sint (Max (set table))) @ '' '']
    \<and> compute_crc32 (concat (map (le_bytes 4) table)) (4 * length table) = Some crc"
proof -
  have "compute_crc32 (concat (map (le_bytes 4) table)) (4 * length table) \<noteq> None"
    using crc_loop_defined [of "4 * length table" "concat (map (le_bytes 4) table)" 0]
    by (simp add: compute_crc32_def length_table_bytes)
  then obtain crc where "compute_crc32 (concat (map (le_bytes 4) table)) (4 * length table) = Some crc" by blast
  moreover have "getMaxValue table (length table) = Some (Max (set table))"
    using assms by (subst getMaxValue_is_Max) simp_all
  ultimately show ?thesis by (simp add: crc_client_def)
qed

lemma crc_mains_agree:
  "\<exists>crc. lab4_crc_main = Some [''LAB4---------------------- '', crc, ''max = 22343965 '']
    \<and> lab5_crc_main = lab4_crc_main \<and> lab6_crc_main = lab4_crc_main
    \<and> lab7_crc_main = Some [''LAB7 Shared lib---------------------- '', crc, ''max = 22343965 '']"
proof -
  have m: "Max (set crc_gtable) = 0x154F11D" by (simp add: crc_gtable_def numeral_eq_Suc)
  have d: "dec_int (sint (0x154F11D :: u32)) = ''22343965''"
  proof -
    have "dec_nat 22343965 = map (\<lambda>k. char_of (48 + k :: nat)) [2, 2, 3, 4, 3, 9, 6, 5]" by (simp add: dec_nat.simps)
    also have "\<dots> = ''22343965''" by code_simp
    finally show ?thesis by (simp add: dec_int_def)
  qed
  have t: "crc_gtable \<noteq> []" by (simp add: crc_gtable_def)
  from crc_client_shows_max [OF t] obtain crc
    where c: "compute_crc32 (concat (map (le_bytes 4) crc_gtable)) (4 * length crc_gtable) = Some crc" by blast
  have "crc_client crc_gtable banner = Some [banner, ''crc32 = '' @ hex_nat (unat crc) @ '' '', ''max = 22343965 '']" for banner
    using crc_client_shows_max [OF t, of banner] c unfolding m d by simp
  then show ?thesis
    unfolding lab4_crc_main_def lab5_crc_main_def lab6_crc_main_def lab7_crc_main_def by blast
qed

subsection \<open>The measured loop of \<open>time1\<close>\<close>

text \<open>
  \<open>sink += j * j\<close> for \<open>j\<close> below \<open>numCalls\<close>: the product is of type \<open>int\<close>, and None is its overflow; \<open>sink\<close> is
  a \<open>uint64_t\<close>.
\<close>

function sink_loop :: "int \<Rightarrow> int \<Rightarrow> 64 word \<Rightarrow> 64 word option" where
  "sink_loop j numCalls sink =
     (if j < numCalls then if INT_MAX < j * j then None else sink_loop (j + 1) numCalls (sink + word_of_int (j * j)) else Some sink)"
  by pat_completeness auto
termination by (relation "measure (\<lambda>(j, n, _). nat (n - j))") auto
declare sink_loop.simps [simp del]

text \<open>\<open>argv\<close> without the program's name; the first None is the exit in \<open>getInt\<close>, the second the overflow.\<close>

definition time1_main :: "string list \<Rightarrow> 64 word option option" where
  "time1_main args =
     map_option (\<lambda>numCalls. sink_loop 0 numCalls 0) (case args of a # _ \<Rightarrow> getInt a True | [] \<Rightarrow> Some 100000000)"

lemma square_fits: "0 \<le> j \<Longrightarrow> j * j \<le> INT_MAX \<longleftrightarrow> j \<le> 46340"
proof -
  assume j: "0 \<le> j"
  have "46340 * 46340 \<le> INT_MAX" "INT_MAX < 46341 * 46341" by (simp_all add: INT_MAX_def)
  moreover have "j * j \<le> 46340 * 46340" if "j \<le> 46340" using that j by (intro mult_mono) auto
  moreover have "46341 * 46341 \<le> j * j" if "46341 \<le> j" using that by (intro mult_mono) auto
  ultimately show ?thesis by force
qed

lemma sink_loop_eq:
  "0 \<le> j \<Longrightarrow> j \<le> max 0 n \<Longrightarrow> j \<le> 46341 \<Longrightarrow>
     sink_loop j n s = (if n \<le> 46341 then Some (s + word_of_int (\<Sum>i \<in> {j..<n}. i * i)) else None)"
proof (induction j n s rule: sink_loop.induct)
  case (1 j n s)
  show ?case
  proof (cases "j < n")
    case True
    show ?thesis
    proof (cases "j \<le> 46340")
      case fits: True
      have "{j..<n} = insert j {j + 1..<n}" using True by auto
      then have "(\<Sum>i \<in> {j..<n}. i * i) = j * j + (\<Sum>i \<in> {j + 1..<n}. i * i)" by simp
      moreover have "\<not> INT_MAX < j * j" using square_fits "1.prems"(1) fits by (simp add: not_less)
      ultimately show ?thesis
        using "1.IH" True fits "1.prems" by (subst sink_loop.simps) (simp add: add.assoc)
    next
      case False
      then have "INT_MAX < j * j" using square_fits [OF "1.prems"(1)] by simp
      then show ?thesis using True False by (subst sink_loop.simps) simp
    qed
  next
    case False
    then show ?thesis using "1.prems" by (subst sink_loop.simps) auto
  qed
qed

text \<open>The loop that \<open>time1\<close> measures has defined behaviour only for up to 46341 turns, after which it holds the
  sum of the squares; with one turn more the product overflows its \<open>int\<close>, so without an argument, when
  100,000,000 turns are asked for, the program is undefined.\<close>

theorem time1_overflows:
  "(\<forall>n \<in> {1..INT_MAX}. time1_main [dec_int n]
      = Some (if n \<le> 46341 then Some (word_of_int (\<Sum>i \<in> {0..<n}. i * i)) else None))
   \<and> time1_main [] = Some None"
proof -
  have "LONG_MAX \<ge> INT_MAX" by (simp add: LONG_MAX_def INT_MAX_def)
  then have "getInt (dec_int n) True = Some n" if "0 < n" "n \<le> INT_MAX" for n using that getInt_truncates [of n] by simp
  then have "\<forall>n \<in> {1..INT_MAX}. time1_main [dec_int n] = Some (if n \<le> 46341 then Some (word_of_int (\<Sum>i \<in> {0..<n}. i * i)) else None)"
    by (auto simp: time1_main_def sink_loop_eq)
  moreover have "time1_main [] = Some None" by (simp add: time1_main_def sink_loop_eq)
  ultimately show ?thesis ..
qed

theorem time1_overflows_witness:
  "time1_main [dec_int 46341] = Some (Some (word_of_int (\<Sum>i \<in> {0..<46341}. i * i))) \<and> time1_main [dec_int 46342] = Some None"
  using time1_overflows by (simp add: INT_MAX_def)

subsection \<open>The client of two libraries (\<open>linking_demo\<close>)\<close>

text \<open>Sum and product of doubles, on the numbers of \<open>CJson_Data\<close> (without the sign of zero).\<close>

fun compute_add :: "double \<Rightarrow> double \<Rightarrow> double" where
  "compute_add (DNum a) (DNum b) = round_double (a + b)"
| "compute_add DNaN _ = DNaN"
| "compute_add _ DNaN = DNaN"
| "compute_add (DInf s) (DInf t) = (if s = t then DInf s else DNaN)"
| "compute_add (DInf s) _ = DInf s"
| "compute_add _ (DInf t) = DInf t"

fun dneg :: "double \<Rightarrow> bool" where
  "dneg (DInf s) = s"
| "dneg (DNum a) = (a < 0)"
| "dneg DNaN = False"

fun compute_mul :: "double \<Rightarrow> double \<Rightarrow> double" where
  "compute_mul (DNum a) (DNum b) = round_double (a * b)"
| "compute_mul DNaN _ = DNaN"
| "compute_mul _ DNaN = DNaN"
| "compute_mul x y = (if x = DNum 0 \<or> y = DNum 0 then DNaN else DInf (dneg x \<noteq> dneg y))"

text \<open>\<open>%.1f\<close> of a double: the tenths are rounded to even.\<close>

definition fixed1 :: "double \<Rightarrow> string" where
  "fixed1 d =
     (case d of
        DNaN \<Rightarrow> ''nan''
      | DInf s \<Rightarrow> if s then ''-inf'' else ''inf''
      | DNum x \<Rightarrow>
          let t = nat (round_even (10 * \<bar>x\<bar>))
          in (if x < 0 then ''-'' else '''') @ dec_nat (t div 10) @ ''.'' @ dec_nat (t mod 10))"

text \<open>None is the overflow in \<open>compute_factorial\<close>.\<close>

definition linking_main :: "string option" where
  "linking_main =
     map_option (\<lambda>f.
       print_banner ''Static + Shared linking demo''
       @ ''compute_add(3, 4)       = '' @ fixed1 (compute_add (DNum 3) (DNum 4)) @ [newline_char]
       @ ''compute_mul(3, 4)       = '' @ fixed1 (compute_mul (DNum 3) (DNum 4)) @ [newline_char]
       @ ''compute_factorial(5)    = '' @ dec_int f @ [newline_char]) (compute_factorial 5)"

text \<open>Both operations are commutative, and on integers that fit they are exact.\<close>

lemma compute_commute: "compute_add a b = compute_add b a" "compute_mul a b = compute_mul b a"
  by (cases a; cases b; auto simp: add.commute mult.commute)+

lemma linking_main_prints:
  "linking_main = Some (print_banner ''Static + Shared linking demo''
     @ ''compute_add(3, 4)       = 7.0'' @ [newline_char] @ ''compute_mul(3, 4)       = 12.0'' @ [newline_char]
     @ ''compute_factorial(5)    = 120'' @ [newline_char])"
proof -
  have r: "round_double 7 = DNum 7" "round_double 12 = DNum 12"
    using round_double_int [of 7] round_double_int [of 12] by simp_all
  have d: "dec_nat 7 = ''7''" "dec_nat 12 = ''12''" "dec_nat 0 = ''0''" "dec_nat 120 = ''120''" by code_simp+
  have e: "round_even 70 = 70" "round_even 120 = 120" by (simp_all add: round_even_def)
  have "fact (nat 5) = (120 :: int)" by (simp add: fact_numeral)
  then show ?thesis by (simp add: linking_main_def compute_factorial_eq r fixed1_def e d dec_int_def Let_def)
qed

end
