(* ===== verification/Spec2Isabelle.thy ===== *)
theory Spec2Isabelle
  imports Prelude Crc_Lib CJson_Data CJson_Buffer CJson_String CJson_Parse CJson_Access
    Telemetry Telemetry_System Bounded_Queue Producer_Consumer Thread_Pool Counters Sync_Labs
    CJson_Print CJson_Roundtrip Telemetry_Json CJson_Compare CJson_Minify CJson_Minify_Print CJson_List CJson_Chain
    Transition Trylock_Lab Store_Buffering Cond_Labs Race_Crash Bytes Ipc_Server Socket_Servers
    Timers Ipc_Labs Process_Labs Small_Labs CJson_Types CJson_Error Thread_Pool_V1 Heartbeat
    Sys_Calls Stdio_Read Server_Setup Ipc_Startup Docker_Servers Echo_Session
    Fork_Labs Signal_Labs Semaphore_Lab False_Sharing Demo_Labs First_Labs
begin

text \<open>
  Verification of the C programs of EmbeddedLinux_Training. The repository is a course: its largest program
  is the telemetry server \<open>seance6/project/main.c\<close> with the JSON library \<open>cJSON.c\<close> it is built with;
  around it stand small programs on threads, memory ordering, IPC and sockets. Sources are named relative
  to \<open>src/\<close>.

  The JSON library. \<open>CJson_Data\<close> holds C doubles (exact rationals, arithmetic rounded as binary64), the
  allocator (a budget of allocations that succeed and a count of live blocks) and the \<open>cJSON\<close> structure
  as a tree. \<open>CJson_Buffer\<close>, \<open>CJson_String\<close> and \<open>CJson_Parse\<close> are the parser with every index into its text:
  it returns, stays in the text and leaks nothing; \<open>CJson_Error\<close> is the error pointer over a sequence of
  parses. \<open>CJson_Access\<close> are type tests, readers, lookup,
  setters, constructors and \<open>cJSON_Duplicate\<close>; \<open>CJson_Types\<close> is the type discipline that all of these keep.
  \<open>CJson_Print\<close> is the printer on its growing output buffer,
  refined to the text \<open>render\<close> of a tree; \<open>CJson_Roundtrip\<close> shows that this text parses back to the tree.
  \<open>CJson_Compare\<close> is \<open>cJSON_Compare\<close>; \<open>CJson_Minify\<close> is the in-place minifier with its two indices, and
  \<open>CJson_Minify_Print\<close> relates it to the printer. \<open>CJson_List\<close> models the functions that edit item lists on a
  heap of linked nodes, as the code's pointers do; \<open>CJson_Chain\<close> shows that on well-formed chains they are
  the list operations, that deletion frees a tree's blocks once each, and where the code fails.

  The telemetry server. \<open>Telemetry\<close> models the configuration reader (a client of the JSON parser), the two
  threads' handlers, the client table and the messages; \<open>Telemetry_System\<close> is the two threads together, and
  shows that no configuration is lost between them; \<open>Telemetry_Json\<close> shows that what the server sends and
  reads is JSON to the library.

  Queues and pools. \<open>Bounded_Queue\<close> states the contract of a bounded queue as a locale and interprets it on
  the ring buffer of \<open>lab_multithreading_debug.c\<close>, the register of \<open>producer_consumer2.c\<close> and the task array
  of \<open>lab35_threadpool.c\<close>. \<open>Producer_Consumer\<close> proves order, completeness and absence of deadlock once over
  that contract, and shows what the program without a handshake loses. \<open>Thread_Pool\<close> shows that every
  schedule of the pool ends with every accepted task run once; \<open>Thread_Pool_V1\<close> is the first version of the
  program, a refinement of the pool that is never shut down. \<open>Heartbeat\<close> holds the loop of \<open>periodic_thread\<close>.

  Labs on shared memory. \<open>Counters\<close> (\<open>lab21\<close> to \<open>lab24\<close>), \<open>Sync_Labs\<close> (\<open>lab25\<close>), \<open>Trylock_Lab\<close> (\<open>lab26\<close>),
  \<open>Cond_Labs\<close> (\<open>lab27\<close>, \<open>lab29\<close>), \<open>Store_Buffering\<close> (\<open>lab31\<close>, \<open>lab32\<close>, on the store buffers of x86) and
  \<open>Race_Crash\<close> (\<open>seance6/racecrash\<close>). The later ones give a program as an executable successor function;
  \<open>Transition\<close> has reachability, schedules and the locales for invariants and for measures, which each
  program interprets. \<open>False_Sharing\<close> is \<open>lab33\<close>: the layout of the counters on cache lines and the threads
  that count.

  System calls. \<open>Sys_Calls\<close> is a kernel as a record (descriptors, names in the file system, console, bytes on
  the wire) and the calls of the programs as functions of a state monad, each of which may fail: the list
  \<open>faults\<close> decides. \<open>Stdio_Read\<close> is \<open>fgets\<close>. \<open>Server_Setup\<close> (telemetry server, echo server and \<open>inotify.c\<close>),
  \<open>Ipc_Startup\<close> (\<open>backend.c\<close>) and \<open>Docker_Servers\<close> (\<open>seance_4/docker\<close> and \<open>docker2\<close>, whole programs with their
  client) are written over it; they show what is open, and under which names, after a start, an end and
  each failure. \<open>Echo_Session\<close> puts the echo server and \<open>client_epoll.c\<close> together.

  Servers. \<open>Ipc_Server\<close> is \<open>process/project/backend.c\<close> with the packed message, the client table and the
  socket reader of \<open>py_gui.py\<close>; \<open>Socket_Servers\<close> is the epoll echo server and the child watch of
  \<open>docker2/server.c\<close>; \<open>Bytes\<close> are integers in memory.

  Smaller programs. \<open>Timers\<close> (\<open>alarm.c\<close>, \<open>timer.c\<close>, \<open>timerfd.c\<close>), \<open>Ipc_Labs\<close> (message queue, shared memory,
  Unix socket and pipe under \<open>process/ipc\<close>), \<open>Process_Labs\<close> (\<open>lab4_exit.c\<close>, \<open>getops.c\<close>, \<open>lab11_sigint.c\<close>,
  \<open>daemon.c\<close>) and \<open>Small_Labs\<close> (\<open>inotify.c\<close>, the libraries of \<open>linking_demo\<close>, \<open>time1.c\<close>, \<open>leaklab.c\<close>). \<open>Crc_Lib\<close> is
  the library that labs 4 to 7 build in four ways, \<open>First_Labs\<close> the programs on it, labs 2 and 3 and the main
  programs of \<open>linking_demo\<close> and \<open>time1.c\<close>. \<open>Fork_Labs\<close> has parent and child as two interleaved programs
  (\<open>lab3\<close>, \<open>lab5\<close> to \<open>lab8\<close>, \<open>namespace.c\<close>), \<open>Signal_Labs\<close> signals (\<open>lab9\<close>, \<open>lab10\<close>, \<open>lab28\<close>), \<open>Semaphore_Lab\<close> the
  writers of \<open>lab16\<close>, of which any may be killed, \<open>Heartbeat\<close> the main loop of \<open>daemon.c\<close>, and \<open>Demo_Labs\<close> the
  remaining demos of \<open>process\<close> and \<open>thread\<close>.

  Bounds and fuel. The parser's recursion takes as fuel the number of unread bytes plus one, and its loops
  as many turns; every value consumes a byte, so this never runs out (\<open>cJSON_ParseWithLengthOpts_safe\<close>). The
  recursion is also cut at \<open>CJSON_NESTING_LIMIT\<close> by the code itself. Deletion and search on the heap are
  \<open>partial_function (option)\<close>: that they return is proved for well-formed trees. All other recursion is
  structural or has a measure. Machine integers are words where they wrap (CRC, sequence numbers, time), and
  \<open>int\<close> with the limits of \<open>int\<close> where the code saturates or tests; sizes are \<open>nat\<close>: no object here comes
  near the limits of \<open>size_t\<close>, and \<open>ensure\<close> tests \<open>INT_MAX\<close> itself.

  Environment. Allocation can fail at any moment where the code's own behaviour on failure matters (the
  JSON library, \<open>realloc\<close> in \<open>Race_Crash\<close>). Results of system calls are arguments of the steps; schedules are
  arbitrary interleavings of steps that each make at most one access to shared memory, or run under a
  mutex. Sleeps and delays have no meaning but to allow interleaving.

  Not modelled. The exact wording of some printed lines (a line is modelled where what it says matters);
  \<open>displayProcessTimes\<close> of \<open>time1.c\<close>, which is never called; the second half of \<open>lab8_cmdexec.c\<close>, which the
  preprocessor drops; locale-dependent decimal points; comparison and editing of trees that share nodes
  through references; elapsed times that are only printed. \<open>lab1/main.c\<close> prints one line for ever.
  \<open>CMakeCCompilerId.c\<close> is generated by CMake. Labs 5 to 7 and \<open>docker2/client.c\<close> repeat the code of lab 4
  and of \<open>docker/client.c\<close>, which the definitions model once.
\<close>

end
